(* ===== verification/Prelude.thy ===== *)
theory Prelude
  imports Main "HOL-Library.Word" "HOL-Library.AList" "HOL-Library.Signed_Division"
begin

text \<open>
  Shared types and lemmas of the development. A Go \<^verbatim>\<open>string\<close> and a Go \<^verbatim>\<open>[]byte\<close> are both
  finite sequences of octets, and HOL's \<^typ>\<open>char\<close> is exactly an octet, so both are
  \<open>bytes\<close>. A \<^verbatim>\<open>time.Time\<close> is the instant it denotes, in nanoseconds since the Unix
  epoch. A Go map is an association list with distinct keys: the order of the list is the
  iteration order the runtime happens to choose, and nothing below depends on it. A
  \<^verbatim>\<open>float64\<close> is only ever copied, so it is its 64 bits.
\<close>

unbundle bit_operations_syntax

named_theorems wf_intros \<open>well-formedness rules of the components' states\<close>
named_theorems text_simps \<open>evaluation of the byte-string helpers\<close>
named_theorems frame_simps \<open>what an operation leaves unchanged\<close>

section \<open>Types\<close>

type_synonym bytes = string
type_synonym gotime = int
type_synonym u32 = "32 word"
type_synonym u64 = "64 word"
type_synonym float64 = "64 word"
type_synonym ('k, 'v) gomap = "('k \<times> 'v) list"

abbreviation gokeys :: "('k, 'v) gomap \<Rightarrow> 'k list" where
  "gokeys m \<equiv> map fst m"

section \<open>Time\<close>

text \<open>The units of \<^verbatim>\<open>time.Duration\<close>, the zero \<^verbatim>\<open>time.Time\<close> (1 January of year 1) and the
  conversions the sources use. \<^verbatim>\<open>Before\<close> and \<^verbatim>\<open>After\<close> compare instants.\<close>

definition Second :: gotime where
  "Second = 1000000000"

definition Minute :: gotime where
  "Minute = 60 * Second"

definition Hour :: gotime where
  "Hour = 60 * Minute"

definition zero_time :: gotime where
  "zero_time = - 62135596800 * Second"

definition IsZero :: "gotime \<Rightarrow> bool" where
  "IsZero t \<longleftrightarrow> t = zero_time"

definition Unix :: "gotime \<Rightarrow> int" where
  "Unix t = t div Second"

definition UnixNano :: "gotime \<Rightarrow> int" where
  "UnixNano t = signed_take_bit 63 t"

lemmas time_units = Second_def Minute_def Hour_def

section \<open>Integer conversions\<close>

text \<open>Go's conversions between integer types keep the low bits: \<^verbatim>\<open>int32(x)\<close> and
  \<^verbatim>\<open>uint32(x)\<close> of an \<^verbatim>\<open>int\<close>.\<close>

definition to_int32 :: "int \<Rightarrow> int" where
  "to_int32 x = signed_take_bit 31 x"

definition to_uint32 :: "int \<Rightarrow> u32" where
  "to_uint32 x = word_of_int x"

lemma to_int32_id: "- (2 ^ 31) \<le> x \<Longrightarrow> x < 2 ^ 31 \<Longrightarrow> to_int32 x = x"
  by (simp add: to_int32_def signed_take_bit_int_eq_self)

lemma to_int32_range: "- (2 ^ 31) \<le> to_int32 x \<and> to_int32 x < 2 ^ 31"
  unfolding to_int32_def
  using signed_take_bit_int_less_exp [of 31 x] signed_take_bit_int_greater_eq_minus_exp [of 31 x]
  by simp

lemma to_uint32_id: "0 \<le> x \<Longrightarrow> x < 2 ^ 32 \<Longrightarrow> uint (to_uint32 x) = x"
  by (simp add: to_uint32_def uint_word_of_int)

lemma unat_inc64: "s \<noteq> - 1 \<Longrightarrow> unat (s + 1 :: u64) = Suc (unat s)"
  by (metis add.commute max_word_wrap unatSuc)

section \<open>Maps\<close>

lemma map_of_filter_distinct:
  "distinct (gokeys m) \<Longrightarrow>
   map_of (filter P m) k = (case map_of m k of None \<Rightarrow> None | Some v \<Rightarrow> if P (k, v) then Some v else None)"
proof (induction m)
  case Nil
  then show ?case by simp
next
  case (Cons kv m)
  obtain k' v' where kv: "kv = (k', v')" by (cases kv)
  have "k' = k \<Longrightarrow> map_of m k = None"
    using Cons.prems kv by (auto simp: map_of_eq_None_iff)
  then show ?case using Cons kv by (auto split: option.splits)
qed

lemma distinct_gokeys_filter [wf_intros]:
  "distinct (gokeys m) \<Longrightarrow> distinct (gokeys (filter P m))"
  by (induction m) auto

lemma distinct_gokeys_update [wf_intros]:
  "distinct (gokeys m) \<Longrightarrow> distinct (gokeys (AList.update k v m))"
  by (rule AList.distinct_update)

lemma distinct_gokeys_delete [wf_intros]:
  "distinct (gokeys m) \<Longrightarrow> distinct (gokeys (AList.delete k m))"
  by (rule AList.distinct_delete)

lemma map_of_update [simp]: "map_of (AList.update k v m) = (map_of m)(k \<mapsto> v)"
  by (rule update_conv')

lemma map_of_delete [simp]: "map_of (AList.delete k m) = (map_of m)(k := None)"
  by (rule delete_conv')

lemma map_of_map_snd:
  "map_of (map (\<lambda>(k, v). (k, f k v)) m) k = map_option (f k) (map_of m k)"
  by (induction m) auto

lemma map_of_keyed:
  "distinct (map f vs) \<Longrightarrow> v \<in> set vs \<Longrightarrow> map_of (map (\<lambda>v. (f v, v)) vs) (f v) = Some v"
  by (induction vs) (auto simp: image_iff)

section \<open>Lists\<close>

lemma split_at_first:
  assumes "a @ c # x = b @ c # y" and "c \<notin> set a" and "c \<notin> set b"
  shows "a = b \<and> x = y"
  using assms
proof (induction a arbitrary: b)
  case Nil
  then show ?case by (cases b) auto
next
  case (Cons z a)
  then show ?case by (cases b) auto
qed

section \<open>Sequences of operations\<close>

text \<open>What a sequence of operations answers, and the state it ends in.\<close>

fun outcomes :: "('op \<Rightarrow> 's \<Rightarrow> 'o \<times> 's) \<Rightarrow> 'op list \<Rightarrow> 's \<Rightarrow> 'o list" where
  "outcomes step [] s = []"
| "outcomes step (op # ops) s = fst (step op s) # outcomes step ops (snd (step op s))"

fun run_ops :: "('op \<Rightarrow> 's \<Rightarrow> 'o \<times> 's) \<Rightarrow> 'op list \<Rightarrow> 's \<Rightarrow> 's" where
  "run_ops step [] s = s"
| "run_ops step (op # ops) s = run_ops step ops (snd (step op s))"

lemma outcomes_append:
  "outcomes step (xs @ ys) s = outcomes step xs s @ outcomes step ys (run_ops step xs s)"
  by (induction xs arbitrary: s) simp_all

lemma run_ops_append: "run_ops step (xs @ ys) s = run_ops step ys (run_ops step xs s)"
  by (induction xs arbitrary: s) simp_all

lemma run_ops_invariant:
  "P s \<Longrightarrow> (\<And>op s. P s \<Longrightarrow> P (snd (step op s))) \<Longrightarrow> P (run_ops step ops s)"
  by (induction ops arbitrary: s) simp_all

section \<open>Normalising operations\<close>

text \<open>
  Several operations of the sources bring a value into an allowed form and are meant to
  leave a value alone that already has it: \<^verbatim>\<open>strings.TrimSpace\<close>, the projection's \<^verbatim>\<open>clip\<close>
  and the three \<^verbatim>\<open>Clamp\<close> methods. This is their contract, and what follows from it.
\<close>

locale normaliser =
  fixes norm :: "'a \<Rightarrow> 'a"
    and ok :: "'a \<Rightarrow> bool"
  assumes norm_ok: "ok (norm x)"
    and norm_id: "ok x \<Longrightarrow> norm x = x"
begin

lemma idempotent: "norm (norm x) = norm x"
  by (rule norm_id) (rule norm_ok)

lemma fixpoint_iff: "norm x = x \<longleftrightarrow> ok x"
  using norm_ok norm_id by metis

lemma range_eq: "range norm = Collect ok"
proof
  show "range norm \<subseteq> Collect ok" by (auto simp: norm_ok)
  show "Collect ok \<subseteq> range norm" by (auto simp: image_iff) (metis norm_id)
qed

end

end
