(* ===== verification/GoText.thy ===== *)
theory GoText
  imports Prelude "HOL-Library.Sublist"
begin

text \<open>
  What the sources use of Go's \<^verbatim>\<open>strings\<close>, \<^verbatim>\<open>strconv\<close>, \<^verbatim>\<open>fmt\<close> and \<^verbatim>\<open>unicode/utf8\<close>
  packages: trimming of Unicode white space, decimal and hexadecimal formatting, and the
  shape of well-formed UTF-8.
\<close>

unbundle bit_operations_syntax

section \<open>White space\<close>

text \<open>The UTF-8 encodings of the code points for which \<^verbatim>\<open>unicode.IsSpace\<close> holds. A string's
  first (last) rune is a space exactly when the string starts (ends) with one of these:
  a valid encoding is found by its first byte in either direction.\<close>

definition space_runes :: "bytes list" where
  "space_runes =
    [[CHR 0x09], [CHR 0x0A], [CHR 0x0B], [CHR 0x0C], [CHR 0x0D], [CHR 0x20],
     [CHR 0xC2, CHR 0x85], [CHR 0xC2, CHR 0xA0], [CHR 0xE1, CHR 0x9A, CHR 0x80],
     [CHR 0xE2, CHR 0x80, CHR 0x80], [CHR 0xE2, CHR 0x80, CHR 0x81],
     [CHR 0xE2, CHR 0x80, CHR 0x82], [CHR 0xE2, CHR 0x80, CHR 0x83],
     [CHR 0xE2, CHR 0x80, CHR 0x84], [CHR 0xE2, CHR 0x80, CHR 0x85],
     [CHR 0xE2, CHR 0x80, CHR 0x86], [CHR 0xE2, CHR 0x80, CHR 0x87],
     [CHR 0xE2, CHR 0x80, CHR 0x88], [CHR 0xE2, CHR 0x80, CHR 0x89],
     [CHR 0xE2, CHR 0x80, CHR 0x8A], [CHR 0xE2, CHR 0x80, CHR 0xA8],
     [CHR 0xE2, CHR 0x80, CHR 0xA9], [CHR 0xE2, CHR 0x80, CHR 0xAF],
     [CHR 0xE2, CHR 0x81, CHR 0x9F], [CHR 0xE3, CHR 0x80, CHR 0x80]]"

lemma space_rune_nonempty: "r \<in> set space_runes \<Longrightarrow> 0 < length r"
  unfolding space_runes_def by auto

lemma find_space_nonempty: "find P space_runes = Some r \<Longrightarrow> 0 < length r"
  by (metis find_Some_iff nth_mem space_rune_nonempty)

function trim_left :: "bytes \<Rightarrow> bytes" where
  "trim_left s = (case find (\<lambda>r. prefix r s) space_runes of
     None \<Rightarrow> s
   | Some r \<Rightarrow> trim_left (drop (length r) s))"
  by pat_completeness auto
termination
proof (relation "measure length")
  fix s r
  assume r: "find (\<lambda>r. prefix r s) space_runes = Some r"
  then have "prefix r s" by (metis (mono_tags, lifting) find_Some_iff)
  then have "length r \<le> length s" by (rule prefix_length_le)
  with find_space_nonempty [OF r] show "(drop (length r) s, s) \<in> measure length"
    by (simp del: length_greater_0_conv)
qed simp

function trim_right :: "bytes \<Rightarrow> bytes" where
  "trim_right s = (case find (\<lambda>r. suffix r s) space_runes of
     None \<Rightarrow> s
   | Some r \<Rightarrow> trim_right (take (length s - length r) s))"
  by pat_completeness auto
termination
proof (relation "measure length")
  fix s r
  assume r: "find (\<lambda>r. suffix r s) space_runes = Some r"
  then have "suffix r s" by (metis (mono_tags, lifting) find_Some_iff)
  then have "length r \<le> length s" by (rule suffix_length_le)
  with find_space_nonempty [OF r]
  show "(take (length s - length r) s, s) \<in> measure length"
    by (simp del: length_greater_0_conv)
qed simp

declare trim_left.simps [simp del] trim_right.simps [simp del]

definition TrimSpace :: "bytes \<Rightarrow> bytes" where
  "TrimSpace s = trim_right (trim_left s)"

definition no_space_prefix :: "bytes \<Rightarrow> bool" where
  "no_space_prefix s \<longleftrightarrow> (\<forall>r \<in> set space_runes. \<not> prefix r s)"

definition no_space_suffix :: "bytes \<Rightarrow> bool" where
  "no_space_suffix s \<longleftrightarrow> (\<forall>r \<in> set space_runes. \<not> suffix r s)"

definition trimmed :: "bytes \<Rightarrow> bool" where
  "trimmed s \<longleftrightarrow> no_space_prefix s \<and> no_space_suffix s"

lemma trim_left_stops: "no_space_prefix (trim_left s)"
proof (induction s rule: trim_left.induct)
  case (1 s)
  then show ?case
    by (subst trim_left.simps)
      (auto simp: no_space_prefix_def find_None_iff split: option.splits)
qed

lemma trim_left_id: "no_space_prefix s \<Longrightarrow> trim_left s = s"
  by (subst trim_left.simps)
    (auto simp: no_space_prefix_def split: option.splits dest: find_Some_iff [THEN iffD1])

lemma trim_right_stops: "no_space_suffix (trim_right s)"
proof (induction s rule: trim_right.induct)
  case (1 s)
  then show ?case
    by (subst trim_right.simps)
      (auto simp: no_space_suffix_def find_None_iff split: option.splits)
qed

lemma trim_right_id: "no_space_suffix s \<Longrightarrow> trim_right s = s"
  by (subst trim_right.simps)
    (auto simp: no_space_suffix_def split: option.splits dest: find_Some_iff [THEN iffD1])

lemma trim_right_prefix: "prefix (trim_right s) s"
proof (induction s rule: trim_right.induct)
  case (1 s)
  show ?case
  proof (cases "find (\<lambda>r. suffix r s) space_runes")
    case None
    then show ?thesis by (subst trim_right.simps) simp
  next
    case (Some r)
    then have "prefix (trim_right (take (length s - length r) s)) (take (length s - length r) s)"
      by (rule "1.IH")
    then have "prefix (trim_right (take (length s - length r) s)) s"
      using take_is_prefix prefix_order.trans by blast
    then show ?thesis using Some by (subst trim_right.simps) simp
  qed
qed

lemma trim_left_suffix: "suffix (trim_left s) s"
proof (induction s rule: trim_left.induct)
  case (1 s)
  show ?case
  proof (cases "find (\<lambda>r. prefix r s) space_runes")
    case None
    then show ?thesis by (subst trim_left.simps) simp
  next
    case (Some r)
    then have "suffix (trim_left (drop (length r) s)) (drop (length r) s)"
      by (rule "1.IH")
    then have "suffix (trim_left (drop (length r) s)) s"
      using suffix_drop suffix_order.trans by blast
    then show ?thesis using Some by (subst trim_left.simps) simp
  qed
qed

lemma TrimSpace_sublist: "sublist (TrimSpace s) s"
proof -
  have "sublist (trim_right (trim_left s)) (trim_left s)"
    using trim_right_prefix by (rule prefix_imp_sublist)
  moreover have "sublist (trim_left s) s"
    using trim_left_suffix by (rule suffix_imp_sublist)
  ultimately show ?thesis
    unfolding TrimSpace_def by (rule sublist_order.order.trans)
qed

lemma TrimSpace_length: "length (TrimSpace s) \<le> length s"
  using TrimSpace_sublist by (rule sublist_length_le)

lemma TrimSpace_trimmed: "trimmed (TrimSpace s)"
proof -
  have "no_space_prefix (trim_right (trim_left s))"
    using trim_left_stops [of s] trim_right_prefix [of "trim_left s"]
    unfolding no_space_prefix_def using prefix_order.trans by blast
  then show ?thesis
    by (simp add: trimmed_def TrimSpace_def trim_right_stops)
qed

interpretation trim: normaliser TrimSpace trimmed
  by unfold_locales
    (rule TrimSpace_trimmed, simp add: TrimSpace_def trimmed_def trim_left_id trim_right_id)

section \<open>Numbers as text\<close>

definition hex_digit :: "nat \<Rightarrow> char" where
  "hex_digit n = (if n < 10 then char_of (48 + n) else char_of (87 + n))"

definition dec_digit :: "nat \<Rightarrow> char" where
  "dec_digit n = char_of (48 + n)"

fun dec_nat :: "nat \<Rightarrow> string" where
  "dec_nat n = (if n < 10 then [dec_digit n] else dec_nat (n div 10) @ [dec_digit (n mod 10)])"

declare dec_nat.simps [simp del]

definition FormatInt :: "int \<Rightarrow> string" where
  "FormatInt i = (if i < 0 then CHR ''-'' # dec_nat (nat (- i)) else dec_nat (nat i))"

text \<open>\<^verbatim>\<open>fmt\<close>'s \<open>%08x\<close> on a \<^verbatim>\<open>uint32\<close>: eight nibbles, most significant first.\<close>

definition nibble :: "u32 \<Rightarrow> nat \<Rightarrow> nat" where
  "nibble w i = unat (drop_bit (4 * i) w AND 15)"

definition format_08x :: "u32 \<Rightarrow> string" where
  "format_08x w = map (\<lambda>i. hex_digit (nibble w i)) [7, 6, 5, 4, 3, 2, 1, 0]"

text \<open>\<^verbatim>\<open>hex.EncodeToString\<close>: two digits per byte.\<close>

definition hex_of_byte :: "char \<Rightarrow> string" where
  "hex_of_byte c = [hex_digit (of_char c div 16), hex_digit (of_char c mod 16)]"

definition hex_EncodeToString :: "bytes \<Rightarrow> string" where
  "hex_EncodeToString bs = concat (map hex_of_byte bs)"

lemma length_format_08x [simp]: "length (format_08x w) = 8"
  by (simp add: format_08x_def)

lemma length_hex_EncodeToString: "length (hex_EncodeToString bs) = 2 * length bs"
  by (induction bs) (simp_all add: hex_EncodeToString_def hex_of_byte_def)

lemma hex_digit_inject: "i < 16 \<Longrightarrow> j < 16 \<Longrightarrow> hex_digit i = hex_digit j \<longleftrightarrow> i = j"
  by (auto simp: hex_digit_def char_of_eq_iff take_bit_nat_eq_self split: if_split_asm)

lemma hex_of_byte_inject: "hex_of_byte a = hex_of_byte b \<longleftrightarrow> a = b"
proof
  assume "hex_of_byte a = hex_of_byte b"
  then have "(of_char a :: nat) div 16 = of_char b div 16 \<and> (of_char a :: nat) mod 16 = of_char b mod 16"
    using nat_of_char_less_256 [of a] nat_of_char_less_256 [of b]
    by (simp add: hex_of_byte_def hex_digit_inject)
  then have "(of_char a :: nat) = of_char b" by (metis div_mult_mod_eq)
  then show "a = b" by simp
qed simp

lemma length_hex_of_byte [simp]: "length (hex_of_byte c) = 2"
  by (simp add: hex_of_byte_def)

lemma hex_EncodeToString_inject:
  "hex_EncodeToString a = hex_EncodeToString b \<longleftrightarrow> a = b"
proof (induction a arbitrary: b)
  case Nil
  then show ?case by (cases b) (simp_all add: hex_EncodeToString_def hex_of_byte_def)
next
  case (Cons x xs)
  show ?case
  proof (cases b)
    case Nil
    then show ?thesis by (simp add: hex_EncodeToString_def hex_of_byte_def)
  next
    case (Cons y ys)
    then show ?thesis
      using \<open>\<And>b. (hex_EncodeToString xs = hex_EncodeToString b) = (xs = b)\<close> [of ys]
      by (simp add: hex_EncodeToString_def hex_of_byte_inject)
  qed
qed

section \<open>UTF-8\<close>

text \<open>\<open>s[i] & 0xC0 == 0x80\<close>: the byte continues a multi-byte encoding.\<close>

definition cont_byte :: "char \<Rightarrow> bool" where
  "cont_byte c \<longleftrightarrow> (of_char c :: 8 word) AND 0xC0 = 0x80"

definition in_byte_range :: "nat \<Rightarrow> nat \<Rightarrow> char \<Rightarrow> bool" where
  "in_byte_range lo hi c \<longleftrightarrow> lo \<le> of_char c \<and> of_char c \<le> hi"

text \<open>The well-formed encodings of one code point, from \<^verbatim>\<open>unicode/utf8\<close>'s acceptance table.\<close>

fun is_rune :: "bytes \<Rightarrow> bool" where
  "is_rune [a] = in_byte_range 0x00 0x7F a"
| "is_rune [a, b] = (in_byte_range 0xC2 0xDF a \<and> cont_byte b)"
| "is_rune [a, b, c] =
    ((in_byte_range 0xE0 0xE0 a \<and> in_byte_range 0xA0 0xBF b
      \<or> (in_byte_range 0xE1 0xEC a \<or> in_byte_range 0xEE 0xEF a) \<and> cont_byte b
      \<or> in_byte_range 0xED 0xED a \<and> in_byte_range 0x80 0x9F b) \<and> cont_byte c)"
| "is_rune [a, b, c, d] =
    ((in_byte_range 0xF0 0xF0 a \<and> in_byte_range 0x90 0xBF b
      \<or> in_byte_range 0xF1 0xF3 a \<and> cont_byte b
      \<or> in_byte_range 0xF4 0xF4 a \<and> in_byte_range 0x80 0x8F b) \<and> cont_byte c \<and> cont_byte d)"
| "is_rune _ = False"

inductive valid_utf8 :: "bytes \<Rightarrow> bool" where
  empty: "valid_utf8 []"
| rune: "is_rune r \<Longrightarrow> valid_utf8 s \<Longrightarrow> valid_utf8 (r @ s)"

lemma cont_byte_iff: "cont_byte c \<longleftrightarrow> in_byte_range 0x80 0xBF c"
proof (cases c)
  case (Char b0 b1 b2 b3 b4 b5 b6 b7)
  then show ?thesis
    by (cases b0; cases b1; cases b2; cases b3; cases b4; cases b5; cases b6; cases b7)
      (simp_all add: cont_byte_def in_byte_range_def)
qed

lemma valid_utf8_ascii: "list_all (\<lambda>c. (of_char c :: nat) < 128) s \<Longrightarrow> valid_utf8 s"
proof (induction s)
  case Nil
  then show ?case by (simp add: valid_utf8.empty)
next
  case (Cons c s)
  then have "valid_utf8 ([c] @ s)" by (intro valid_utf8.rune) (simp_all add: in_byte_range_def)
  then show ?case by simp
qed

end
