(* ===== verification/GoEncoding.thy ===== *)
theory GoEncoding
  imports GoText
begin

text \<open>
  What the sources use of Go's \<^verbatim>\<open>encoding/base64\<close>, \<^verbatim>\<open>encoding/base32\<close> and \<^verbatim>\<open>encoding/binary\<close>:
  the standard (padded) and raw URL base64 codecs, unpadded base32, and big-endian
  \<^verbatim>\<open>uint64\<close>s, with the round trips and injectivity the protocols rely on.
\<close>

unbundle bit_operations_syntax

section \<open>Base64\<close>

definition b64_std :: string where
  "b64_std = ''ABCDEFGHIJKLMNOPQRSTUVWXYZabcdefghijklmnopqrstuvwxyz0123456789+/''"

definition b64_url :: string where
  "b64_url = ''ABCDEFGHIJKLMNOPQRSTUVWXYZabcdefghijklmnopqrstuvwxyz0123456789-_''"

abbreviation octet :: "char \<Rightarrow> nat" where
  "octet c \<equiv> of_char c"

fun b64_encode :: "string \<Rightarrow> string \<Rightarrow> bytes \<Rightarrow> string" where
  "b64_encode al pad [] = []"
| "b64_encode al pad [a] =
    al ! (octet a div 4) # al ! (octet a mod 4 * 16) # pad @ pad"
| "b64_encode al pad [a, b] =
    al ! (octet a div 4) # al ! (octet a mod 4 * 16 + octet b div 16) # al ! (octet b mod 16 * 4) # pad"
| "b64_encode al pad (a # b # c # bs) =
    al ! (octet a div 4) # al ! (octet a mod 4 * 16 + octet b div 16)
    # al ! (octet b mod 16 * 4 + octet c div 64) # al ! (octet c mod 64) # b64_encode al pad bs"

definition StdEncoding_EncodeToString :: "bytes \<Rightarrow> string" where
  "StdEncoding_EncodeToString = b64_encode b64_std ''=''"

definition RawURLEncoding_EncodeToString :: "bytes \<Rightarrow> string" where
  "RawURLEncoding_EncodeToString = b64_encode b64_url []"

definition b64_val :: "string \<Rightarrow> char \<Rightarrow> nat option" where
  "b64_val al c = find (\<lambda>i. al ! i = c) [0..<64]"

text \<open>Decoding skips carriage returns and newlines, demands padding in the last quantum only,
  and, like the default (non-strict) codec, ignores left-over bits.\<close>

fun b64_quads :: "string \<Rightarrow> string \<Rightarrow> bytes option" where
  "b64_quads al [] = Some []"
| "b64_quads al (a # b # c # d # rest) =
    (case (b64_val al a, b64_val al b) of
       (Some va, Some vb) \<Rightarrow>
         (if rest = [] \<and> c = CHR ''='' \<and> d = CHR ''='' then Some [char_of (va * 4 + vb div 16)]
          else (case b64_val al c of
            None \<Rightarrow> None
          | Some vc \<Rightarrow>
              (if rest = [] \<and> d = CHR ''=''
               then Some [char_of (va * 4 + vb div 16), char_of (vb mod 16 * 16 + vc div 4)]
               else (case b64_val al d of
                 None \<Rightarrow> None
               | Some vd \<Rightarrow> map_option (\<lambda>bs.
                   char_of (va * 4 + vb div 16) # char_of (vb mod 16 * 16 + vc div 4)
                   # char_of (vc mod 4 * 64 + vd) # bs) (b64_quads al rest)))))
     | _ \<Rightarrow> None)"
| "b64_quads al _ = None"

definition StdEncoding_DecodeString :: "string \<Rightarrow> bytes option" where
  "StdEncoding_DecodeString s = b64_quads b64_std (filter (\<lambda>c. c \<noteq> CHR 0x0D \<and> c \<noteq> CHR 0x0A) s)"

lemma div_mod_split:
  fixes k m n :: nat
  assumes "k < n"
  shows "(m * n + k) div n = m" and "(m * n + k) mod n = k"
  using assms by simp_all

lemma split_octets:
  fixes x y z :: nat
  assumes "x < 256" and "y < 256" and "z < 256"
  shows "x div 4 < 64" "x mod 4 * 16 + y div 16 < 64" "y mod 16 * 4 + z div 64 < 64" "z mod 64 < 64"
    "x mod 4 * 16 < 64" "y mod 16 * 4 < 64"
    "x div 4 * 4 + (x mod 4 * 16 + y div 16) div 16 = x"
    "(x mod 4 * 16 + y div 16) mod 16 * 16 + (y mod 16 * 4 + z div 64) div 4 = y"
    "(y mod 16 * 4 + z div 64) mod 4 * 64 + z mod 64 = z"
    "x div 4 * 4 + x mod 4 * 16 div 16 = x"
    "(x mod 4 * 16 + y div 16) mod 16 * 16 + y mod 16 * 4 div 4 = y"
proof -
  have b: "y div 16 < 16" "z div 64 < 4" "x mod 4 < 4" "y mod 16 < 16" using assms by simp_all
  show "x div 4 < 64" "z mod 64 < 64" "x mod 4 * 16 < 64" "y mod 16 * 4 < 64"
    "x mod 4 * 16 + y div 16 < 64" "y mod 16 * 4 + z div 64 < 64"
    using assms b by linarith+
  show "x div 4 * 4 + (x mod 4 * 16 + y div 16) div 16 = x"
    "(x mod 4 * 16 + y div 16) mod 16 * 16 + (y mod 16 * 4 + z div 64) div 4 = y"
    "(y mod 16 * 4 + z div 64) mod 4 * 64 + z mod 64 = z"
    "x div 4 * 4 + x mod 4 * 16 div 16 = x"
    "(x mod 4 * 16 + y div 16) mod 16 * 16 + y mod 16 * 4 div 4 = y"
    using b by (simp_all add: div_mod_split)
qed

text \<open>The alphabets: 64 distinct symbols, none of them padding or a line break.\<close>

definition b64_alphabet :: "string \<Rightarrow> bool" where
  "b64_alphabet al \<longleftrightarrow> distinct al \<and> length al = 64
     \<and> list_all (\<lambda>c. c \<noteq> CHR ''='' \<and> c \<noteq> CHR 0x0D \<and> c \<noteq> CHR 0x0A) al"

lemma b64_alphabets: "b64_alphabet b64_std" "b64_alphabet b64_url"
  by (simp_all add: b64_alphabet_def b64_std_def b64_url_def)

lemma b64_nth_clean:
  "b64_alphabet al \<Longrightarrow> n < 64 \<Longrightarrow> al ! n \<noteq> CHR ''='' \<and> al ! n \<noteq> CHR 0x0D \<and> al ! n \<noteq> CHR 0x0A"
  by (simp add: b64_alphabet_def list_all_length)

lemma b64_val_nth:
  assumes "b64_alphabet al" and "n < 64"
  shows "b64_val al (al ! n) = Some n"
proof -
  have "al ! i = al ! n \<longleftrightarrow> i = n" if "i < 64" for i
    using assms that by (simp add: b64_alphabet_def nth_eq_iff_index_eq)
  then show ?thesis
    using assms by (auto simp: b64_val_def find_Some_iff intro!: exI [of _ n])
qed

lemma b64_quads_encode: "b64_alphabet al \<Longrightarrow> b64_quads al (b64_encode al ''='' bs) = Some bs"
proof (induction al "''=''" bs rule: b64_encode.induct)
  case (2 al a)
  then show ?case using split_octets [of "octet a" 0 0] by (simp add: b64_val_nth)
next
  case (3 al a b)
  then show ?case
    using split_octets [of "octet a" "octet b" 0] by (simp add: b64_val_nth b64_nth_clean)
next
  case (4 al a b c bs)
  then show ?case
    using split_octets [of "octet a" "octet b" "octet c"]
    by (simp add: b64_val_nth b64_nth_clean)
qed simp

lemma b64_encode_clean:
  "b64_alphabet al \<Longrightarrow>
   filter (\<lambda>c. c \<noteq> CHR 0x0D \<and> c \<noteq> CHR 0x0A) (b64_encode al ''='' bs) = b64_encode al ''='' bs"
proof (induction al "''=''" bs rule: b64_encode.induct)
  case (2 al a)
  then show ?case using split_octets [of "octet a" 0 0] by (simp add: b64_nth_clean)
next
  case (3 al a b)
  then show ?case using split_octets [of "octet a" "octet b" 0] by (simp add: b64_nth_clean)
next
  case (4 al a b c bs)
  then show ?case
    using split_octets [of "octet a" "octet b" "octet c"] by (simp add: b64_nth_clean)
qed simp

lemma b64_decode_encode: "StdEncoding_DecodeString (StdEncoding_EncodeToString bs) = Some bs"
  by (simp add: StdEncoding_DecodeString_def StdEncoding_EncodeToString_def
      b64_encode_clean b64_quads_encode b64_alphabets)

lemma StdEncoding_nonempty: "StdEncoding_EncodeToString bs = [] \<longleftrightarrow> bs = []"
  unfolding StdEncoding_EncodeToString_def
  by (cases "(b64_std, ''='', bs)" rule: b64_encode.cases) simp_all

text \<open>The raw form is the padded form without its padding, and the padding is determined by
  the length: so the raw form is injective too.\<close>

lemma b64_pad:
  "b64_encode al ''='' bs =
   b64_encode al [] bs @ replicate ((4 - length (b64_encode al [] bs) mod 4) mod 4) (CHR ''='')"
  by (induction al "[]::string" bs rule: b64_encode.induct) (simp_all add: mod_Suc numeral_2_eq_2)

lemma RawURLEncoding_inject:
  "RawURLEncoding_EncodeToString xs = RawURLEncoding_EncodeToString ys \<longleftrightarrow> xs = ys"
proof
  assume "RawURLEncoding_EncodeToString xs = RawURLEncoding_EncodeToString ys"
  then have "b64_encode b64_url ''='' xs = b64_encode b64_url ''='' ys"
    unfolding RawURLEncoding_EncodeToString_def by (metis b64_pad)
  then show "xs = ys"
    using b64_quads_encode [OF b64_alphabets(2)] by (metis option.inject)
qed simp

lemma length_b64_raw: "length (b64_encode al [] bs) = (8 * length bs + 5) div 6"
  by (induction al "[]::string" bs rule: b64_encode.induct) simp_all

lemma RawURLEncoding_nonempty: "RawURLEncoding_EncodeToString bs = [] \<longleftrightarrow> bs = []"
  unfolding RawURLEncoding_EncodeToString_def
  by (cases "(b64_url, []::string, bs)" rule: b64_encode.cases) simp_all

section \<open>Base32\<close>

definition b32_std :: string where
  "b32_std = ''ABCDEFGHIJKLMNOPQRSTUVWXYZ234567''"

definition byte_bits :: "char \<Rightarrow> bool list" where
  "byte_bits c = map (\<lambda>i. bit (octet c) i) [7, 6, 5, 4, 3, 2, 1, 0]"

fun bits_val :: "bool list \<Rightarrow> nat" where
  "bits_val [] = 0"
| "bits_val (b # bs) = of_bool b * 2 ^ length bs + bits_val bs"

fun chunk5 :: "bool list \<Rightarrow> bool list list" where
  "chunk5 [] = []"
| "chunk5 (a # b # c # d # e # bs) = [a, b, c, d, e] # chunk5 bs"
| "chunk5 bs = [take 5 (bs @ [False, False, False, False])]"

text \<open>\<^verbatim>\<open>base32.StdEncoding.WithPadding(base32.NoPadding)\<close>.\<close>

definition idEncoding_EncodeToString :: "bytes \<Rightarrow> string" where
  "idEncoding_EncodeToString bs =
     map (\<lambda>ch. b32_std ! bits_val ch) (chunk5 (concat (map byte_bits bs)))"

text \<open>\<^verbatim>\<open>strings.ToLower\<close> on the ASCII letters, the only ones an encoding produces.\<close>

definition ToLower :: "string \<Rightarrow> string" where
  "ToLower = map (\<lambda>c. if 65 \<le> octet c \<and> octet c \<le> 90 then char_of (octet c + 32) else c)"

lemma length_chunk5: "length (chunk5 bs) = (length bs + 4) div 5"
  by (induction bs rule: chunk5.induct) simp_all

lemma length_concat_byte_bits: "length (concat (map byte_bits bs)) = 8 * length bs"
  by (induction bs) (simp_all add: byte_bits_def)

lemma length_idEncoding: "length (idEncoding_EncodeToString bs) = (8 * length bs + 4) div 5"
  by (simp add: idEncoding_EncodeToString_def length_chunk5 length_concat_byte_bits)

section \<open>Big-endian words\<close>

text \<open>\<^verbatim>\<open>binary.BigEndian.PutUint64\<close>.\<close>

definition PutUint64 :: "u64 \<Rightarrow> bytes" where
  "PutUint64 v = map (\<lambda>i. char_of (unat (drop_bit (8 * i) v))) (rev [0..<8])"

lemma length_PutUint64 [simp]: "length (PutUint64 v) = 8"
  by (simp add: PutUint64_def)

lemma unat_mod_256_eq:
  "unat (a :: u64) mod 256 = unat b mod 256 \<longleftrightarrow> take_bit 8 a = take_bit 8 b"
proof -
  have "unat a mod 256 = unat b mod 256 \<longleftrightarrow> unat (take_bit 8 a) = unat (take_bit 8 b)"
    by (simp add: take_bit_eq_mod unat_mod)
  also have "\<dots> \<longleftrightarrow> take_bit 8 a = take_bit 8 b" by (rule word_unat_eq_iff [symmetric])
  finally show ?thesis .
qed

lemma PutUint64_inject: "PutUint64 v = PutUint64 w \<longleftrightarrow> v = w"
proof
  assume "PutUint64 v = PutUint64 w"
  then have byte: "take_bit 8 (drop_bit (8 * i) v) = take_bit 8 (drop_bit (8 * i) w)" if "i < 8" for i
    using that by (simp add: PutUint64_def unat_mod_256_eq)
  show "v = w"
  proof (rule bit_word_eqI)
    fix n assume "n < LENGTH(64)"
    then have n: "n div 8 < 8" by simp
    have "bit (take_bit 8 (drop_bit (8 * (n div 8)) x)) (n mod 8) = bit x n" for x :: u64
      by (simp add: bit_take_bit_iff bit_drop_bit_eq)
    with byte [OF n] show "bit v n = bit w n" by metis
  qed
qed simp

end
