(* ===== verification/Crypto.thy ===== *)
theory Crypto
  imports GoEncoding
begin

text \<open>
  The cryptographic primitives and the canonical encoding. SHA-256 and Ed25519 are
  parameters, the fields of a \<open>crypto\<close> record that every definition using them takes; what
  the protocols rely on is stated by the named predicates below and appears as a hypothesis
  of the theorems that need it. Everything the sources build around them is defined here
  and in the component theories: key sizes, the panics of \<^verbatim>\<open>crypto/ed25519\<close> on a key of the
  wrong size (\<open>None\<close>), and the length-prefixed encoding both signing packages use.
\<close>

unbundle bit_operations_syntax

section \<open>Primitives\<close>

record crypto =
  sha256 :: "bytes \<Rightarrow> bytes"
  ed_pub_of_seed :: "bytes \<Rightarrow> bytes"
  ed_sign :: "bytes \<Rightarrow> bytes \<Rightarrow> bytes"
  ed_verify :: "bytes \<Rightarrow> bytes \<Rightarrow> bytes \<Rightarrow> bool"

definition PublicKeySize :: nat where
  "PublicKeySize = 32"

definition PrivateKeySize :: nat where
  "PrivateKeySize = 64"

definition SeedSize :: nat where
  "SeedSize = 32"

text \<open>A private key is its seed followed by its public key.\<close>

definition NewKeyFromSeed :: "crypto \<Rightarrow> bytes \<Rightarrow> bytes" where
  "NewKeyFromSeed cr seed = seed @ ed_pub_of_seed cr seed"

definition PrivateKey_Public :: "bytes \<Rightarrow> bytes" where
  "PrivateKey_Public sk = drop 32 sk"

definition PrivateKey_Seed :: "bytes \<Rightarrow> bytes" where
  "PrivateKey_Seed sk = take 32 sk"

definition ed25519_Sign :: "crypto \<Rightarrow> bytes \<Rightarrow> bytes \<Rightarrow> bytes option" where
  "ed25519_Sign cr sk m = (if length sk = PrivateKeySize then Some (ed_sign cr sk m) else None)"

definition ed25519_Verify :: "crypto \<Rightarrow> bytes \<Rightarrow> bytes \<Rightarrow> bytes \<Rightarrow> bool option" where
  "ed25519_Verify cr pk m sig =
     (if length pk = PublicKeySize then Some (ed_verify cr pk m sig) else None)"

text \<open>What the documentation of the two packages promises.\<close>

definition sha256_sized :: "crypto \<Rightarrow> bool" where
  "sha256_sized cr \<longleftrightarrow> (\<forall>m. length (sha256 cr m) = 32)"

definition ed25519_correct :: "crypto \<Rightarrow> bool" where
  "ed25519_correct cr \<longleftrightarrow> (\<forall>seed m. length seed = 32 \<longrightarrow>
     length (ed_pub_of_seed cr seed) = 32 \<and>
     ed_sign cr (NewKeyFromSeed cr seed) m \<noteq> [] \<and>
     ed_verify cr (ed_pub_of_seed cr seed) m (ed_sign cr (NewKeyFromSeed cr seed) m))"

lemma key_parts:
  "length seed = 32 \<Longrightarrow> PrivateKey_Public (NewKeyFromSeed cr seed) = ed_pub_of_seed cr seed"
  "length seed = 32 \<Longrightarrow> PrivateKey_Seed (NewKeyFromSeed cr seed) = seed"
  by (simp_all add: PrivateKey_Public_def PrivateKey_Seed_def NewKeyFromSeed_def)

lemma sign_then_verify:
  assumes "ed25519_correct cr" and "length seed = 32"
  obtains sig where "ed25519_Sign cr (NewKeyFromSeed cr seed) m = Some sig" and "sig \<noteq> []"
    and "ed25519_Verify cr (ed_pub_of_seed cr seed) m sig = Some True"
  using assms
  by (auto simp: ed25519_correct_def ed25519_Sign_def ed25519_Verify_def NewKeyFromSeed_def
      PrivateKeySize_def PublicKeySize_def)

text \<open>An instance for which the predicates hold, used by the witnesses: the digest is the
  message cut or filled to 32 bytes, the public key is the seed, and a signature is the public
  key followed by the message.\<close>

definition demo_crypto :: crypto where
  "demo_crypto = \<lparr>sha256 = (\<lambda>m. take 32 (m @ replicate 32 (CHR ''.''))),
     ed_pub_of_seed = (\<lambda>seed. seed), ed_sign = (\<lambda>sk m. drop 32 sk @ m),
     ed_verify = (\<lambda>pk m sig. sig = pk @ m)\<rparr>"

lemma demo_crypto_ok: "sha256_sized demo_crypto" "ed25519_correct demo_crypto"
  by (auto simp: sha256_sized_def ed25519_correct_def demo_crypto_def NewKeyFromSeed_def)

section \<open>The canonical encoding\<close>

text \<open>A slice's length always fits a \<^verbatim>\<open>uint64\<close>.\<close>

definition fits :: "bytes \<Rightarrow> bool" where
  "fits f \<longleftrightarrow> length f < 2 ^ 64"

definition prefixed :: "bytes \<Rightarrow> bytes" where
  "prefixed f = PutUint64 (word_of_nat (length f)) @ f"

lemma prefixed_inject:
  assumes "prefixed f @ x = prefixed g @ y" and "fits f" and "fits g"
  shows "f = g \<and> x = y"
proof -
  have len: "PutUint64 (word_of_nat (length f)) = PutUint64 (word_of_nat (length g))"
    and rest: "f @ x = g @ y"
    using assms(1) by (simp_all add: prefixed_def)
  have "word_of_nat (length f) = (word_of_nat (length g) :: u64)"
    using len by (simp add: PutUint64_inject)
  then have "unat (word_of_nat (length f) :: u64) = unat (word_of_nat (length g) :: u64)" by simp
  then have "length f = length g"
    using assms(2,3) by (simp add: fits_def unat_of_nat take_bit_nat_eq_self)
  with rest show ?thesis by simp
qed

lemma prefixed_nonempty [simp]: "prefixed f \<noteq> []"
  by (simp add: prefixed_def flip: length_0_conv)

lemma concat_prefixed_inject:
  assumes "concat (map prefixed fs) = concat (map prefixed gs)"
    and "list_all fits fs" and "list_all fits gs"
  shows "fs = gs"
  using assms
proof (induction fs arbitrary: gs)
  case Nil
  then show ?case by (cases gs) simp_all
next
  case (Cons f fs)
  then obtain g gs' where gs: "gs = g # gs'" by (cases gs) simp_all
  then have "f = g \<and> concat (map prefixed fs) = concat (map prefixed gs')"
    using Cons.prems by (intro prefixed_inject) simp_all
  then show ?case using Cons gs by simp
qed

text \<open>
  The contract of a canonical encoding: domain label and fields, each length-prefixed, in
  order. Two packages implement it, and every statement they sign goes through it; that no
  two statements share an encoding follows once, here.
\<close>

locale canonical_encoding =
  fixes canon :: "bytes \<Rightarrow> bytes list \<Rightarrow> bytes"
  assumes layout: "canon d fs = prefixed d @ concat (map prefixed fs)"
begin

lemma unambiguous:
  assumes "canon d fs = canon d' fs'" and "fits d" and "fits d'"
    and "list_all fits fs" and "list_all fits fs'"
  shows "d = d' \<and> fs = fs'"
proof -
  have "d = d' \<and> concat (map prefixed fs) = concat (map prefixed fs')"
    using assms by (intro prefixed_inject) (simp_all add: layout)
  with assms show ?thesis by (auto dest: concat_prefixed_inject)
qed

lemma domain_separated:
  assumes "d \<noteq> d'" and "fits d" and "fits d'"
  shows "canon d fs \<noteq> canon d' fs'"
  using assms prefixed_inject [of d "concat (map prefixed fs)" d' "concat (map prefixed fs')"]
  by (auto simp: layout)

end

lemma foldl_append_fields:
  "foldl (\<lambda>out f. out @ PutUint64 (word_of_nat (length f)) @ f) acc fs
    = acc @ concat (map prefixed fs)"
  by (induction fs arbitrary: acc) (simp_all add: prefixed_def)

end
