(* ===== verification/GoFS.thy ===== *)
theory GoFS
  imports GoText
begin

text \<open>
  The part of the file system the host uses: a disk maps paths to contents, and an \<open>io\<close>
  record says how each step of the write sequence the sources share ends
  (\<^verbatim>\<open>os.MkdirAll\<close>, \<^verbatim>\<open>os.WriteFile\<close> to a temporary, \<^verbatim>\<open>os.Rename\<close>). A failed write may
  leave any partial temporary behind. Theorems quantify over the record.
\<close>

type_synonym disk = "bytes \<rightharpoonup> bytes"

datatype write_end = WriteOk | WriteFails "bytes option"

record io =
  io_mkdir :: bool
  io_write :: write_end
  io_rename :: bool

datatype io_error = EMarshal | EMkdir | EWrite | ERename

definition tmp_path :: "bytes \<Rightarrow> bytes" where
  "tmp_path p = p @ ''.tmp''"

definition write_rename :: "io \<Rightarrow> bytes \<Rightarrow> bytes \<Rightarrow> disk \<Rightarrow> io_error option \<times> disk" where
  "write_rename io p raw d =
    (if \<not> io_mkdir io then (Some EMkdir, d)
     else case io_write io of
       WriteFails left \<Rightarrow> (Some EWrite, d(tmp_path p := left))
     | WriteOk \<Rightarrow>
         (if \<not> io_rename io then (Some ERename, d(tmp_path p \<mapsto> raw))
          else (None, d(p \<mapsto> raw, tmp_path p := None))))"

definition io_ok :: io where
  "io_ok = \<lparr>io_mkdir = True, io_write = WriteOk, io_rename = True\<rparr>"

lemma tmp_path_neq [simp]: "tmp_path p \<noteq> p" "p \<noteq> tmp_path p"
  by (simp_all add: tmp_path_def)

lemma write_rename_fails: "write_rename io p raw d = (Some e, d') \<Longrightarrow> d' p = d p"
  by (auto simp: write_rename_def split: if_splits write_end.splits)

lemma write_rename_done: "write_rename io p raw d = (None, d') \<Longrightarrow> d' p = Some raw"
  by (auto simp: write_rename_def split: if_splits write_end.splits)

lemma write_rename_frame:
  "q \<noteq> p \<Longrightarrow> q \<noteq> tmp_path p \<Longrightarrow> write_rename io p raw d = (e, d') \<Longrightarrow> d' q = d q"
  by (auto simp: write_rename_def split: if_splits write_end.splits)

lemma write_rename_io_ok: "fst (write_rename io_ok p raw d) = None"
  by (simp add: write_rename_def io_ok_def)

text \<open>How a read ends: \<^verbatim>\<open>os.ReadFile\<close> on the disk, or a failure other than absence.\<close>

definition ReadFile :: "bool \<Rightarrow> bytes \<Rightarrow> disk \<Rightarrow> bytes option option" where
  "ReadFile fails p d = (if fails then None else Some (d p))"

end
