(* ===== verification/Identity.thy ===== *)
theory Identity
  imports Crypto GoFS
begin

text \<open>
  \<^verbatim>\<open>src/identity/identity.go\<close> and \<^verbatim>\<open>src/identity/sign.go\<close>: the host's durable Ed25519
  identity, its state file, the printable fingerprints both sides compute, and the two
  statements a device signs. The X.509 and PEM routines, the JSON codec of the state file and
  the random source are parameters: the fields of \<open>tls_lib\<close> and \<open>state_json\<close>, and the
  arguments that carry what a random read returned.
\<close>

unbundle bit_operations_syntax

section \<open>Fingerprints\<close>

definition fingerprint :: "crypto \<Rightarrow> bytes \<Rightarrow> string" where
  "fingerprint cr pub = ToLower (idEncoding_EncodeToString (take 16 (sha256 cr pub)))"

definition HostIDFor :: "crypto \<Rightarrow> bytes \<Rightarrow> string" where
  "HostIDFor cr pub = fingerprint cr pub"

definition DeviceIDFor :: "crypto \<Rightarrow> bytes \<Rightarrow> string" where
  "DeviceIDFor cr pub = fingerprint cr pub"

section \<open>The identity and its state file\<close>

record tls_cert =
  tls_chain :: "bytes list"
  tls_key :: bytes

record Identity =
  id_Key :: bytes
  id_TLSCert :: tls_cert
  id_TrustDomainID :: string

definition Identity_PublicKey :: "Identity \<Rightarrow> bytes" where
  "Identity_PublicKey idn = PrivateKey_Public (id_Key idn)"

definition HostID :: "crypto \<Rightarrow> Identity \<Rightarrow> string" where
  "HostID cr idn = HostIDFor cr (Identity_PublicKey idn)"

record certificate_template =
  ct_SerialNumber :: int
  ct_CommonName :: string
  ct_DNSNames :: "string list"
  ct_NotBefore :: gotime
  ct_NotAfter :: gotime

text \<open>\<open>tl_AddYears\<close> is \<^verbatim>\<open>time.AddDate\<close> with years only.\<close>

record tls_lib =
  tl_ParseSPKI :: "bytes \<Rightarrow> bytes option"
  tl_X509KeyPair :: "bytes \<Rightarrow> bytes \<Rightarrow> tls_cert option"
  tl_CreateCertificate :: "certificate_template \<Rightarrow> bytes \<Rightarrow> bytes option"
  tl_MarshalECPrivateKey :: "bytes \<Rightarrow> bytes option"
  tl_PEM :: "string \<Rightarrow> bytes \<Rightarrow> bytes"
  tl_AddYears :: "nat \<Rightarrow> gotime \<Rightarrow> gotime"

datatype id_error =
    NoTLSCertificate | BadCertificate | NotJSON | BadSeed | BadKeyPair | NoTrustDomain
  | ReadFailed | RandFailed | CertFailed | StateWrite io_error

definition PinSPKI :: "crypto \<Rightarrow> bytes \<Rightarrow> string" where
  "PinSPKI cr spki = RawURLEncoding_EncodeToString (sha256 cr spki)"

definition SPKIPin :: "crypto \<Rightarrow> tls_lib \<Rightarrow> Identity \<Rightarrow> id_error + string" where
  "SPKIPin cr lib idn =
    (case tls_chain (id_TLSCert idn) of
       [] \<Rightarrow> Inl NoTLSCertificate
     | leaf # _ \<Rightarrow> (case tl_ParseSPKI lib leaf of
         None \<Rightarrow> Inl BadCertificate
       | Some spki \<Rightarrow> Inr (PinSPKI cr spki)))"

record stateFile =
  sf_Version :: int
  sf_HostID :: string
  sf_HostSeed :: string
  sf_TLSCertPEM :: bytes
  sf_TLSKeyPEM :: bytes
  sf_TrustDomainID :: string
  sf_CreatedAt :: gotime

record state_json =
  sj_Marshal :: "stateFile \<Rightarrow> bytes option"
  sj_Unmarshal :: "bytes \<Rightarrow> stateFile option"

definition load :: "crypto \<Rightarrow> tls_lib \<Rightarrow> state_json \<Rightarrow> bytes \<Rightarrow> id_error + Identity" where
  "load cr lib sj raw =
    (case sj_Unmarshal sj raw of
       None \<Rightarrow> Inl NotJSON
     | Some f \<Rightarrow>
         (case StdEncoding_DecodeString (sf_HostSeed f) of
            None \<Rightarrow> Inl BadSeed
          | Some seed \<Rightarrow>
              (if length seed \<noteq> SeedSize then Inl BadSeed
               else case tl_X509KeyPair lib (sf_TLSCertPEM f) (sf_TLSKeyPEM f) of
                 None \<Rightarrow> Inl BadKeyPair
               | Some cert \<Rightarrow>
                   (if sf_TrustDomainID f = [] then Inl NoTrustDomain
                    else Inr \<lparr>id_Key = NewKeyFromSeed cr seed, id_TLSCert = cert,
                              id_TrustDomainID = sf_TrustDomainID f\<rparr>))))"

definition hex_lower :: "bytes \<Rightarrow> string" where
  "hex_lower bs = hex_EncodeToString bs"

text \<open>A v4 UUID from sixteen random bytes; \<open>None\<close> is a failed read of the random source.\<close>

definition randomUUID :: "bytes option \<Rightarrow> id_error + string" where
  "randomUUID r =
    (case r of
       None \<Rightarrow> Inl RandFailed
     | Some b0 \<Rightarrow>
         (let b1 = b0[6 := char_of (unat ((of_char (b0 ! 6) AND 0x0F) OR 0x40 :: 8 word))];
              b = b1[8 := char_of (unat ((of_char (b1 ! 8) AND 0x3F) OR 0x80 :: 8 word))]
          in Inr (hex_lower (take 4 b) @ ''-'' @ hex_lower (take 2 (drop 4 b)) @ ''-''
               @ hex_lower (take 2 (drop 6 b)) @ ''-'' @ hex_lower (take 2 (drop 8 b)) @ ''-''
               @ hex_lower (take 6 (drop 10 b)))))"

text \<open>The transport credential: \<open>ec\<close> is the generated ECDSA key, \<open>serial\<close> the random
  serial number, each \<open>None\<close> when the random source failed.\<close>

definition selfSignedTLS ::
    "tls_lib \<Rightarrow> bytes option \<Rightarrow> int option \<Rightarrow> gotime \<Rightarrow> string \<Rightarrow> id_error + bytes \<times> bytes" where
  "selfSignedTLS lib ec serial now hostID =
    (case ec of
       None \<Rightarrow> Inl RandFailed
     | Some key \<Rightarrow>
         (case serial of
            None \<Rightarrow> Inl RandFailed
          | Some n \<Rightarrow>
              (let tmpl = \<lparr>ct_SerialNumber = n, ct_CommonName = hostID, ct_DNSNames = [hostID],
                           ct_NotBefore = now - Hour, ct_NotAfter = tl_AddYears lib 10 now\<rparr>
               in case tl_CreateCertificate lib tmpl key of
                    None \<Rightarrow> Inl CertFailed
                  | Some der \<Rightarrow>
                      (case tl_MarshalECPrivateKey lib key of
                         None \<Rightarrow> Inl CertFailed
                       | Some keyDER \<Rightarrow>
                           Inr (tl_PEM lib ''CERTIFICATE'' der,
                                tl_PEM lib ''EC PRIVATE KEY'' keyDER)))))"

text \<open>What \<^verbatim>\<open>create\<close> draws from the outside: the key seed, the ECDSA key, the serial, the UUID
  bytes and two readings of the clock.\<close>

record create_env =
  ce_seed :: "bytes option"
  ce_ec :: "bytes option"
  ce_serial :: "int option"
  ce_uuid :: "bytes option"
  ce_now_cert :: gotime
  ce_now_state :: gotime

definition create ::
    "crypto \<Rightarrow> tls_lib \<Rightarrow> state_json \<Rightarrow> create_env \<Rightarrow> io \<Rightarrow> bytes \<Rightarrow> disk
     \<Rightarrow> (id_error + Identity) \<times> disk" where
  "create cr lib sj env io p d =
    (case ce_seed env of
       None \<Rightarrow> (Inl RandFailed, d)
     | Some seed \<Rightarrow>
         (let priv = NewKeyFromSeed cr seed; hostID = HostIDFor cr (PrivateKey_Public priv)
          in case selfSignedTLS lib (ce_ec env) (ce_serial env) (ce_now_cert env) hostID of
               Inl e \<Rightarrow> (Inl e, d)
             | Inr (certPEM, keyPEM) \<Rightarrow>
                 (case tl_X509KeyPair lib certPEM keyPEM of
                    None \<Rightarrow> (Inl BadKeyPair, d)
                  | Some cert \<Rightarrow>
                      (case randomUUID (ce_uuid env) of
                         Inl e \<Rightarrow> (Inl e, d)
                       | Inr domain \<Rightarrow>
                           (let f = \<lparr>sf_Version = 1, sf_HostID = hostID,
                                     sf_HostSeed = StdEncoding_EncodeToString (PrivateKey_Seed priv),
                                     sf_TLSCertPEM = certPEM, sf_TLSKeyPEM = keyPEM,
                                     sf_TrustDomainID = domain, sf_CreatedAt = ce_now_state env\<rparr>
                            in case sj_Marshal sj f of
                                 None \<Rightarrow> (Inl (StateWrite EMarshal), d)
                               | Some raw \<Rightarrow>
                                   (case write_rename io p raw d of
                                      (Some e, d') \<Rightarrow> (Inl (StateWrite e), d')
                                    | (None, d') \<Rightarrow>
                                        (Inr \<lparr>id_Key = priv, id_TLSCert = cert,
                                              id_TrustDomainID = domain\<rparr>, d')))))))"

definition LoadOrCreate ::
    "crypto \<Rightarrow> tls_lib \<Rightarrow> state_json \<Rightarrow> create_env \<Rightarrow> io \<Rightarrow> bool \<Rightarrow> bytes \<Rightarrow> disk
     \<Rightarrow> (id_error + Identity) \<times> disk" where
  "LoadOrCreate cr lib sj env io read_fails p d =
    (case ReadFile read_fails p d of
       None \<Rightarrow> (Inl ReadFailed, d)
     | Some (Some raw) \<Rightarrow> (load cr lib sj raw, d)
     | Some None \<Rightarrow> create cr lib sj env io p d)"

section \<open>Signed statements\<close>

definition pairDomain :: bytes where
  "pairDomain = ''rook-link-pair/v1''"

definition authDomain :: bytes where
  "authDomain = ''rook-link-auth/v1''"

definition link_canonical :: "bytes \<Rightarrow> bytes list \<Rightarrow> bytes" where
  "link_canonical label fs =
     foldl (\<lambda>out f. out @ PutUint64 (word_of_nat (length f)) @ f)
       (PutUint64 (word_of_nat (length label)) @ label) fs"

definition pairBytes :: "string \<Rightarrow> string \<Rightarrow> bytes \<Rightarrow> bytes" where
  "pairBytes hostID secret devPub = link_canonical pairDomain [hostID, secret, devPub]"

definition authBytes :: "string \<Rightarrow> string \<Rightarrow> bytes \<Rightarrow> bytes" where
  "authBytes hostID deviceID nonce = link_canonical authDomain [hostID, deviceID, nonce]"

definition SignPairProof :: "crypto \<Rightarrow> bytes \<Rightarrow> string \<Rightarrow> string \<Rightarrow> bytes \<Rightarrow> bytes option" where
  "SignPairProof cr devKey hostID pairingSecret devPub =
     ed25519_Sign cr devKey (pairBytes hostID pairingSecret devPub)"

text \<open>The conjunction is Go's: an empty proof is refused before the key is looked at.\<close>

definition VerifyPairProof :: "crypto \<Rightarrow> bytes \<Rightarrow> string \<Rightarrow> string \<Rightarrow> bytes \<Rightarrow> bool option" where
  "VerifyPairProof cr devPub hostID pairingSecret proof =
     (if length proof > 0
      then ed25519_Verify cr devPub (pairBytes hostID pairingSecret devPub) proof
      else Some False)"

definition SignAuth :: "crypto \<Rightarrow> bytes \<Rightarrow> string \<Rightarrow> string \<Rightarrow> bytes \<Rightarrow> bytes option" where
  "SignAuth cr devKey hostID deviceID nonce =
     ed25519_Sign cr devKey (authBytes hostID deviceID nonce)"

definition VerifyAuth :: "crypto \<Rightarrow> bytes \<Rightarrow> string \<Rightarrow> string \<Rightarrow> bytes \<Rightarrow> bytes \<Rightarrow> bool option" where
  "VerifyAuth cr devPub hostID deviceID nonce sig =
     (if length sig > 0 then ed25519_Verify cr devPub (authBytes hostID deviceID nonce) sig
      else Some False)"

section \<open>Lemmas\<close>

interpretation link_enc: canonical_encoding link_canonical
  by unfold_locales (simp add: link_canonical_def foldl_append_fields prefixed_def)

lemma fits_domains [simp]: "fits pairDomain" "fits authDomain"
  by (simp_all add: fits_def pairDomain_def authDomain_def)

lemma pairBytes_inject:
  "pairBytes h s k = pairBytes h' s' k' \<Longrightarrow> list_all fits [h, s, k, h', s', k'] \<Longrightarrow>
   h = h' \<and> s = s' \<and> k = k'"
  using link_enc.unambiguous [of pairDomain "[h, s, k]" pairDomain "[h', s', k']"]
  by (simp add: pairBytes_def)

lemma authBytes_inject:
  "authBytes h d n = authBytes h' d' n' \<Longrightarrow> list_all fits [h, d, n, h', d', n'] \<Longrightarrow>
   h = h' \<and> d = d' \<and> n = n'"
  using link_enc.unambiguous [of authDomain "[h, d, n]" authDomain "[h', d', n']"]
  by (simp add: authBytes_def)

lemma pair_auth_disjoint: "pairBytes h s k \<noteq> authBytes h' d n"
  unfolding pairBytes_def authBytes_def
  by (rule link_enc.domain_separated) (simp_all, simp add: pairDomain_def authDomain_def)

lemma fingerprint_length: "sha256_sized cr \<Longrightarrow> length (fingerprint cr pub) = 26"
  by (simp add: fingerprint_def ToLower_def length_idEncoding sha256_sized_def)

lemma randomUUID_length:
  "randomUUID (Some b) = Inr u \<Longrightarrow> length b = 16 \<Longrightarrow> length u = 36"
  by (auto simp: randomUUID_def Let_def hex_lower_def length_hex_EncodeToString)

lemma hex_nonempty: "randomUUID r = Inr u \<Longrightarrow> u \<noteq> []"
  by (auto simp: randomUUID_def Let_def split: option.splits)

lemma create_Inr:
  assumes "create cr lib sj env io p d = (Inr idn, d')"
  obtains seed certPEM keyPEM f raw where
    "ce_seed env = Some seed" "tl_X509KeyPair lib certPEM keyPEM = Some (id_TLSCert idn)"
    "randomUUID (ce_uuid env) = Inr (id_TrustDomainID idn)"
    "sj_Marshal sj f = Some raw" "write_rename io p raw d = (None, d')"
    "id_Key idn = NewKeyFromSeed cr seed"
    "sf_HostSeed f = StdEncoding_EncodeToString (PrivateKey_Seed (id_Key idn))"
    "sf_TLSCertPEM f = certPEM" "sf_TLSKeyPEM f = keyPEM"
    "sf_TrustDomainID f = id_TrustDomainID idn"
  using assms unfolding create_def
  by (clarsimp simp: Let_def split: option.splits sum.splits prod.splits)

lemma create_fails: "create cr lib sj env io p d = (Inl e, d') \<Longrightarrow> d' p = d p"
  unfolding create_def
  by (auto simp: Let_def dest: write_rename_fails split: option.splits sum.splits prod.splits)

section \<open>A concrete host for the witnesses\<close>

definition demo_seed :: bytes where
  "demo_seed = replicate 32 (CHR ''k'')"

definition demo_tls :: tls_lib where
  "demo_tls = \<lparr>tl_ParseSPKI = Some, tl_X509KeyPair = (\<lambda>c k. Some \<lparr>tls_chain = [c], tls_key = k\<rparr>),
     tl_CreateCertificate = (\<lambda>t k. Some (ct_CommonName t)), tl_MarshalECPrivateKey = Some,
     tl_PEM = (\<lambda>ty b. b), tl_AddYears = (\<lambda>n t. t + int n * 31557600 * Second)\<rparr>"

definition demo_identity :: Identity where
  "demo_identity = \<lparr>id_Key = NewKeyFromSeed demo_crypto demo_seed,
     id_TLSCert = \<lparr>tls_chain = [HostIDFor demo_crypto demo_seed], tls_key = ''ec''\<rparr>,
     id_TrustDomainID = ''61616161-6161-4161-a161-616161616161''\<rparr>"

definition demo_state :: stateFile where
  "demo_state = \<lparr>sf_Version = 1, sf_HostID = HostIDFor demo_crypto demo_seed,
     sf_HostSeed = StdEncoding_EncodeToString demo_seed,
     sf_TLSCertPEM = HostIDFor demo_crypto demo_seed, sf_TLSKeyPEM = ''ec'',
     sf_TrustDomainID = id_TrustDomainID demo_identity, sf_CreatedAt = 5\<rparr>"

definition demo_codec :: state_json where
  "demo_codec = \<lparr>sj_Marshal = (\<lambda>f. if f = demo_state then Some ''state'' else None),
     sj_Unmarshal = (\<lambda>raw. Some demo_state)\<rparr>"

definition demo_env :: create_env where
  "demo_env = \<lparr>ce_seed = Some demo_seed, ce_ec = Some ''ec'', ce_serial = Some 7,
     ce_uuid = Some (replicate 16 (CHR ''a'')), ce_now_cert = 4, ce_now_state = 5\<rparr>"

lemma demo_codec_ok: "sj_Marshal demo_codec f = Some raw \<Longrightarrow> sj_Unmarshal demo_codec raw = Some f"
  by (simp add: demo_codec_def split: if_splits)

lemma demo_created:
  "create demo_crypto demo_tls demo_codec demo_env io_ok ''id.json'' Map.empty
   = (Inr demo_identity,
      snd (create demo_crypto demo_tls demo_codec demo_env io_ok ''id.json'' Map.empty))"
  (is "?c = (_, snd ?c)")
proof -
  have uuid: "randomUUID (Some (replicate 16 (CHR ''a''))) = Inr (id_TrustDomainID demo_identity)"
    by code_simp
  have pub: "PrivateKey_Public (NewKeyFromSeed demo_crypto demo_seed) = demo_seed"
    "PrivateKey_Seed (NewKeyFromSeed demo_crypto demo_seed) = demo_seed"
    by (simp_all add: key_parts demo_seed_def) (simp add: demo_crypto_def)
  have "fst ?c = Inr demo_identity"
    by (simp add: create_def selfSignedTLS_def demo_env_def demo_tls_def demo_codec_def
        demo_state_def Let_def uuid pub)
      (simp add: demo_identity_def write_rename_def io_ok_def pub)
  then show ?thesis by (metis prod.collapse)
qed

section \<open>Properties\<close>

text \<open>C34: The two statements a device signs bind everything in them. Equal pairing statements have
  the same host, secret and device key, equal authentication statements the same host, device
  and nonce, and no pairing statement is an authentication statement; so a signature minted for
  one host, window, nonce or purpose signs nothing else.\<close>
theorem link_statements_bind:
  assumes "list_all fits [h, a, b, h', a', b']"
  shows "(pairBytes h a b = pairBytes h' a' b' \<longleftrightarrow> h = h' \<and> a = a' \<and> b = b')
    \<and> (authBytes h a b = authBytes h' a' b' \<longleftrightarrow> h = h' \<and> a = a' \<and> b = b')
    \<and> pairBytes h a b \<noteq> authBytes h' a' b'"
  using pairBytes_inject [OF _ assms] authBytes_inject [OF _ assms]
  by (auto simp: pair_auth_disjoint)

theorem link_statements_bind_witness:
  "pairBytes ''h'' ''ab'' ''c'' \<noteq> pairBytes ''h'' ''a'' ''bc''"
proof -
  have f: "list_all fits [''h'', ''ab'', ''c'', ''h'', ''a'', ''bc'']" by (simp add: fits_def)
  show ?thesis using link_statements_bind [OF f] by simp
qed

text \<open>A device that signs with its own key is always believed: the proof \<^verbatim>\<open>SignPairProof\<close>
  makes verifies under its public key for the same host and secret, and so does the challenge
  answer \<^verbatim>\<open>SignAuth\<close> makes.\<close>
theorem honest_device_verifies:
  assumes "ed25519_correct cr" and "length seed = 32"
  defines "sk \<equiv> NewKeyFromSeed cr seed" and "pk \<equiv> PrivateKey_Public (NewKeyFromSeed cr seed)"
  shows "\<exists>proof sig. SignPairProof cr sk h s pk = Some proof
    \<and> VerifyPairProof cr pk h s proof = Some True
    \<and> SignAuth cr sk h d n = Some sig \<and> VerifyAuth cr pk h d n sig = Some True"
proof -
  have pk: "pk = ed_pub_of_seed cr seed" using assms by (simp add: key_parts)
  obtain pf where pf: "ed25519_Sign cr sk (pairBytes h s pk) = Some pf" "pf \<noteq> []"
    "ed25519_Verify cr pk (pairBytes h s pk) pf = Some True"
    using sign_then_verify [OF assms(1,2)] unfolding sk_def pk by metis
  obtain sig where sig: "ed25519_Sign cr sk (authBytes h d n) = Some sig" "sig \<noteq> []"
    "ed25519_Verify cr pk (authBytes h d n) sig = Some True"
    using sign_then_verify [OF assms(1,2)] unfolding sk_def pk by metis
  show ?thesis
    using pf sig by (auto simp: SignPairProof_def VerifyPairProof_def SignAuth_def VerifyAuth_def)
qed

theorem honest_device_verifies_witness:
  "\<exists>proof. SignPairProof demo_crypto (NewKeyFromSeed demo_crypto (replicate 32 (CHR ''k'')))
     ''host'' ''secret'' (PrivateKey_Public (NewKeyFromSeed demo_crypto (replicate 32 (CHR ''k''))))
     = Some proof"
proof -
  have l: "length (replicate 32 (CHR ''k'')) = 32" by simp
  show ?thesis using honest_device_verifies [OF demo_crypto_ok(2) l, of "''host''" "''secret''"]
    by blast
qed



text \<open>An existing state file is never replaced: whatever it holds, \<^verbatim>\<open>LoadOrCreate\<close> leaves the
  disk untouched and answers with what \<^verbatim>\<open>load\<close> makes of it or a read error; and a run that
  ends in an error leaves the file at its path exactly as it was, even when the write or the
  rename failed half way.\<close>
theorem LoadOrCreate_never_replaces:
  assumes "LoadOrCreate cr lib sj env io rf p d = (r, d')"
  shows "(d p \<noteq> None \<longrightarrow> d' = d \<and> (r = Inl ReadFailed \<or> r = load cr lib sj (the (d p))))
    \<and> (isl r \<longrightarrow> d' p = d p)"
  using assms create_fails [of cr lib sj env io p d]
  by (cases r) (auto simp: LoadOrCreate_def ReadFile_def split: option.splits if_splits)

theorem LoadOrCreate_never_replaces_witness:
  "fst (LoadOrCreate demo_crypto demo_tls (demo_codec\<lparr>sj_Unmarshal := \<lambda>raw. None\<rparr>) demo_env io_ok
     False ''id.json'' [''id.json'' \<mapsto> ''junk'']) = Inl NotJSON
   \<and> snd (LoadOrCreate demo_crypto demo_tls (demo_codec\<lparr>sj_Unmarshal := \<lambda>raw. None\<rparr>) demo_env io_ok
     False ''id.json'' [''id.json'' \<mapsto> ''junk'']) = [''id.json'' \<mapsto> ''junk'']"
proof -
  have 1: "LoadOrCreate demo_crypto demo_tls (demo_codec\<lparr>sj_Unmarshal := \<lambda>raw. None\<rparr>) demo_env io_ok
     False ''id.json'' [''id.json'' \<mapsto> ''junk''] = (Inl NotJSON, [''id.json'' \<mapsto> ''junk''])"
    by (simp add: LoadOrCreate_def ReadFile_def load_def)
  show ?thesis using 1 LoadOrCreate_never_replaces [OF 1] by simp
qed

end
