(* ===== verification/Registry.thy ===== *)
theory Registry
  imports Crypto GoFS
begin

text \<open>
  \<^verbatim>\<open>src/registry/registry.go\<close>: the paired-device book, the live authority behind every
  session-surface call. The book is an association list from device id to device; its order is
  the order in which a \<^verbatim>\<open>range\<close> over the Go map happens to visit it, so the stable sort of
  \<open>persistLocked\<close> covers every order the unstable \<^verbatim>\<open>slices.SortFunc\<close> may give to devices paired
  at the same instant. Each operation holds the mutex from its first access to its last and is
  one function from book and disk to book and disk. The JSON codec is a parameter.
\<close>

section \<open>Capabilities and devices\<close>

definition CapStatusRead :: string where
  "CapStatusRead = ''status.read''"

definition CapAgentAnswer :: string where
  "CapAgentAnswer = ''agent.answer''"

definition CapAgentCommand :: string where
  "CapAgentCommand = ''agent.command''"

definition CapSessionRead :: string where
  "CapSessionRead = ''session.read''"

definition DefaultCapabilities :: "string list" where
  "DefaultCapabilities = [CapStatusRead, CapAgentAnswer, CapAgentCommand, CapSessionRead]"

definition KnownCapability :: "string \<Rightarrow> bool" where
  "KnownCapability s \<longleftrightarrow>
     s = CapStatusRead \<or> s = CapAgentAnswer \<or> s = CapAgentCommand \<or> s = CapSessionRead"

record Device =
  dv_ID :: string
  dv_Name :: string
  dv_Model :: string
  dv_PublicKey :: bytes
  dv_Capabilities :: "string list"
  dv_PairedAt :: gotime
  dv_LastSeenAt :: gotime
  dv_RevokedAt :: "gotime option"

definition Device_Key :: "Device \<Rightarrow> bytes" where
  "Device_Key d = dv_PublicKey d"

definition Revoked :: "Device \<Rightarrow> bool" where
  "Revoked d \<longleftrightarrow> dv_RevokedAt d \<noteq> None"

record Registry =
  r_path :: bytes
  r_devices :: "(string, Device) gomap"

record registryFile =
  rf_Version :: int
  rf_Devices :: "Device list"

record reg_json =
  rj_MarshalIndent :: "registryFile \<Rightarrow> bytes option"
  rj_Unmarshal :: "bytes \<Rightarrow> registryFile option"

datatype reg_error =
    ErrNotFound | ErrRevoked | Lacks string string | KeySizeWrong nat | NoCapabilities
  | RegNotJSON | RegRead | PersistFailed io_error

section \<open>Operations\<close>

definition Registry_Open :: "reg_json \<Rightarrow> bool \<Rightarrow> bytes \<Rightarrow> disk \<Rightarrow> reg_error + Registry" where
  "Registry_Open rj read_fails path d =
    (case ReadFile read_fails path d of
       None \<Rightarrow> Inl RegRead
     | Some None \<Rightarrow> Inr \<lparr>r_path = path, r_devices = []\<rparr>
     | Some (Some raw) \<Rightarrow>
         (case rj_Unmarshal rj raw of
            None \<Rightarrow> Inl RegNotJSON
          | Some f \<Rightarrow> Inr \<lparr>r_path = path,
              r_devices = fold (\<lambda>d m. AList.update (dv_ID d) d m) (rf_Devices f) []\<rparr>))"

definition persistLocked ::
    "reg_json \<Rightarrow> io \<Rightarrow> Registry \<Rightarrow> disk \<Rightarrow> reg_error option \<times> disk" where
  "persistLocked rj io r d =
    (let f = \<lparr>rf_Version = 1, rf_Devices = sort_key dv_PairedAt (map snd (r_devices r))\<rparr> in
     case rj_MarshalIndent rj f of
       None \<Rightarrow> (Some (PersistFailed EMarshal), d)
     | Some raw \<Rightarrow>
         (let (e, d') = write_rename io (r_path r) raw d in (map_option PersistFailed e, d')))"

definition keep_known :: "string list \<Rightarrow> string list" where
  "keep_known caps =
     foldl (\<lambda>kept c. if KnownCapability c \<and> c \<notin> set kept then kept @ [c] else kept) [] caps"

definition Registry_Add ::
    "reg_json \<Rightarrow> io \<Rightarrow> Device \<Rightarrow> Registry \<Rightarrow> disk \<Rightarrow> reg_error option \<times> Registry \<times> disk" where
  "Registry_Add rj io dev r d =
    (if length (dv_PublicKey dev) \<noteq> PublicKeySize
     then (Some (KeySizeWrong (length (dv_PublicKey dev))), r, d)
     else
      (let caps = keep_known (dv_Capabilities dev) in
       if length caps = 0 then (Some NoCapabilities, r, d)
       else
        (let dev' = dev\<lparr>dv_Capabilities := caps\<rparr>;
             r' = r\<lparr>r_devices := AList.update (dv_ID dev') dev' (r_devices r)\<rparr>;
             (e, d') = persistLocked rj io r' d
         in (e, r', d'))))"

definition Registry_Get :: "string \<Rightarrow> Registry \<Rightarrow> Device option" where
  "Registry_Get i r = map_of (r_devices r) i"

definition Registry_List :: "Registry \<Rightarrow> Device list" where
  "Registry_List r = map snd (r_devices r)"

definition Allowed :: "string \<Rightarrow> string \<Rightarrow> Registry \<Rightarrow> reg_error option" where
  "Allowed i capability r =
    (case map_of (r_devices r) i of
       None \<Rightarrow> Some ErrNotFound
     | Some d \<Rightarrow>
         (if Revoked d then Some ErrRevoked
          else if capability \<notin> set (dv_Capabilities d) then Some (Lacks i capability)
          else None))"

definition SetCapabilities ::
    "reg_json \<Rightarrow> io \<Rightarrow> string \<Rightarrow> string list \<Rightarrow> Registry \<Rightarrow> disk
     \<Rightarrow> reg_error option \<times> Registry \<times> disk" where
  "SetCapabilities rj io i caps r d =
    (case map_of (r_devices r) i of
       None \<Rightarrow> (Some ErrNotFound, r, d)
     | Some dev \<Rightarrow>
         (let r' = r\<lparr>r_devices :=
                AList.update i (dev\<lparr>dv_Capabilities := keep_known caps\<rparr>) (r_devices r)\<rparr>;
              (e, d') = persistLocked rj io r' d
          in (e, r', d')))"

definition Touch ::
    "reg_json \<Rightarrow> io \<Rightarrow> string \<Rightarrow> gotime \<Rightarrow> Registry \<Rightarrow> disk \<Rightarrow> Registry \<times> disk" where
  "Touch rj io i at r d =
    (case map_of (r_devices r) i of
       None \<Rightarrow> (r, d)
     | Some dev \<Rightarrow>
         (let r' = r\<lparr>r_devices := AList.update i (dev\<lparr>dv_LastSeenAt := at\<rparr>) (r_devices r)\<rparr>
          in (r', snd (persistLocked rj io r' d))))"

definition Revoke ::
    "reg_json \<Rightarrow> io \<Rightarrow> string \<Rightarrow> gotime \<Rightarrow> Registry \<Rightarrow> disk \<Rightarrow> reg_error option \<times> Registry \<times> disk" where
  "Revoke rj io i at r d =
    (case map_of (r_devices r) i of
       None \<Rightarrow> (Some ErrNotFound, r, d)
     | Some dev \<Rightarrow>
         (let r' = (if \<not> Revoked dev
                then r\<lparr>r_devices := AList.update i (dev\<lparr>dv_RevokedAt := Some at\<rparr>) (r_devices r)\<rparr>
                else r);
              (e, d') = persistLocked rj io r' d
          in (e, r', d')))"

text \<open>The operations of the book as data, for statements about sequences of them.\<close>

datatype reg_op =
    OpAdd io Device
  | OpSetCapabilities io string "string list"
  | OpTouch io string gotime
  | OpRevoke io string gotime

fun reg_step :: "reg_json \<Rightarrow> reg_op \<Rightarrow> Registry \<times> disk \<Rightarrow> Registry \<times> disk" where
  "reg_step rj (OpAdd io dev) (r, d) = snd (Registry_Add rj io dev r d)"
| "reg_step rj (OpSetCapabilities io i caps) (r, d) = snd (SetCapabilities rj io i caps r d)"
| "reg_step rj (OpTouch io i at) (r, d) = Touch rj io i at r d"
| "reg_step rj (OpRevoke io i at) (r, d) = snd (Revoke rj io i at r d)"

section \<open>The authority contract\<close>

text \<open>
  What the link server relies on: an authority has operations, some of which enrol a subject,
  and once it bars a subject, nothing but a new enrolment makes it allow that subject anything.
\<close>

locale authority =
  fixes step :: "'op \<Rightarrow> 's \<Rightarrow> 's"
    and ok :: "'op \<Rightarrow> bool"
    and inv :: "'s \<Rightarrow> bool"
    and enrols :: "'op \<Rightarrow> 'i \<Rightarrow> bool"
    and barred :: "'s \<Rightarrow> 'i \<Rightarrow> bool"
    and allows :: "'s \<Rightarrow> 'i \<Rightarrow> 'c \<Rightarrow> bool"
  assumes inv_step: "inv s \<Longrightarrow> ok op \<Longrightarrow> inv (step op s)"
    and barred_step: "inv s \<Longrightarrow> ok op \<Longrightarrow> barred s i \<Longrightarrow> \<not> enrols op i \<Longrightarrow> barred (step op s) i"
    and barred_denies: "barred s i \<Longrightarrow> \<not> allows s i c"
begin

lemma run_inv: "inv s \<Longrightarrow> list_all ok ops \<Longrightarrow> inv (fold step ops s)"
  by (induction ops arbitrary: s) (simp_all add: inv_step)

lemma run_barred:
  "inv s \<Longrightarrow> list_all ok ops \<Longrightarrow> list_all (\<lambda>op. \<not> enrols op i) ops \<Longrightarrow> barred s i \<Longrightarrow>
   barred (fold step ops s) i"
  by (induction ops arbitrary: s) (simp_all add: inv_step barred_step)

lemma run_denied:
  "inv s \<Longrightarrow> list_all ok ops \<Longrightarrow> list_all (\<lambda>op. \<not> enrols op i) ops \<Longrightarrow> barred s i \<Longrightarrow>
   \<not> allows (fold step ops s) i c"
  by (rule barred_denies) (rule run_barred)

end

section \<open>Lemmas on capabilities\<close>

lemma keep_known_snoc:
  "keep_known (caps @ [c]) =
     (if KnownCapability c \<and> c \<notin> set (keep_known caps) then keep_known caps @ [c] else keep_known caps)"
  by (simp add: keep_known_def)

lemma set_keep_known: "set (keep_known caps) = {c \<in> set caps. KnownCapability c}"
  by (induction caps rule: rev_induct) (auto simp: keep_known_snoc, simp add: keep_known_def)

lemma distinct_keep_known [simp]: "distinct (keep_known caps)"
  by (induction caps rule: rev_induct) (auto simp: keep_known_snoc, simp add: keep_known_def)

lemma keep_known_empty: "keep_known caps = [] \<longleftrightarrow> (\<forall>c \<in> set caps. \<not> KnownCapability c)"
  using set_keep_known [of caps] by (auto simp flip: set_empty)

lemma keep_known_default: "keep_known DefaultCapabilities = DefaultCapabilities"
  by code_simp

section \<open>The book's invariants\<close>

definition book_all :: "(string \<Rightarrow> Device \<Rightarrow> bool) \<Rightarrow> Registry \<Rightarrow> bool" where
  "book_all P r \<longleftrightarrow> (\<forall>i dev. map_of (r_devices r) i = Some dev \<longrightarrow> P i dev)"

definition book_wf :: "Registry \<Rightarrow> bool" where
  "book_wf r \<longleftrightarrow> distinct (gokeys (r_devices r)) \<and> book_all (\<lambda>i dev. dv_ID dev = i) r"

definition device_vetted :: "Device \<Rightarrow> bool" where
  "device_vetted dev \<longleftrightarrow> length (dv_PublicKey dev) = PublicKeySize
     \<and> distinct (dv_Capabilities dev) \<and> list_all KnownCapability (dv_Capabilities dev)"

definition device_utf8 :: "Device \<Rightarrow> bool" where
  "device_utf8 dev \<longleftrightarrow> valid_utf8 (dv_ID dev) \<and> valid_utf8 (dv_Name dev) \<and> valid_utf8 (dv_Model dev)
     \<and> list_all valid_utf8 (dv_Capabilities dev)"

text \<open>\<^verbatim>\<open>encoding/json\<close> reads back what it wrote when the strings are UTF-8 (others it replaces).\<close>

definition codec_reads_back :: "reg_json \<Rightarrow> bool" where
  "codec_reads_back rj \<longleftrightarrow> (\<forall>f raw. list_all device_utf8 (rf_Devices f)
     \<longrightarrow> rj_MarshalIndent rj f = Some raw \<longrightarrow> rj_Unmarshal rj raw = Some f)"

lemma known_utf8: "KnownCapability c \<Longrightarrow> valid_utf8 c"
  by (rule valid_utf8_ascii)
    (auto simp: KnownCapability_def CapStatusRead_def CapAgentAnswer_def CapAgentCommand_def
      CapSessionRead_def)

lemma list_all_keep_known [simp]: "list_all KnownCapability (keep_known caps)"
  by (simp add: list_all_iff set_keep_known)

lemma list_all_utf8_keep_known [simp]: "list_all valid_utf8 (keep_known caps)"
  by (simp add: list_all_iff set_keep_known known_utf8)

lemma book_all_update:
  "book_all P r \<Longrightarrow> P i dev \<Longrightarrow> book_all P (r\<lparr>r_devices := AList.update i dev (r_devices r)\<rparr>)"
  by (simp add: book_all_def)

lemma book_wf_update:
  "book_wf r \<Longrightarrow> dv_ID dev = i \<Longrightarrow> book_wf (r\<lparr>r_devices := AList.update i dev (r_devices r)\<rparr>)"
  by (simp add: book_wf_def book_all_update wf_intros)

lemma book_wf_ID: "book_wf r \<Longrightarrow> map_of (r_devices r) i = Some dev \<Longrightarrow> dv_ID dev = i"
  by (simp add: book_wf_def book_all_def)

lemma book_all_D: "book_all P r \<Longrightarrow> map_of (r_devices r) i = Some dev \<Longrightarrow> P i dev"
  by (simp add: book_all_def)

text \<open>Every operation leaves the book as it is or replaces one device and offers the result to
  \<open>persistLocked\<close>; the cases below are all a proof about an operation has to look at.\<close>

definition put :: "string \<Rightarrow> Device \<Rightarrow> Registry \<Rightarrow> Registry" where
  "put i dev r = r\<lparr>r_devices := AList.update i dev (r_devices r)\<rparr>"

lemma put_simps [simp]:
  "r_path (put i dev r) = r_path r"
  "map_of (r_devices (put i dev r)) = (map_of (r_devices r))(i \<mapsto> dev)"
  by (simp_all add: put_def)

lemma put_same: "map_of (r_devices r) i = Some dev \<Longrightarrow> map_of (r_devices (put i dev r)) = map_of (r_devices r)"
  by (simp add: fun_upd_idem)

fun changes :: "reg_op \<Rightarrow> Registry \<Rightarrow> string \<Rightarrow> Device \<Rightarrow> bool" where
  "changes (OpAdd io dev) r i dev' \<longleftrightarrow> i = dv_ID dev \<and> length (dv_PublicKey dev) = PublicKeySize
     \<and> keep_known (dv_Capabilities dev) \<noteq> []
     \<and> dev' = dev\<lparr>dv_Capabilities := keep_known (dv_Capabilities dev)\<rparr>"
| "changes (OpSetCapabilities io j caps) r i dev' \<longleftrightarrow> i = j
     \<and> (\<exists>dev. map_of (r_devices r) i = Some dev \<and> dev' = dev\<lparr>dv_Capabilities := keep_known caps\<rparr>)"
| "changes (OpTouch io j at) r i dev' \<longleftrightarrow> i = j
     \<and> (\<exists>dev. map_of (r_devices r) i = Some dev \<and> dev' = dev\<lparr>dv_LastSeenAt := at\<rparr>)"
| "changes (OpRevoke io j at) r i dev' \<longleftrightarrow> i = j
     \<and> (\<exists>dev. map_of (r_devices r) i = Some dev \<and> \<not> Revoked dev \<and> dev' = dev\<lparr>dv_RevokedAt := Some at\<rparr>)"

fun op_io :: "reg_op \<Rightarrow> io" where
  "op_io (OpAdd io dev) = io"
| "op_io (OpSetCapabilities io i caps) = io"
| "op_io (OpTouch io i at) = io"
| "op_io (OpRevoke io i at) = io"

lemma reg_step_book:
  "fst (reg_step rj op (r, d)) = r
   \<or> (\<exists>i dev. changes op r i dev \<and> fst (reg_step rj op (r, d)) = put i dev r)"
  by (cases op) (auto simp: Registry_Add_def SetCapabilities_def Touch_def Revoke_def Let_def put_def
      split: option.splits prod.splits)

lemma reg_step_disk:
  "snd (reg_step rj op (r, d)) = d
   \<or> snd (reg_step rj op (r, d)) = snd (persistLocked rj (op_io op) (fst (reg_step rj op (r, d))) d)"
  by (cases op) (auto simp: Registry_Add_def SetCapabilities_def Touch_def Revoke_def Let_def
      split: option.splits prod.splits)

lemma changes_book:
  assumes "changes op r i dev" and "book_wf r"
  shows "dv_ID dev = i" "book_wf (put i dev r)"
proof -
  show id: "dv_ID dev = i" using assms by (cases op) (auto dest: book_wf_ID)
  show "book_wf (put i dev r)" using assms(2) id by (simp add: put_def book_wf_update)
qed

lemma changes_vetted:
  "changes op r i dev \<Longrightarrow> book_all (\<lambda>i. device_vetted) r \<Longrightarrow> device_vetted dev"
  by (cases op) (auto simp: device_vetted_def dest: book_all_D)

lemma changes_utf8:
  "changes op r i dev \<Longrightarrow> book_all (\<lambda>i. device_utf8) r \<Longrightarrow>
   (\<And>io a. op = OpAdd io a \<Longrightarrow> device_utf8 a) \<Longrightarrow> device_utf8 dev"
  by (cases op) (auto simp: device_utf8_def dest: book_all_D)

section \<open>Persistence\<close>

lemma book_devices: "book_wf r \<Longrightarrow> dev \<in> set (Registry_List r) \<longleftrightarrow> (\<exists>i. map_of (r_devices r) i = Some dev)"
  by (force simp: book_wf_def Registry_List_def)

lemma book_utf8_list:
  "book_wf r \<Longrightarrow> book_all (\<lambda>i. device_utf8) r \<Longrightarrow>
   list_all device_utf8 (sort_key dv_PairedAt (map snd (r_devices r)))"
  by (auto simp: list_all_iff book_all_def book_wf_def)

lemma distinct_IDs: "book_wf r \<Longrightarrow> distinct (map dv_ID (Registry_List r))"
proof -
  assume wf: "book_wf r"
  then have "map dv_ID (Registry_List r) = gokeys (r_devices r)"
    by (auto simp: Registry_List_def book_wf_def book_all_def)
  then show ?thesis using wf by (simp add: book_wf_def)
qed

abbreviation load_devices :: "Device list \<Rightarrow> (string, Device) gomap \<Rightarrow> (string, Device) gomap" where
  "load_devices \<equiv> fold (\<lambda>d m. AList.update (dv_ID d) d m)"

lemma load_devices_D:
  "map_of (load_devices L m) i = Some dev \<Longrightarrow>
   dev \<in> set L \<and> dv_ID dev = i \<or> map_of m i = Some dev"
proof (induction L arbitrary: m)
  case (Cons a L)
  from Cons.IH [of "AList.update (dv_ID a) a m"] Cons.prems show ?case
    by (auto split: if_split_asm)
qed simp

lemma load_devices_other: "i \<notin> dv_ID ` set L \<Longrightarrow> map_of (load_devices L m) i = map_of m i"
  by (induction L arbitrary: m) auto

lemma load_devices_distinct:
  "distinct (map dv_ID L) \<Longrightarrow> dev \<in> set L \<Longrightarrow> map_of (load_devices L m) (dv_ID dev) = Some dev"
  by (induction L arbitrary: m) (auto simp: load_devices_other)

lemma load_devices_keys: "distinct (gokeys m) \<Longrightarrow> distinct (gokeys (load_devices L m))"
  by (induction L arbitrary: m) (simp_all add: wf_intros)

lemma Open_wf: "Registry_Open rj rf p d = Inr r \<Longrightarrow> book_wf r \<and> r_path r = p"
proof -
  assume o: "Registry_Open rj rf p d = Inr r"
  have "map_of (load_devices L []) i = Some dev \<Longrightarrow> dv_ID dev = i" for L i dev
    using load_devices_D [of L "[]" i dev] by simp
  then show ?thesis using o
    by (simp add: Registry_Open_def book_wf_def book_all_def load_devices_keys
        split: option.split_asm) (auto simp: load_devices_keys)
qed

lemma persistLocked_cases:
  assumes "persistLocked rj io r d = (e, d')"
  obtains (failed) x where "e = Some (PersistFailed x)" and "d' (r_path r) = d (r_path r)"
  | (written) raw where "e = None" and "d' (r_path r) = Some raw"
      and "rj_MarshalIndent rj \<lparr>rf_Version = 1, rf_Devices = sort_key dv_PairedAt (Registry_List r)\<rparr> = Some raw"
proof (cases "rj_MarshalIndent rj \<lparr>rf_Version = 1, rf_Devices = sort_key dv_PairedAt (Registry_List r)\<rparr>")
  case None
  then have "e = Some (PersistFailed EMarshal)" "d' = d"
    using assms by (simp_all add: persistLocked_def Let_def Registry_List_def)
  then show ?thesis by (intro failed) simp_all
next
  case (Some raw)
  obtain x d1 where w: "write_rename io (r_path r) raw d = (x, d1)" by fastforce
  then have e: "e = map_option PersistFailed x" "d' = d1"
    using assms Some by (simp_all add: persistLocked_def Let_def Registry_List_def)
  show ?thesis
  proof (cases x)
    case None
    then have "d' (r_path r) = Some raw" using w e write_rename_done by simp
    then show ?thesis using None e Some by (intro written) simp_all
  next
    case (Some y)
    then have "d' (r_path r) = d (r_path r)" using w e write_rename_fails by simp
    then show ?thesis using Some e by (intro failed) simp_all
  qed
qed

lemma reload:
  assumes "codec_reads_back rj" and "book_wf r" and "book_all (\<lambda>i. device_utf8) r"
    and "persistLocked rj io r d = (None, d')"
  shows "\<exists>r'. Registry_Open rj False (r_path r) d' = Inr r'
    \<and> map_of (r_devices r') = map_of (r_devices r)"
proof -
  let ?L = "sort_key dv_PairedAt (Registry_List r)"
  obtain raw where raw: "d' (r_path r) = Some raw"
    and m: "rj_MarshalIndent rj \<lparr>rf_Version = 1, rf_Devices = ?L\<rparr> = Some raw"
    using assms(4) by (rule persistLocked_cases) simp_all
  have "rj_Unmarshal rj raw = Some \<lparr>rf_Version = 1, rf_Devices = ?L\<rparr>"
    using assms(1) m book_utf8_list [OF assms(2,3)]
    unfolding codec_reads_back_def by (simp add: Registry_List_def)
  moreover have "map_of (load_devices ?L []) i = map_of (r_devices r) i" for i
  proof (cases "map_of (r_devices r) i")
    case None
    have "i \<notin> dv_ID ` set ?L"
      using None book_devices [OF assms(2)] book_wf_ID [OF assms(2)] by auto
    then show ?thesis using None by (simp add: load_devices_other)
  next
    case (Some dev)
    then have "dev \<in> set ?L" "dv_ID dev = i"
      using book_devices [OF assms(2)] book_wf_ID [OF assms(2)] by auto
    moreover have "distinct (map dv_ID ?L)"
      using distinct_IDs [OF assms(2)] by (simp add: distinct_map)
    ultimately show ?thesis using Some load_devices_distinct [of ?L dev "[]"] by simp
  qed
  ultimately show ?thesis using raw by (auto simp: Registry_Open_def ReadFile_def)
qed

text \<open>Barred in memory and on disk: the live book denies the device, and so does every book a
  restart could load from the file.\<close>

definition disk_bars :: "reg_json \<Rightarrow> string \<Rightarrow> bytes option \<Rightarrow> bool" where
  "disk_bars rj i file = (case file of None \<Rightarrow> True
     | Some raw \<Rightarrow> (case rj_Unmarshal rj raw of None \<Rightarrow> True
         | Some f \<Rightarrow> list_all (\<lambda>dev. dv_ID dev = i \<longrightarrow> Revoked dev) (rf_Devices f)))"

definition book_bars :: "string \<Rightarrow> Registry \<Rightarrow> bool" where
  "book_bars i r \<longleftrightarrow> (case map_of (r_devices r) i of None \<Rightarrow> True | Some dev \<Rightarrow> Revoked dev)"

fun reg_inv :: "reg_json \<Rightarrow> Registry \<times> disk \<Rightarrow> bool" where
  "reg_inv rj (r, d) \<longleftrightarrow> codec_reads_back rj \<and> book_wf r \<and> book_all (\<lambda>i. device_utf8) r"

fun reg_barred :: "reg_json \<Rightarrow> Registry \<times> disk \<Rightarrow> string \<Rightarrow> bool" where
  "reg_barred rj (r, d) i \<longleftrightarrow> book_bars i r \<and> disk_bars rj i (d (r_path r))"

text \<open>Allowed now, or after a restart from the file as it stands.\<close>

fun reg_allows :: "reg_json \<Rightarrow> Registry \<times> disk \<Rightarrow> string \<Rightarrow> string \<Rightarrow> bool" where
  "reg_allows rj (r, d) i c \<longleftrightarrow> Allowed i c r = None
     \<or> (case Registry_Open rj False (r_path r) d of Inl e \<Rightarrow> False | Inr r' \<Rightarrow> Allowed i c r' = None)"

fun op_utf8 :: "reg_op \<Rightarrow> bool" where
  "op_utf8 (OpAdd io dev) = device_utf8 dev"
| "op_utf8 op = True"

fun op_enrols :: "reg_op \<Rightarrow> string \<Rightarrow> bool" where
  "op_enrols (OpAdd io dev) i = (dv_ID dev = i)"
| "op_enrols op i = False"

lemma book_bars_Allowed: "book_bars i r \<Longrightarrow> Allowed i c r \<noteq> None"
  by (auto simp: book_bars_def Allowed_def split: option.splits)

lemma disk_bars_Open:
  "disk_bars rj i (d p) \<Longrightarrow> Registry_Open rj rf p d = Inr r \<Longrightarrow> book_bars i r"
  by (auto simp: disk_bars_def Registry_Open_def ReadFile_def book_bars_def list_all_iff
      dest!: load_devices_D split: option.splits if_splits)

lemma reg_step_inv:
  "reg_inv rj (r, d) \<Longrightarrow> op_utf8 op \<Longrightarrow> reg_inv rj (reg_step rj op (r, d))"
proof -
  assume i: "reg_inv rj (r, d)" and u: "op_utf8 op"
  from reg_step_book [of rj op r d] have "book_wf (fst (reg_step rj op (r, d)))
    \<and> book_all (\<lambda>i. device_utf8) (fst (reg_step rj op (r, d)))"
  proof (elim disjE exE conjE)
    fix j dev assume c: "changes op r j dev" and s: "fst (reg_step rj op (r, d)) = put j dev r"
    have "device_utf8 dev" using i u by (intro changes_utf8 [OF c]) auto
    then show ?thesis using i s changes_book [OF c] by (simp add: put_def book_all_update)
  qed (use i in simp)
  then show ?thesis using i by (cases "reg_step rj op (r, d)") simp
qed

lemma reg_step_path [simp]: "r_path (fst (reg_step rj op (r, d))) = r_path r"
  using reg_step_book [of rj op r d] by auto

lemma reg_step_book_bars:
  assumes "book_bars i r" and "\<not> op_enrols op i"
  shows "book_bars i (fst (reg_step rj op (r, d)))"
proof -
  have "changes op r j dev \<Longrightarrow> book_bars i (put j dev r)" for j dev
    using assms by (cases op) (auto simp: book_bars_def Revoked_def)
  then show ?thesis using reg_step_book [of rj op r d] assms by auto
qed

lemma persist_bars:
  assumes "codec_reads_back rj" and "book_wf r" and "book_all (\<lambda>i. device_utf8) r"
    and "book_bars i r" and "disk_bars rj i (d (r_path r))"
  shows "disk_bars rj i (snd (persistLocked rj io r d) (r_path r))"
proof -
  obtain e d' where p: "persistLocked rj io r d = (e, d')" by fastforce
  then show ?thesis
  proof (cases rule: persistLocked_cases)
    case (failed x)
    then show ?thesis using p assms(5) by simp
  next
    case (written raw)
    have "rj_Unmarshal rj raw = Some \<lparr>rf_Version = 1, rf_Devices = sort_key dv_PairedAt (Registry_List r)\<rparr>"
      using assms(1) written book_utf8_list [OF assms(2,3)]
      unfolding codec_reads_back_def by (simp add: Registry_List_def)
    moreover have "\<And>dev. dev \<in> set (Registry_List r) \<Longrightarrow> dv_ID dev = i \<Longrightarrow> Revoked dev"
      using assms(4) book_devices [OF assms(2)] book_wf_ID [OF assms(2)]
      by (auto simp: book_bars_def)
    ultimately show ?thesis using p written by (simp add: disk_bars_def list_all_iff)
  qed
qed

lemma reg_step_barred:
  assumes "reg_inv rj (r, d)" and "op_utf8 op" and "reg_barred rj (r, d) i" and "\<not> op_enrols op i"
  shows "reg_barred rj (reg_step rj op (r, d)) i"
proof -
  obtain r' d' where s: "reg_step rj op (r, d) = (r', d')" by fastforce
  have inv: "reg_inv rj (r', d')" using reg_step_inv [OF assms(1,2)] s by simp
  have bk: "book_bars i r'" using reg_step_book_bars [of i r op rj d] assms(3,4) s by simp
  have path: "r_path r' = r_path r" using reg_step_path [of rj op r d] s by simp
  have "d' = d \<or> d' = snd (persistLocked rj (op_io op) r' d)" using reg_step_disk [of rj op r d] s by simp
  then have "disk_bars rj i (d' (r_path r'))"
    using assms(3) inv bk path persist_bars [of rj r' i d "op_io op"] by auto
  then show ?thesis using s bk by simp
qed

interpretation reg: authority "reg_step rj" op_utf8 "reg_inv rj" op_enrols "reg_barred rj" "reg_allows rj"
proof
  fix s :: "Registry \<times> disk" and op :: reg_op and i c :: string
  show "reg_inv rj s \<Longrightarrow> op_utf8 op \<Longrightarrow> reg_inv rj (reg_step rj op s)"
    using reg_step_inv by (cases s) blast
  show "reg_inv rj s \<Longrightarrow> op_utf8 op \<Longrightarrow> reg_barred rj s i \<Longrightarrow> \<not> op_enrols op i \<Longrightarrow>
    reg_barred rj (reg_step rj op s) i"
    using reg_step_barred by (cases s) blast
  show "reg_barred rj s i \<Longrightarrow> \<not> reg_allows rj s i c"
    by (cases s) (auto dest: disk_bars_Open book_bars_Allowed split: sum.splits)
qed

text \<open>The book changes before it is persisted, so a failed write leaves a device that was refused
  to the caller and yet is live until the next restart.\<close>

lemma Add_failed_write_stays_live:
  assumes "Registry_Add rj io dev r d = (Some (PersistFailed x), r', d')"
    and "dv_RevokedAt dev = None" and "c \<in> set (dv_Capabilities dev)" and "KnownCapability c"
  shows "Allowed (dv_ID dev) c r' = None"
  using assms by (auto simp: Registry_Add_def Let_def Allowed_def Revoked_def set_keep_known
      split: if_split_asm prod.split_asm)

section \<open>A concrete book for the witnesses\<close>

definition demo_device :: Device where
  "demo_device = \<lparr>dv_ID = ''phone'', dv_Name = ''Seth'', dv_Model = [],
     dv_PublicKey = replicate 32 (CHR ''k''), dv_Capabilities = [''root'', CapStatusRead, CapStatusRead],
     dv_PairedAt = 10, dv_LastSeenAt = zero_time, dv_RevokedAt = None\<rparr>"

definition demo_stored :: Device where
  "demo_stored = demo_device\<lparr>dv_Capabilities := [CapStatusRead]\<rparr>"

definition demo_book :: Registry where
  "demo_book = \<lparr>r_path = ''dev.json'', r_devices = [(''phone'', demo_stored)]\<rparr>"

text \<open>A codec that writes one book, with the device's revocation, and reads it back.\<close>

definition demo_reg_json :: reg_json where
  "demo_reg_json = \<lparr>
     rj_MarshalIndent = (\<lambda>f. if f = \<lparr>rf_Version = 1, rf_Devices = [demo_stored]\<rparr> then Some ''live''
       else if f = \<lparr>rf_Version = 1, rf_Devices = [demo_stored\<lparr>dv_RevokedAt := Some 99\<rparr>]\<rparr> then Some ''dead''
       else None),
     rj_Unmarshal = (\<lambda>raw. if raw = ''live'' then Some \<lparr>rf_Version = 1, rf_Devices = [demo_stored]\<rparr>
       else if raw = ''dead'' then Some \<lparr>rf_Version = 1, rf_Devices = [demo_stored\<lparr>dv_RevokedAt := Some 99\<rparr>]\<rparr>
       else None)\<rparr>"

lemma demo_reg_ok:
  "codec_reads_back demo_reg_json" "book_wf demo_book" "book_all (\<lambda>i. device_utf8) demo_book"
  "book_all (\<lambda>i. device_vetted) demo_book" "device_utf8 demo_device"
proof -
  show "codec_reads_back demo_reg_json"
    by (simp add: codec_reads_back_def demo_reg_json_def)
  show "book_wf demo_book"
    by (simp add: book_wf_def book_all_def demo_book_def demo_stored_def demo_device_def)
  have "keep_known [''root'', CapStatusRead, CapStatusRead] = [CapStatusRead]" by code_simp
  then show v: "book_all (\<lambda>i. device_vetted) demo_book"
    by (simp add: book_all_def demo_book_def demo_stored_def demo_device_def device_vetted_def
        PublicKeySize_def KnownCapability_def)
  have a: "valid_utf8 ''phone''" "valid_utf8 ''Seth''" "valid_utf8 ''root''" "valid_utf8 CapStatusRead"
    by (auto intro!: valid_utf8_ascii simp: CapStatusRead_def)
  then show "device_utf8 demo_device" "book_all (\<lambda>i. device_utf8) demo_book"
    by (simp_all add: book_all_def demo_book_def demo_stored_def demo_device_def device_utf8_def
        valid_utf8.empty)
qed

section \<open>Properties\<close>

text \<open>The book stays well formed. Every operation, whatever the disk does, keeps the ids of a
  loaded book unique and each device filed under its own id; and a book whose devices all have
  a key of the right size and distinct capabilities from the vocabulary stays such a book, as does
  the empty one \<^verbatim>\<open>Open\<close> starts with. \<^verbatim>\<open>Open\<close> itself always yields the first half.\<close>
theorem book_invariant:
  "(book_wf r \<longrightarrow> book_wf (fst (reg_step rj op (r, d))))
   \<and> (book_wf r \<and> book_all (\<lambda>i. device_vetted) r
      \<longrightarrow> book_all (\<lambda>i. device_vetted) (fst (reg_step rj op (r, d))))
   \<and> (Registry_Open rj rf p d = Inr r \<longrightarrow> book_wf r)"
proof (intro conjI impI)
  assume wf: "book_wf r"
  then show "book_wf (fst (reg_step rj op (r, d)))"
    using reg_step_book [of rj op r d] changes_book(2) by auto
next
  assume v: "book_wf r \<and> book_all (\<lambda>i. device_vetted) r"
  then have "changes op r i dev \<Longrightarrow> book_all (\<lambda>i. device_vetted) (put i dev r)" for i dev
    unfolding put_def using changes_vetted by (intro book_all_update) auto
  then show "book_all (\<lambda>i. device_vetted) (fst (reg_step rj op (r, d)))"
    using reg_step_book [of rj op r d] v by auto
next
  assume "Registry_Open rj rf p d = Inr r"
  then show "book_wf r" by (simp add: Open_wf)
qed

theorem book_invariant_witness:
  "book_all (\<lambda>i. device_vetted)
     (fst (reg_step demo_reg_json (OpSetCapabilities io_ok ''phone'' [''x'', CapSessionRead]) (demo_book, Map.empty)))"
  using book_invariant [of demo_book] demo_reg_ok(2,4) by blast

text \<open>\<^verbatim>\<open>Add\<close> accepts exactly the devices with a key of the right size and at least one known
  capability, refuses the others without touching book or disk, and otherwise files the device
  under its id, replacing what was there, with the known capabilities it asked for: afterwards
  \<^verbatim>\<open>Allowed\<close> grants it exactly those, and every other device is as before. It returns nil exactly
  when the new book reached the disk.\<close>
theorem Add_grants_known_only:
  assumes "Registry_Add rj io dev r d = (e, r', d')"
  shows "(if length (dv_PublicKey dev) \<noteq> PublicKeySize
        \<or> (\<forall>c \<in> set (dv_Capabilities dev). \<not> KnownCapability c)
      then r' = r \<and> d' = d \<and> e \<noteq> None
      else (\<forall>i. i \<noteq> dv_ID dev \<longrightarrow> Registry_Get i r' = Registry_Get i r)
        \<and> (dv_RevokedAt dev = None \<longrightarrow> (\<forall>c. Allowed (dv_ID dev) c r' = None
             \<longleftrightarrow> c \<in> set (dv_Capabilities dev) \<and> KnownCapability c))
        \<and> (e, d') = persistLocked rj io r' d)"
  using assms unfolding Registry_Add_def
  by (auto simp: Let_def keep_known_empty [symmetric] Allowed_def Registry_Get_def Revoked_def
      set_keep_known split: prod.split_asm if_split_asm)

theorem Add_grants_known_only_witness:
  "Allowed ''phone'' ''root'' (fst (snd (Registry_Add demo_reg_json io_ok demo_device
     \<lparr>r_path = ''dev.json'', r_devices = []\<rparr> Map.empty))) \<noteq> None
   \<and> Allowed ''phone'' CapStatusRead (fst (snd (Registry_Add demo_reg_json io_ok demo_device
     \<lparr>r_path = ''dev.json'', r_devices = []\<rparr> Map.empty))) = None"
proof -
  obtain e r' d' where a: "Registry_Add demo_reg_json io_ok demo_device
     \<lparr>r_path = ''dev.json'', r_devices = []\<rparr> Map.empty = (e, r', d')" by (rule prod_cases3)
  have k: "KnownCapability CapStatusRead" "\<not> KnownCapability ''root''" by code_simp+
  show ?thesis using Add_grants_known_only [OF a] k a
    by (simp add: demo_device_def PublicKeySize_def)
qed

text \<open>Revocation outlives everything but a new pairing. After a \<^verbatim>\<open>Revoke\<close> that returned nil, and
  any sequence of further operations none of which adds that device, with any mix of failing and
  succeeding writes, the live book allows the device nothing, and neither does the book a
  restarted host loads from the file.\<close>
theorem revocation_sticks:
  assumes "codec_reads_back rj" and "book_wf r" and "book_all (\<lambda>i. device_utf8) r"
    and "Revoke rj io i at r d = (None, r1, d1)"
    and "list_all op_utf8 ops" and "list_all (\<lambda>op. \<not> op_enrols op i) ops"
  shows "\<not> reg_allows rj (fold (reg_step rj) ops (r1, d1)) i c"
proof -
  have step: "reg_step rj (OpRevoke io i at) (r, d) = (r1, d1)" using assms(4) by simp
  have inv: "reg_inv rj (r1, d1)"
    using reg_step_inv [of rj r d "OpRevoke io i at"] assms(1-3) step by simp
  obtain dev where dev: "map_of (r_devices r) i = Some dev"
    using assms(4) by (auto simp: Revoke_def split: option.splits)
  have live: "book_bars i r1"
    using assms(4) dev by (auto simp: Revoke_def Let_def book_bars_def Revoked_def split: prod.splits if_splits)
  have p: "persistLocked rj io r1 d = (None, d1)"
    using assms(4) dev by (auto simp: Revoke_def Let_def split: prod.splits)
  have "disk_bars rj i (d1 (r_path r1))"
    using p
  proof (cases rule: persistLocked_cases)
    case (written raw)
    define d0 where "d0 = d(r_path r1 := None)"
    have "disk_bars rj i (d0 (r_path r1))" by (simp add: d0_def disk_bars_def)
    then have "disk_bars rj i (snd (persistLocked rj io_ok r1 d0) (r_path r1))"
      using inv live by (intro persist_bars) simp_all
    moreover have "snd (persistLocked rj io_ok r1 d0) (r_path r1) = Some raw"
      using written(3) by (simp add: persistLocked_def Let_def Registry_List_def write_rename_def io_ok_def)
    ultimately show ?thesis using written by simp
  qed simp
  then show ?thesis using reg.run_denied [OF inv assms(5,6)] live by simp
qed

lemma demo_revoked:
  "Revoke demo_reg_json io_ok ''phone'' 99 demo_book [''dev.json'' \<mapsto> ''live'']
   = (None, demo_book\<lparr>r_devices := [(''phone'', demo_stored\<lparr>dv_RevokedAt := Some 99\<rparr>)]\<rparr>,
      [''dev.json'' \<mapsto> ''dead''])"
  by (auto simp: Revoke_def demo_book_def demo_stored_def demo_device_def Revoked_def persistLocked_def
      demo_reg_json_def write_rename_def io_ok_def tmp_path_def)

theorem revocation_sticks_witness:
  "\<not> reg_allows demo_reg_json (fold (reg_step demo_reg_json)
      [OpTouch io_ok ''phone'' 120, OpSetCapabilities io_ok ''phone'' DefaultCapabilities]
      (demo_book\<lparr>r_devices := [(''phone'', demo_stored\<lparr>dv_RevokedAt := Some 99\<rparr>)]\<rparr>,
       [''dev.json'' \<mapsto> ''dead''])) ''phone'' CapStatusRead"
proof -
  have o: "list_all op_utf8 [OpTouch io_ok ''phone'' 120, OpSetCapabilities io_ok ''phone'' DefaultCapabilities]"
    "list_all (\<lambda>op. \<not> op_enrols op ''phone'')
      [OpTouch io_ok ''phone'' 120, OpSetCapabilities io_ok ''phone'' DefaultCapabilities]" by simp_all
  show ?thesis by (rule revocation_sticks [OF demo_reg_ok(1-3) demo_revoked o])
qed

text \<open>What an operation reports is what the disk holds. When persisting returns nil, a restart
  loads a book that answers every lookup as the live one does; when it fails, at whatever step,
  the file at the registry's path is the one from before.\<close>
theorem persist_is_atomic:
  assumes "codec_reads_back rj" and "book_wf r" and "book_all (\<lambda>i. device_utf8) r"
    and "persistLocked rj io r d = (e, d')"
  shows "if e = None
    then \<exists>r'. Registry_Open rj False (r_path r) d' = Inr r' \<and> (\<forall>i. Registry_Get i r' = Registry_Get i r)
    else d' (r_path r) = d (r_path r)"
proof (cases e)
  case None
  then have "persistLocked rj io r d = (None, d')" using assms(4) by simp
  from reload [OF assms(1-3) this] None show ?thesis by (auto simp: Registry_Get_def)
next
  case (Some x)
  with assms(4) show ?thesis by (auto elim: persistLocked_cases)
qed

theorem persist_is_atomic_witness:
  "\<exists>r'. Registry_Open demo_reg_json False ''dev.json'' [''dev.json'' \<mapsto> ''live''] = Inr r'
     \<and> (\<forall>i. Registry_Get i r' = Registry_Get i demo_book)"
proof -
  have p: "persistLocked demo_reg_json io_ok demo_book Map.empty = (None, [''dev.json'' \<mapsto> ''live''])"
    by (auto simp: persistLocked_def demo_reg_json_def demo_book_def write_rename_def io_ok_def tmp_path_def)
  show ?thesis using persist_is_atomic [OF demo_reg_ok(1-3) p] by (simp add: demo_book_def)
qed

end
