(* ===== verification/Pairing.thy ===== *)
theory Pairing
  imports GoEncoding
begin

text \<open>
  \<^verbatim>\<open>src/pairing/pairing.go\<close>, the enrollment window: at most one one-time secret, minted when a
  human opens the window, burned by the first matching redemption. Reading 16 random bytes is
  the argument \<open>rnd\<close> (\<open>None\<close> is the error of \<^verbatim>\<open>rand.Read\<close>); each method holds the mutex while it
  touches the state, so each is one step.
\<close>

section \<open>The window\<close>

definition TTL :: gotime where
  "TTL = 2 * Minute"

definition secretLen :: nat where
  "secretLen = 16"

record Manager =
  pm_secret :: string
  pm_expires :: gotime

definition Manager_zero :: Manager where
  "Manager_zero = \<lparr>pm_secret = [], pm_expires = zero_time\<rparr>"

definition Manager_Open :: "bytes option \<Rightarrow> gotime \<Rightarrow> Manager \<Rightarrow> string option \<times> Manager" where
  "Manager_Open rnd now m =
    (case rnd of
       None \<Rightarrow> (None, m)
     | Some b \<Rightarrow>
         (let s = RawURLEncoding_EncodeToString b
          in (Some s, m\<lparr>pm_secret := s, pm_expires := now + TTL\<rparr>)))"

definition Manager_Close :: "Manager \<Rightarrow> Manager" where
  "Manager_Close m = m\<lparr>pm_secret := []\<rparr>"

definition OpenNow :: "gotime \<Rightarrow> Manager \<Rightarrow> bool" where
  "OpenNow now m \<longleftrightarrow> pm_secret m \<noteq> [] \<and> now < pm_expires m"

text \<open>\<^verbatim>\<open>subtle.ConstantTimeCompare\<close>: 1 when the slices have equal length and contents.\<close>

definition ConstantTimeCompare :: "bytes \<Rightarrow> bytes \<Rightarrow> int" where
  "ConstantTimeCompare x y =
     (if length x \<noteq> length y then 0 else if list_all2 (=) x y then 1 else 0)"

definition Redeem :: "string \<Rightarrow> gotime \<Rightarrow> Manager \<Rightarrow> bool \<times> Manager" where
  "Redeem secret now m =
    (if pm_secret m = [] \<or> \<not> now < pm_expires m then (False, m)
     else
      (let ok = (ConstantTimeCompare (pm_secret m) secret = 1)
       in (ok, if ok then m\<lparr>pm_secret := []\<rparr> else m)))"

datatype window_op =
    WOpen "bytes option" gotime
  | WClose
  | WRedeem string gotime

text \<open>One step, with the secret it redeemed, if any.\<close>

fun window_step :: "window_op \<Rightarrow> Manager \<Rightarrow> string option \<times> Manager" where
  "window_step (WOpen rnd now) m = (None, snd (Manager_Open rnd now m))"
| "window_step WClose m = (None, Manager_Close m)"
| "window_step (WRedeem s now) m =
     (let (ok, m') = Redeem s now m in (if ok then Some s else None, m'))"

section \<open>Single-use credentials\<close>

text \<open>
  The contract the pairing secret and the challenge nonce share: a step redeems only a live
  credential, a redeemed one is dead, and nothing but minting makes one live. It follows that a
  credential is redeemed at most as often as it was minted.
\<close>

locale single_use =
  fixes step :: "'op \<Rightarrow> 's \<Rightarrow> 'k option \<times> 's"
    and live :: "'s \<Rightarrow> 'k \<Rightarrow> bool"
    and mints :: "'op \<Rightarrow> 'k \<Rightarrow> bool"
  assumes redeemed_live: "step op s = (Some k, s') \<Longrightarrow> live s k"
    and redeemed_dead: "step op s = (Some k, s') \<Longrightarrow> \<not> live s' k"
    and only_mint: "step op s = (r, s') \<Longrightarrow> live s' k \<Longrightarrow> live s k \<or> mints op k"
    and mint_no_redeem: "mints op k \<Longrightarrow> fst (step op s) = None"
begin

lemma redeemed_at_most_minted:
  "length (filter (\<lambda>r. r = Some k) (outcomes step ops s))
   \<le> length (filter (\<lambda>op. mints op k) ops) + (if live s k then 1 else 0)"
proof (induction ops arbitrary: s)
  case (Cons op ops)
  obtain r s' where st: "step op s = (r, s')" by fastforce
  have "r = Some k \<Longrightarrow> live s k \<and> \<not> live s' k \<and> \<not> mints op k"
    using st redeemed_live redeemed_dead mint_no_redeem [of op k s] by auto
  then show ?case using Cons.IH [of s'] only_mint [OF st, of k] st by (auto split: if_split_asm)
qed simp

lemma at_most_once:
  "list_all (\<lambda>op. \<not> mints op k) ops \<Longrightarrow> length (filter (\<lambda>r. r = Some k) (outcomes step ops s)) \<le> 1"
  using redeemed_at_most_minted [of k ops s]
  by (auto simp: list_all_iff filter_empty_conv split: if_split_asm)

lemma dead_never_redeemed:
  "\<not> live s k \<Longrightarrow> list_all (\<lambda>op. \<not> mints op k) ops \<Longrightarrow> Some k \<notin> set (outcomes step ops s)"
  using redeemed_at_most_minted [of k ops s]
  by (auto simp: list_all_iff filter_empty_conv)

end

section \<open>Lemmas\<close>

lemma ConstantTimeCompare_iff [simp]: "ConstantTimeCompare x y = 1 \<longleftrightarrow> x = y"
  by (auto simp: ConstantTimeCompare_def list.rel_eq)

lemma Redeem_iff:
  "Redeem s now m = (ok, m') \<Longrightarrow> ok \<longleftrightarrow> OpenNow now m \<and> s = pm_secret m"
  by (auto simp: Redeem_def OpenNow_def Let_def split: if_split_asm)

definition window_live :: "Manager \<Rightarrow> string \<Rightarrow> bool" where
  "window_live m s \<longleftrightarrow> s \<noteq> [] \<and> pm_secret m = s"

fun window_mints :: "window_op \<Rightarrow> string \<Rightarrow> bool" where
  "window_mints (WOpen (Some b) now) s = (RawURLEncoding_EncodeToString b = s)"
| "window_mints _ s = False"

interpretation window: single_use window_step window_live window_mints
proof
  fix op m and k :: string and m' r
  show "window_step op m = (Some k, m') \<Longrightarrow> window_live m k"
    by (cases op) (auto simp: Redeem_def Let_def window_live_def split: if_split_asm)
  show "window_step op m = (Some k, m') \<Longrightarrow> \<not> window_live m' k"
    by (cases op) (auto simp: Redeem_def Let_def window_live_def split: if_split_asm)
  show "window_step op m = (r, m') \<Longrightarrow> window_live m' k \<Longrightarrow> window_live m k \<or> window_mints op k"
    by (cases "(op, k)" rule: window_mints.cases)
      (auto simp: Redeem_def Manager_Open_def Manager_Close_def Let_def window_live_def
        split: if_split_asm)
  show "window_mints op k \<Longrightarrow> fst (window_step op m) = None"
    by (cases "(op, k)" rule: window_mints.cases) auto
qed

section \<open>Properties\<close>

text \<open>A pairing secret opens the door once. Over any sequence of openings, dismissals and
  redemption attempts, a secret is redeemed at most as often as a window was opened with it, plus
  once if it was the live one at the start; in particular a secret that is not minted again
  is redeemed at most once, however often it is presented.\<close>
theorem secret_redeemed_once:
  "length (filter (\<lambda>r. r = Some s) (outcomes window_step ops m))
     \<le> length (filter (\<lambda>op. window_mints op s) ops) + (if window_live m s then 1 else 0)
   \<and> (list_all (\<lambda>op. \<not> window_mints op s) ops
      \<longrightarrow> length (filter (\<lambda>r. r = Some s) (outcomes window_step ops m)) \<le> 1)"
  using window.redeemed_at_most_minted window.at_most_once by blast

theorem secret_redeemed_once_witness:
  "outcomes window_step [WRedeem ''wrong'' 5, WRedeem ''s'' 6, WRedeem ''s'' 7]
     \<lparr>pm_secret = ''s'', pm_expires = 100\<rparr> = [None, Some ''s'', None]
   \<and> length (filter (\<lambda>r. r = Some ''s'') (outcomes window_step
        [WRedeem ''wrong'' 5, WRedeem ''s'' 6, WRedeem ''s'' 7] \<lparr>pm_secret = ''s'', pm_expires = 100\<rparr>)) \<le> 1"
  using secret_redeemed_once [of "''s''" "[WRedeem ''wrong'' 5, WRedeem ''s'' 6, WRedeem ''s'' 7]"
      "\<lparr>pm_secret = ''s'', pm_expires = 100\<rparr>"]
  by (simp add: Redeem_def Let_def)

text \<open>The window admits exactly its own secret while it is open. \<^verbatim>\<open>Redeem\<close> succeeds exactly when
  the window is open and the presented secret is the one on display, success closes the window,
  and failure changes nothing; a window opened with 16 random bytes is open for two minutes and
  for that secret only, whatever window was open before; after \<^verbatim>\<open>Close\<close> nothing is redeemed.\<close>
theorem window_admits_its_secret:
  assumes "length b = secretLen"
  shows "(let (ok, m') = Redeem s now m in
       (ok \<longleftrightarrow> OpenNow now m \<and> s = pm_secret m) \<and> (ok \<longrightarrow> (\<forall>t. \<not> OpenNow t m'))
       \<and> (\<not> ok \<longrightarrow> m' = m))
    \<and> (let (r, m') = Manager_Open (Some b) now m in
        (\<forall>t. OpenNow t m' \<longleftrightarrow> t < now + TTL)
        \<and> (\<forall>s t. fst (Redeem s t m') \<longleftrightarrow> t < now + TTL \<and> r = Some s))
    \<and> \<not> fst (Redeem s now (Manager_Close m))"
proof -
  have "RawURLEncoding_EncodeToString b \<noteq> []"
    using assms by (auto simp: RawURLEncoding_nonempty secretLen_def)
  then show ?thesis
    by (auto simp: Redeem_def OpenNow_def Manager_Open_def Manager_Close_def Let_def)
qed

theorem window_admits_its_secret_witness:
  "fst (Redeem (RawURLEncoding_EncodeToString (replicate 16 (CHR ''a''))) 5
     (snd (Manager_Open (Some (replicate 16 (CHR ''a''))) 0 Manager_zero)))"
proof -
  have l: "length (replicate 16 (CHR ''a'')) = secretLen" by (simp add: secretLen_def)
  show ?thesis using window_admits_its_secret [OF l, of _ 0 Manager_zero]
    by (simp add: Manager_Open_def Let_def TTL_def time_units)
qed

end
