(* ===== verification/Tokens.thy ===== *)
theory Tokens
  imports Pairing
begin

text \<open>
  \<^verbatim>\<open>src/link/tokens.go\<close>: session tokens and challenge nonces, both held in memory. A token is
  a handle to a device id for a day; a nonce is live for a minute, bound to one device and gone
  at its first use. Reading 32 random bytes is the argument \<open>rnd\<close>.
\<close>

section \<open>Session tokens\<close>

record session =
  ss_deviceID :: string
  ss_expires :: gotime

record tokens =
  tk_sessions :: "(string, session) gomap"

record nonce =
  nn_deviceID :: string
  nn_expires :: gotime

record nonces =
  ns_issued :: "(string, nonce) gomap"

definition tokenTTL :: gotime where
  "tokenTTL = 24 * Hour"

definition nonceTTL :: gotime where
  "nonceTTL = 60 * Second"

definition newTokens :: tokens where
  "newTokens = \<lparr>tk_sessions = []\<rparr>"

definition newNonces :: nonces where
  "newNonces = \<lparr>ns_issued = []\<rparr>"

definition tokens_mint ::
    "string \<Rightarrow> gotime \<Rightarrow> bytes option \<Rightarrow> tokens \<Rightarrow> (string \<times> gotime) option \<times> tokens" where
  "tokens_mint deviceID now rnd t =
    (case rnd of
       None \<Rightarrow> (None, t)
     | Some raw \<Rightarrow>
         (let tok = RawURLEncoding_EncodeToString raw; exp = now + tokenTTL
          in (Some (tok, exp),
              t\<lparr>tk_sessions := AList.update tok \<lparr>ss_deviceID = deviceID, ss_expires = exp\<rparr> (tk_sessions t)\<rparr>)))"

definition resolve :: "string \<Rightarrow> gotime \<Rightarrow> tokens \<Rightarrow> string \<times> tokens" where
  "resolve tok now t =
    (case map_of (tk_sessions t) tok of
       None \<Rightarrow> ([], t)
     | Some s \<Rightarrow>
         (if \<not> now < ss_expires s then ([], t\<lparr>tk_sessions := AList.delete tok (tk_sessions t)\<rparr>)
          else (ss_deviceID s, t)))"

definition dropDevice :: "string \<Rightarrow> tokens \<Rightarrow> tokens" where
  "dropDevice deviceID t =
     t\<lparr>tk_sessions := filter (\<lambda>(tok, s). ss_deviceID s \<noteq> deviceID) (tk_sessions t)\<rparr>"

section \<open>Challenge nonces\<close>

definition nonces_mint ::
    "string \<Rightarrow> gotime \<Rightarrow> bytes option \<Rightarrow> nonces \<Rightarrow> (bytes \<times> gotime) option \<times> nonces" where
  "nonces_mint deviceID now rnd n =
    (case rnd of
       None \<Rightarrow> (None, n)
     | Some raw \<Rightarrow>
         (let exp = now + nonceTTL;
              swept = filter (\<lambda>(k, v). now < nn_expires v) (ns_issued n)
          in (Some (raw, exp),
              n\<lparr>ns_issued := AList.update (RawURLEncoding_EncodeToString raw)
                  \<lparr>nn_deviceID = deviceID, nn_expires = exp\<rparr> swept\<rparr>)))"

definition consume :: "bytes \<Rightarrow> string \<Rightarrow> gotime \<Rightarrow> nonces \<Rightarrow> bool \<times> nonces" where
  "consume raw deviceID now n =
    (let key = RawURLEncoding_EncodeToString raw in
     case map_of (ns_issued n) key of
       None \<Rightarrow> (False, n)
     | Some v \<Rightarrow>
         (now < nn_expires v \<and> nn_deviceID v = deviceID,
          n\<lparr>ns_issued := AList.delete key (ns_issued n)\<rparr>))"

datatype nonce_op =
    NMint string gotime "bytes option"
  | NConsume bytes string gotime

fun nonce_step :: "nonce_op \<Rightarrow> nonces \<Rightarrow> bytes option \<times> nonces" where
  "nonce_step (NMint dev now rnd) n = (None, snd (nonces_mint dev now rnd n))"
| "nonce_step (NConsume raw dev now) n =
     (let (ok, n') = consume raw dev now n in (if ok then Some raw else None, n'))"

section \<open>Lemmas\<close>

definition tokens_wf :: "tokens \<Rightarrow> bool" where
  "tokens_wf t \<longleftrightarrow> distinct (gokeys (tk_sessions t))"

definition nonces_wf :: "nonces \<Rightarrow> bool" where
  "nonces_wf n \<longleftrightarrow> distinct (gokeys (ns_issued n))"

lemma tokens_wf_steps [wf_intros]:
  "tokens_wf newTokens"
  "tokens_wf t \<Longrightarrow> tokens_wf (snd (tokens_mint dev now rnd t))"
  "tokens_wf t \<Longrightarrow> tokens_wf (snd (resolve tok now t))"
  "tokens_wf t \<Longrightarrow> tokens_wf (dropDevice dev t)"
  by (auto simp: tokens_wf_def newTokens_def tokens_mint_def resolve_def dropDevice_def Let_def
      wf_intros split: option.splits)

lemma nonces_wf_steps [wf_intros]:
  "nonces_wf newNonces"
  "nonces_wf n \<Longrightarrow> nonces_wf (snd (nonces_mint dev now rnd n))"
  "nonces_wf n \<Longrightarrow> nonces_wf (snd (consume raw dev now n))"
  by (auto simp: nonces_wf_def newNonces_def nonces_mint_def consume_def Let_def wf_intros
      split: option.splits)

lemma map_of_dropDevice:
  "tokens_wf t \<Longrightarrow> map_of (tk_sessions (dropDevice dev t)) tok =
     (case map_of (tk_sessions t) tok of None \<Rightarrow> None
      | Some s \<Rightarrow> if ss_deviceID s = dev then None else Some s)"
  by (auto simp: dropDevice_def tokens_wf_def map_of_filter_distinct split: option.splits)

text \<open>The sessions of one device, as the set of its tokens.\<close>

definition holds_token :: "tokens \<Rightarrow> string \<Rightarrow> string \<Rightarrow> bool" where
  "holds_token t dev tok \<longleftrightarrow>
     (case map_of (tk_sessions t) tok of None \<Rightarrow> False | Some s \<Rightarrow> ss_deviceID s = dev)"

lemma resolve_holds: "fst (resolve tok now t) = dev \<Longrightarrow> dev \<noteq> [] \<Longrightarrow> holds_token t dev tok"
  by (auto simp: resolve_def holds_token_def split: option.splits if_splits)

lemma holds_token_steps:
  "holds_token (snd (resolve tok' now t)) dev tok \<Longrightarrow> holds_token t dev tok"
  "holds_token (snd (tokens_mint dev' now rnd t)) dev tok \<Longrightarrow> dev' \<noteq> dev \<Longrightarrow> holds_token t dev tok"
  by (auto simp: holds_token_def resolve_def tokens_mint_def Let_def split: option.splits if_splits)

lemma holds_token_drop:
  "tokens_wf t \<Longrightarrow> holds_token (dropDevice dev t) dev' tok \<longleftrightarrow> dev' \<noteq> dev \<and> holds_token t dev' tok"
  by (auto simp: holds_token_def map_of_dropDevice split: option.splits)

definition nonce_live :: "nonces \<Rightarrow> bytes \<Rightarrow> bool" where
  "nonce_live n raw \<longleftrightarrow> map_of (ns_issued n) (RawURLEncoding_EncodeToString raw) \<noteq> None"

fun nonce_mints :: "nonce_op \<Rightarrow> bytes \<Rightarrow> bool" where
  "nonce_mints (NMint dev now rnd) raw = (rnd = Some raw)"
| "nonce_mints (NConsume raw' dev now) raw = False"

lemma map_of_filter_Some: "map_of (filter P m) k = Some v \<Longrightarrow> map_of m k \<noteq> None"
proof -
  assume "map_of (filter P m) k = Some v"
  then have "(k, v) \<in> set m" by (auto dest: map_of_SomeD)
  then show ?thesis using weak_map_of_SomeI by fastforce
qed

interpretation nonce: single_use nonce_step nonce_live nonce_mints
proof
  fix op n and k :: bytes and n' r
  show "nonce_step op n = (Some k, n') \<Longrightarrow> nonce_live n k"
    by (cases op) (auto simp: consume_def Let_def nonce_live_def split: option.split_asm if_split_asm)
  show "nonce_step op n = (Some k, n') \<Longrightarrow> \<not> nonce_live n' k"
    by (cases op) (auto simp: consume_def Let_def nonce_live_def split: option.split_asm if_split_asm)
  show "nonce_step op n = (r, n') \<Longrightarrow> nonce_live n' k \<Longrightarrow> nonce_live n k \<or> nonce_mints op k"
    by (cases op) (auto simp: consume_def nonces_mint_def Let_def nonce_live_def RawURLEncoding_inject
        split: option.split_asm if_split_asm dest: map_of_filter_Some)
  show "nonce_mints op k \<Longrightarrow> fst (nonce_step op n) = None"
    by (cases op) auto
qed

section \<open>Properties\<close>

text \<open>A token means one device, for one day, until dropped. Right after \<^verbatim>\<open>mint\<close> the new token
  resolves to its device at every instant before its expiry and to nobody from then on, and every
  other token as before; after \<^verbatim>\<open>dropDevice\<close> no token resolves to that device at any time, and the
  tokens of other devices resolve as before; a lookup of a live token changes nothing, of an
  expired one removes just that token.\<close>
theorem token_lifecycle:
  assumes "tokens_wf t" and "dev \<noteq> []"
  shows "(\<forall>raw now. let (r, t') = tokens_mint dev now (Some raw) t; tok = RawURLEncoding_EncodeToString raw in
        r = Some (tok, now + tokenTTL)
        \<and> (\<forall>u. fst (resolve tok u t') = (if u < now + tokenTTL then dev else []))
        \<and> (\<forall>x u. x \<noteq> tok \<longrightarrow> fst (resolve x u t') = fst (resolve x u t)))
    \<and> (\<forall>x u. fst (resolve x u (dropDevice dev t)) =
        (if fst (resolve x u t) = dev then [] else fst (resolve x u t)))
    \<and> (\<forall>x u. map_of (tk_sessions (snd (resolve x u t))) =
        (if fst (resolve x u t) = [] \<and> (\<exists>s. map_of (tk_sessions t) x = Some s \<and> ss_expires s \<le> u)
         then (map_of (tk_sessions t))(x := None) else map_of (tk_sessions t)))"
proof (intro conjI allI)
  fix x u
  show "fst (resolve x u (dropDevice dev t)) =
    (if fst (resolve x u t) = dev then [] else fst (resolve x u t))"
    using assms by (auto simp: resolve_def map_of_dropDevice split: option.splits)
  show "map_of (tk_sessions (snd (resolve x u t))) =
    (if fst (resolve x u t) = [] \<and> (\<exists>s. map_of (tk_sessions t) x = Some s \<and> ss_expires s \<le> u)
     then (map_of (tk_sessions t))(x := None) else map_of (tk_sessions t))"
    by (auto simp: resolve_def split: option.splits)
qed (auto simp: tokens_mint_def resolve_def Let_def split: option.splits)

theorem token_lifecycle_witness:
  "fst (resolve ''tok'' 5 (dropDevice ''phone''
     \<lparr>tk_sessions = [(''tok'', \<lparr>ss_deviceID = ''phone'', ss_expires = 9\<rparr>)]\<rparr>)) = []"
proof -
  have t: "tokens_wf \<lparr>tk_sessions = [(''tok'', \<lparr>ss_deviceID = ''phone'', ss_expires = 9\<rparr>)]\<rparr>"
    "''phone'' \<noteq> []" by (simp_all add: tokens_wf_def)
  show ?thesis using token_lifecycle [OF t] by (simp add: resolve_def)
qed

text \<open>A challenge is answered once, in time, by the device it was made for. Over any sequence of
  challenges and answers a nonce is accepted at most as often as it was minted (plus once if it
  was outstanding at the start), whoever answers and however often; an answer is accepted only
  if it comes before the expiry and from the device of the challenge; and whatever its outcome it
  burns the nonce.\<close>
theorem nonce_consumed_once:
  assumes "consume raw dev now n = (ok, n')"
  shows "length (filter (\<lambda>r. r = Some k) (outcomes nonce_step ops s))
      \<le> length (filter (\<lambda>op. nonce_mints op k) ops) + (if nonce_live s k then 1 else 0)
    \<and> (ok \<longleftrightarrow> (case map_of (ns_issued n) (RawURLEncoding_EncodeToString raw) of None \<Rightarrow> False
        | Some v \<Rightarrow> now < nn_expires v \<and> nn_deviceID v = dev))
    \<and> \<not> nonce_live n' raw \<and> (\<forall>k. k \<noteq> raw \<longrightarrow> nonce_live n' k = nonce_live n k)"
proof -
  have "(ok \<longleftrightarrow> (case map_of (ns_issued n) (RawURLEncoding_EncodeToString raw) of None \<Rightarrow> False
        | Some v \<Rightarrow> now < nn_expires v \<and> nn_deviceID v = dev))
    \<and> \<not> nonce_live n' raw \<and> (\<forall>k. k \<noteq> raw \<longrightarrow> nonce_live n' k = nonce_live n k)"
    using assms by (auto simp: consume_def Let_def nonce_live_def RawURLEncoding_inject
        split: option.split_asm)
  then show ?thesis using nonce.redeemed_at_most_minted [of k ops s] by blast
qed

theorem nonce_consumed_once_witness:
  "consume ''nn'' ''mallory'' 5 (snd (nonces_mint ''phone'' 0 (Some ''nn'') newNonces)) = (False, newNonces)
   \<and> \<not> nonce_live newNonces ''nn''"
proof -
  have c: "consume ''nn'' ''mallory'' 5 (snd (nonces_mint ''phone'' 0 (Some ''nn'') newNonces))
    = (False, newNonces)"
    by (simp add: consume_def nonces_mint_def newNonces_def Let_def)
  show ?thesis using nonce_consumed_once [OF c, of "''nn''" "[]" newNonces] c by simp
qed

end
