(* ===== verification/Fanout.thy ===== *)
theory Fanout
  imports Prelude
begin

text \<open>
  What the status hub and the pane hub share: the subscriber object with its one-slot channel
  and its once-guarded \<^verbatim>\<open>gone\<close> channel, the latest-wins offer both \<^verbatim>\<open>publish\<close> methods make, and
  the contract of such a fan-out. Subscribers are heap objects (Go keys its sets by their
  address, and a stream keeps its pointer after the hub has forgotten it), so a hub holds a
  heap from addresses to subscribers next to the set of addresses it still serves.
\<close>

section \<open>Subscribers\<close>

text \<open>\<open>su_gone\<close> counts how often the channel was closed: a second close panics in Go.\<close>

record 'f subscriber =
  su_deviceID :: string
  su_updates :: "'f list"
  su_once :: bool
  su_gone :: nat

type_synonym 'f heap = "(nat, 'f subscriber) gomap"

definition new_subscriber :: "string \<Rightarrow> 'f subscriber" where
  "new_subscriber deviceID = \<lparr>su_deviceID = deviceID, su_updates = [], su_once = False, su_gone = 0\<rparr>"

definition subscriber_close :: "'f subscriber \<Rightarrow> 'f subscriber" where
  "subscriber_close s = (if su_once s then s else s\<lparr>su_once := True, su_gone := Suc (su_gone s)\<rparr>)"

text \<open>A non-blocking send and a non-blocking receive on a channel with one slot.\<close>

definition try_send :: "'f \<Rightarrow> 'f list \<Rightarrow> 'f list option" where
  "try_send f buf = (if length buf < 1 then Some (buf @ [f]) else None)"

definition try_recv :: "'f list \<Rightarrow> 'f option \<times> 'f list" where
  "try_recv buf = (case buf of [] \<Rightarrow> (None, []) | f # rest \<Rightarrow> (Some f, rest))"

text \<open>The three selects of \<^verbatim>\<open>publish\<close>. The watcher may receive between them without the hub's
  lock: \<open>r1\<close> and \<open>r2\<close> say whether it does so before the second and before the third, and the
  first component collects what it then gets.\<close>

definition offer_racing :: "bool \<Rightarrow> bool \<Rightarrow> 'f \<Rightarrow> 'f list \<Rightarrow> 'f list \<times> 'f list" where
  "offer_racing r1 r2 f buf =
    (case try_send f buf of
       Some buf' \<Rightarrow> ([], buf')
     | None \<Rightarrow>
         (let (g1, b1) = (if r1 then try_recv buf else (None, buf));
              (_, b2) = try_recv b1;
              (g2, b3) = (if r2 then try_recv b2 else (None, b2));
              b4 = (case try_send f b3 of Some b \<Rightarrow> b | None \<Rightarrow> b3)
          in (List.map_filter id [g1, g2], b4)))"

definition offer :: "'f \<Rightarrow> 'f list \<Rightarrow> 'f list" where
  "offer f buf = snd (offer_racing False False f buf)"

definition heap_mod :: "nat set \<Rightarrow> ('f subscriber \<Rightarrow> 'f subscriber) \<Rightarrow> 'f heap \<Rightarrow> 'f heap" where
  "heap_mod A g hp = map (\<lambda>(a, s). (a, if a \<in> A then g s else s)) hp"

abbreviation su_offer :: "'f \<Rightarrow> 'f subscriber \<Rightarrow> 'f subscriber" where
  "su_offer f s \<equiv> s\<lparr>su_updates := offer f (su_updates s)\<rparr>"

section \<open>Lemmas\<close>

lemma offer_eq: "length buf \<le> 1 \<Longrightarrow> offer f buf = [f]"
  by (cases buf) (auto simp: offer_def offer_racing_def try_send_def try_recv_def)

text \<open>Whatever the watcher does between the selects, the outcome is that of an atomic offer, before
  which the watcher received what was pending or did not.\<close>

lemma offer_atomic:
  assumes "length buf \<le> 1" and "offer_racing r1 r2 f buf = (got, buf')"
  shows "(got = [] \<and> buf' = offer f buf) \<or> (got = buf \<and> buf' = offer f [])"
  using assms by (cases buf) (auto simp: offer_def offer_racing_def try_send_def try_recv_def
      map_filter_def split: if_splits)

lemma gokeys_heap_mod [simp]: "gokeys (heap_mod A g hp) = gokeys hp"
  by (induction hp) (auto simp: heap_mod_def)

lemma map_of_heap_mod [simp]:
  "map_of (heap_mod A g hp) a = map_option (\<lambda>s. if a \<in> A then g s else s) (map_of hp a)"
  by (simp add: heap_mod_def map_of_map_snd)

lemma close_updates [simp]:
  "su_updates (subscriber_close s) = su_updates s" "su_deviceID (subscriber_close s) = su_deviceID s"
  by (simp_all add: subscriber_close_def)

definition closed_once :: "'f subscriber \<Rightarrow> bool" where
  "closed_once s \<longleftrightarrow> su_gone s = (if su_once s then 1 else 0)"

lemma closed_once_close: "closed_once s \<Longrightarrow> closed_once (subscriber_close s) \<and> su_once (subscriber_close s)"
  by (simp add: closed_once_def subscriber_close_def)

lemma closed_once_new [simp]: "closed_once (new_subscriber d)" "su_updates (new_subscriber d) = []"
  "su_deviceID (new_subscriber d) = d" "su_once (new_subscriber d) = False"
  by (simp_all add: closed_once_def new_subscriber_def)

text \<open>
  The heap of a hub that serves the addresses in \<open>A\<close>: those are allocated and exactly they
  are not closed yet, every \<^verbatim>\<open>gone\<close> channel was closed at most once, and no channel holds more than
  its one slot.
\<close>

definition fan_wf :: "nat set \<Rightarrow> 'f heap \<Rightarrow> nat \<Rightarrow> bool" where
  "fan_wf A hp nxt \<longleftrightarrow>
     (\<forall>a s. map_of hp a = Some s \<longrightarrow>
        a < nxt \<and> closed_once s \<and> length (su_updates s) \<le> 1 \<and> (a \<in> A \<longleftrightarrow> \<not> su_once s))
   \<and> (\<forall>a \<in> A. map_of hp a \<noteq> None)"

lemma fan_wf_empty [simp]: "fan_wf {} [] 0"
  by (simp add: fan_wf_def)

lemma fan_wf_alloc:
  assumes "fan_wf A hp nxt"
  shows "fan_wf (insert nxt A) (AList.update nxt (new_subscriber d) hp) (Suc nxt)"
proof -
  have "a < nxt" if "map_of hp a = Some s" for a s using assms that unfolding fan_wf_def by blast
  then show ?thesis using assms unfolding fan_wf_def by (auto simp: less_Suc_eq split: if_split_asm)
qed

lemma fan_wf_alloc_orphan:
  "fan_wf A hp nxt \<Longrightarrow> fan_wf A hp (Suc nxt)"
  unfolding fan_wf_def by (auto simp: less_SucI)

lemma fan_wf_close:
  "fan_wf A hp nxt \<Longrightarrow> fan_wf (A - B) (heap_mod B subscriber_close hp) nxt"
proof -
  assume f: "fan_wf A hp nxt"
  have o: "closed_once s \<Longrightarrow> su_once (subscriber_close s)" for s :: "'a subscriber"
    using closed_once_close by blast
  show ?thesis using f unfolding fan_wf_def by (auto simp: closed_once_close) (metis o)
qed

lemma fan_wf_buffer:
  assumes "fan_wf A hp nxt" and "\<And>b. length b \<le> 1 \<Longrightarrow> length (g b) \<le> 1"
  shows "fan_wf A (heap_mod B (\<lambda>s. s\<lparr>su_updates := g (su_updates s)\<rparr>) hp) nxt"
proof -
  have g: "length (g b) \<le> Suc 0" if "length b \<le> Suc 0" for b using assms(2) that by simp
  show ?thesis using assms(1) unfolding fan_wf_def by (auto simp: closed_once_def intro!: g)
qed

lemma fan_wf_slot: "fan_wf A hp nxt \<Longrightarrow> map_of hp a = Some s \<Longrightarrow> length (su_updates s) \<le> 1"
  unfolding fan_wf_def by blast

lemma fan_wf_served: "fan_wf A hp nxt \<Longrightarrow> a \<in> A \<Longrightarrow> \<exists>s. map_of hp a = Some s \<and> \<not> su_once s"
  unfolding fan_wf_def by blast

lemma seq_succ: "Suc (unat s) < 2 ^ 64 \<Longrightarrow> unat (s + 1 :: u64) = Suc (unat s)"
  by (simp add: unat_word_ariths)

lemma seq_le_succ: "Suc (unat s) < 2 ^ 64 \<Longrightarrow> s \<le> (s + 1 :: u64)"
  by (simp add: word_le_nat_alt seq_succ)

section \<open>The fan-out contract\<close>

text \<open>
  One watcher's view of a fan-out: a step may deliver a frame to it. Frames carry sequence
  numbers below the \<open>limit\<close> at which the counter wraps. A delivery is the oldest pending frame; any
  other step leaves the pending frames alone or replaces them by one frame whose number
  is the new one. What a watcher sees is then in order and never repeated.
\<close>

locale fanout =
  fixes step :: "'op \<Rightarrow> 's \<Rightarrow> 'f option \<times> 's"
    and seqof :: "'f \<Rightarrow> nat"
    and counter :: "'s \<Rightarrow> nat"
    and pending :: "'s \<Rightarrow> 'f list"
    and good :: "'s \<Rightarrow> bool"
    and limit :: nat
  assumes good_step: "good s \<Longrightarrow> Suc (counter s) < limit \<Longrightarrow> good (snd (step op s))"
    and delivered: "good s \<Longrightarrow> step op s = (Some f, s') \<Longrightarrow>
      pending s = [f] \<and> pending s' = [] \<and> counter s' = counter s"
    and quiet: "good s \<Longrightarrow> step op s = (None, s') \<Longrightarrow> Suc (counter s) < limit \<Longrightarrow>
      (pending s' = pending s \<and> (counter s' = counter s \<or> counter s' = Suc (counter s)))
      \<or> (\<exists>f. pending s' = [f] \<and> seqof f = counter s' \<and> counter s' = Suc (counter s))"
    and pending_old: "good s \<Longrightarrow> f \<in> set (pending s) \<Longrightarrow> seqof f \<le> counter s"
begin

lemma deliveries_above:
  assumes "good s" and "counter s + length ops < limit" and "f \<in> set (List.map_filter id (outcomes step ops s))"
  shows "f \<in> set (pending s) \<or> counter s < seqof f"
  using assms
proof (induction ops arbitrary: s)
  case (Cons op ops)
  obtain r s' where st: "step op s = (r, s')" by fastforce
  have g: "good s'" using good_step [OF Cons.prems(1), of op] Cons.prems(2) st by simp
  show ?case
  proof (cases r)
    case (Some x)
    then have d: "pending s = [x]" "pending s' = []" "counter s' = counter s"
      using delivered [OF Cons.prems(1)] st by auto
    then show ?thesis using Cons.IH [OF g] Cons.prems st Some by (auto simp: map_filter_def)
  next
    case None
    then have "counter s' + length ops < limit"
      using quiet [OF Cons.prems(1), of op s'] Cons.prems(2) st by auto
    then have "f \<in> set (pending s') \<or> counter s' < seqof f"
      using Cons.IH [OF g] Cons.prems(3) st None by (simp add: map_filter_def)
    then show ?thesis
      using quiet [OF Cons.prems(1), of op s'] Cons.prems(2) st None by auto
  qed
qed (simp add: map_filter_def)

lemma deliveries_increase:
  assumes "good s" and "counter s + length ops < limit"
  shows "sorted_wrt (\<lambda>f g. seqof f < seqof g) (List.map_filter id (outcomes step ops s))"
  using assms
proof (induction ops arbitrary: s)
  case (Cons op ops)
  obtain r s' where st: "step op s = (r, s')" by fastforce
  have g: "good s'" using good_step [OF Cons.prems(1), of op] Cons.prems(2) st by simp
  have bound: "counter s' + length ops < limit"
    using delivered [OF Cons.prems(1), of op] quiet [OF Cons.prems(1), of op] Cons.prems(2) st
    by (cases r) auto
  show ?case
  proof (cases r)
    case (Some x)
    then have d: "pending s = [x]" "pending s' = []" "counter s' = counter s"
      using delivered [OF Cons.prems(1)] st by auto
    have "\<And>f. f \<in> set (List.map_filter id (outcomes step ops s')) \<Longrightarrow> seqof x < seqof f"
      using deliveries_above [OF g bound] d pending_old [OF Cons.prems(1), of x] by fastforce
    then show ?thesis using Cons.IH [OF g bound] st Some by (simp add: map_filter_def)
  next
    case None
    then show ?thesis using Cons.IH [OF g bound] st by (simp add: map_filter_def)
  qed
qed (simp add: map_filter_def)

end

end
