(* ===== verification/Projection.thy ===== *)
theory Projection
  imports GoText
begin

text \<open>
  \<^verbatim>\<open>src/projection/projection.go\<close>: the snapshot a host publishes about itself, the two
  instruction shapes a remote surface may send back, their validation and natural keys, and
  the clamps that bound everything before it is stored or fanned out. The clock a validation
  reads is an argument; \<^verbatim>\<open>UTC()\<close> changes no instant. Pointers are options, and a \<^verbatim>\<open>Clamp\<close>
  that mutates its receiver returns the new value.
\<close>

unbundle bit_operations_syntax

section \<open>Answers and commands\<close>

definition MaxAskIDLen :: nat where
  "MaxAskIDLen = 128"

definition MaxAnswerLen :: nat where
  "MaxAnswerLen = 4096"

datatype proj_error = ErrBadAnswer | ErrBadCommand

record Answer =
  ans_AskID :: bytes
  ans_Text :: bytes
  ans_At :: gotime

definition ValidAnswer :: "bytes \<Rightarrow> bytes \<Rightarrow> gotime \<Rightarrow> proj_error + Answer" where
  "ValidAnswer askID0 text0 now =
    (let askID = TrimSpace askID0; txt = TrimSpace text0
     in if askID = [] \<or> length askID > MaxAskIDLen \<or> txt = [] \<or> length txt > MaxAnswerLen
        then Inl ErrBadAnswer
        else Inr \<lparr>ans_AskID = askID, ans_Text = txt, ans_At = now\<rparr>)"

record Command =
  cmd_ID :: bytes
  cmd_Kind :: bytes
  cmd_SessionID :: bytes
  cmd_Workspace :: bytes
  cmd_Prompt :: bytes
  cmd_At :: gotime

definition CommandKinds :: "bytes list" where
  "CommandKinds = [''compact'', ''resume'', ''spawn'', ''say'']"

definition fnv_step :: "u64 \<Rightarrow> char \<Rightarrow> u64" where
  "fnv_step h c = (h XOR of_char c) * 1099511628211"

definition fnv8 :: "bytes \<Rightarrow> bytes" where
  "fnv8 s = (let h = foldl fnv_step 14695981039346656037 s
             in format_08x (ucast (h XOR drop_bit 32 h)))"

text \<open>Go's integer division truncates towards zero: \<open>sdiv\<close>.\<close>

definition ValidCommand ::
    "bytes \<Rightarrow> bytes \<Rightarrow> bytes \<Rightarrow> bytes \<Rightarrow> gotime \<Rightarrow> proj_error + Command" where
  "ValidCommand kind0 sessionID0 workspace0 prompt0 now =
    (let kind = TrimSpace kind0; sessionID = TrimSpace sessionID0;
         workspace = TrimSpace workspace0; prompt = TrimSpace prompt0
     in if kind = ''compact'' \<or> kind = ''resume'' then
          (if sessionID = [] \<or> length sessionID > MaxAskIDLen \<or> workspace \<noteq> [] \<or> prompt \<noteq> []
           then Inl ErrBadCommand
           else Inr \<lparr>cmd_ID = kind @ '':'' @ sessionID, cmd_Kind = kind,
                     cmd_SessionID = sessionID, cmd_Workspace = [], cmd_Prompt = [],
                     cmd_At = now\<rparr>)
        else if kind = ''spawn'' then
          (if workspace = [] \<or> length workspace > 200 \<or> length prompt > MaxAnswerLen
              \<or> sessionID \<noteq> []
           then Inl ErrBadCommand
           else Inr \<lparr>cmd_ID = ''spawn:'' @ workspace @ '':'' @ fnv8 prompt, cmd_Kind = kind,
                     cmd_SessionID = [], cmd_Workspace = workspace, cmd_Prompt = prompt,
                     cmd_At = now\<rparr>)
        else if kind = ''say'' then
          (if sessionID = [] \<or> length sessionID > MaxAskIDLen \<or> prompt = []
              \<or> length prompt > MaxAnswerLen \<or> workspace \<noteq> []
           then Inl ErrBadCommand
           else Inr \<lparr>cmd_ID = ''say:'' @ sessionID @ '':''
                       @ fnv8 (prompt @ ''@'' @ FormatInt (Unix now sdiv 60)),
                     cmd_Kind = kind, cmd_SessionID = sessionID, cmd_Workspace = [],
                     cmd_Prompt = prompt, cmd_At = now\<rparr>)
        else Inl ErrBadCommand)"

section \<open>Clipping\<close>

text \<open>The loop \<^verbatim>\<open>for n > 0 && s[n]&0xC0 == 0x80 { n-- }\<close>. It reads \<^verbatim>\<open>s[n]\<close> only below the
  length of \<^verbatim>\<open>s\<close>: \<^verbatim>\<open>clip\<close> runs it when \<^verbatim>\<open>len(s) > n\<close>, and \<^verbatim>\<open>n\<close> only decreases.\<close>

fun clip_back :: "bytes \<Rightarrow> nat \<Rightarrow> nat" where
  "clip_back s 0 = 0"
| "clip_back s (Suc n) = (if cont_byte (s ! Suc n) then clip_back s n else Suc n)"

definition clip :: "bytes \<Rightarrow> nat \<Rightarrow> bytes" where
  "clip s n = (if length s \<le> n then s else take (clip_back s n) s)"

section \<open>Snapshots\<close>

record AgentDigest =
  dg_Headline :: bytes
  dg_Bullets :: "bytes list"
  dg_At :: gotime

record Agent =
  ag_ID :: bytes
  ag_State :: bytes
  ag_Title :: bytes
  ag_Ask :: bytes
  ag_AskID :: bytes
  ag_Model :: bytes
  ag_CostUSD :: float64
  ag_CtxPct :: int
  ag_Digest :: "AgentDigest option"
  ag_Attached :: bool
  ag_Now :: bytes
  ag_NowAt :: gotime
  ag_LastEvent :: gotime

record Workspace =
  ws_Name :: bytes
  ws_Branch :: bytes
  ws_Attention :: int
  ws_Agents :: "Agent list"

record Usage =
  us_Mode :: bytes
  us_SessionPct :: int
  us_SessionResets :: bytes
  us_WeekAllPct :: int
  us_WeekAllResets :: bytes
  us_WeekModelName :: bytes
  us_WeekModelPct :: int
  us_WeekModelResets :: bytes
  us_At :: gotime
  us_AgentTodayUSD :: float64
  us_AgentWeekUSD :: float64

record Status =
  st_Hostname :: bytes
  st_RookVersion :: bytes
  st_HostID :: bytes
  st_Workspaces :: "Workspace list"
  st_Usage :: "Usage option"

definition clamp_Usage :: "Usage \<Rightarrow> Usage" where
  "clamp_Usage u = u\<lparr>us_Mode := clip (us_Mode u) 32,
     us_SessionResets := clip (us_SessionResets u) 100,
     us_WeekAllResets := clip (us_WeekAllResets u) 100,
     us_WeekModelName := clip (us_WeekModelName u) 64,
     us_WeekModelResets := clip (us_WeekModelResets u) 100\<rparr>"

text \<open>A digest whose clipped headline is empty is dropped.\<close>

definition clamp_AgentDigest :: "AgentDigest \<Rightarrow> AgentDigest option" where
  "clamp_AgentDigest d =
    (let d' = d\<lparr>dg_Headline := clip (dg_Headline d) 400,
                dg_Bullets := map (\<lambda>b. clip b 400) (take 6 (dg_Bullets d))\<rparr>
     in if dg_Headline d' = [] then None else Some d')"

definition clamp_Agent :: "Agent \<Rightarrow> Agent" where
  "clamp_Agent a = a\<lparr>ag_ID := clip (ag_ID a) MaxAskIDLen,
     ag_State := clip (ag_State a) 200,
     ag_Title := clip (ag_Title a) 200,
     ag_Ask := clip (ag_Ask a) 2000,
     ag_AskID := clip (ag_AskID a) MaxAskIDLen,
     ag_Model := clip (ag_Model a) 200,
     ag_Now := clip (ag_Now a) 200,
     ag_CtxPct := (if ag_CtxPct a < 0 \<or> ag_CtxPct a > 999 then 0 else ag_CtxPct a),
     ag_Digest := Option.bind (ag_Digest a) clamp_AgentDigest\<rparr>"

definition clamp_Workspace :: "Workspace \<Rightarrow> Workspace" where
  "clamp_Workspace w = w\<lparr>ws_Name := clip (ws_Name w) 200,
     ws_Branch := clip (ws_Branch w) 200,
     ws_Agents := map clamp_Agent (take 50 (ws_Agents w))\<rparr>"

definition Status_Clamp :: "Status \<Rightarrow> Status" where
  "Status_Clamp s = s\<lparr>st_Hostname := clip (st_Hostname s) 200,
     st_RookVersion := clip (st_RookVersion s) 200,
     st_HostID := clip (st_HostID s) MaxAskIDLen,
     st_Usage := map_option clamp_Usage (st_Usage s),
     st_Workspaces := map clamp_Workspace (take 100 (st_Workspaces s))\<rparr>"

section \<open>Pane frames\<close>

record StyleRun =
  run_Start :: u32
  run_Len :: u32
  run_FG :: u32
  run_BG :: u32
  run_Attrs :: u32

record PaneRow =
  row_Text :: bytes
  row_Runs :: "StyleRun list"

record PaneFrame =
  pf_Cols :: int
  pf_Rows :: int
  pf_CursorX :: int
  pf_CursorY :: int
  pf_CursorVisible :: bool
  pf_Lines :: "PaneRow list"

definition clamp_PaneRow :: "PaneRow \<Rightarrow> PaneRow" where
  "clamp_PaneRow r = r\<lparr>row_Text := clip (row_Text r) (500 * 4),
     row_Runs := take 500 (row_Runs r)\<rparr>"

definition PaneFrame_Clamp :: "PaneFrame \<Rightarrow> PaneFrame" where
  "PaneFrame_Clamp f = f\<lparr>pf_Cols := (if pf_Cols f < 0 \<or> pf_Cols f > 500 then 500 else pf_Cols f),
     pf_Rows := (if pf_Rows f < 0 \<or> pf_Rows f > 200 then 200 else pf_Rows f),
     pf_CursorX := (if pf_CursorX f < 0 then 0 else pf_CursorX f),
     pf_CursorY := (if pf_CursorY f < 0 then 0 else pf_CursorY f),
     pf_Lines := map clamp_PaneRow (take 200 (pf_Lines f))\<rparr>"

section \<open>Full digests\<close>

record Digest =
  d_ID :: bytes
  d_SessionID :: bytes
  d_Headline :: bytes
  d_Bullets :: "bytes list"
  d_FullText :: bytes
  d_Prompt :: bytes
  d_Reply :: bytes
  d_ReplyState :: bytes
  d_At :: gotime
  d_Model :: bytes
  d_CostUSD :: float64

definition Digest_Clamp :: "Digest \<Rightarrow> Digest" where
  "Digest_Clamp d = d\<lparr>d_ID := clip (d_ID d) MaxAskIDLen,
     d_SessionID := clip (d_SessionID d) MaxAskIDLen,
     d_Headline := clip (d_Headline d) 400,
     d_Bullets := map (\<lambda>b. clip b 400) (take 8 (d_Bullets d)),
     d_FullText := clip (d_FullText d) (128 * 1024),
     d_Prompt := clip (d_Prompt d) (8 * 1024),
     d_Reply := clip (d_Reply d) (8 * 1024),
     d_ReplyState := clip (d_ReplyState d) 64,
     d_Model := clip (d_Model d) 128\<rparr>"

section \<open>Clipping keeps UTF-8\<close>

lemma clip_back_le: "clip_back s n \<le> n"
  by (induction n) auto

lemma clip_length: "length (clip s n) \<le> n"
  using clip_back_le [of s n] by (auto simp: clip_def)

lemma clip_id [simp]: "length s \<le> n \<Longrightarrow> clip s n = s"
  by (simp add: clip_def)

lemma clip_prefix: "prefix (clip s n) s"
  by (simp add: clip_def take_is_prefix)

interpretation clipping: normaliser "\<lambda>s. clip s n" "\<lambda>s. length s \<le> n" for n
  by unfold_locales (simp_all add: clip_length)

lemma rune_shape: "is_rune r \<Longrightarrow> r \<noteq> [] \<and> length r \<le> 4 \<and> \<not> cont_byte (hd r) \<and> list_all cont_byte (tl r)"
  by (induction r rule: is_rune.induct) (auto simp: cont_byte_iff in_byte_range_def)

lemma clip_back_inside_rune:
  "is_rune r \<Longrightarrow> n < length r \<Longrightarrow> clip_back (r @ s) n = 0"
proof (induction n)
  case (Suc n)
  then have "cont_byte (r ! Suc n)"
    using rune_shape [of r] by (cases r) (auto simp: list_all_length)
  then show ?case using Suc by (simp add: nth_append)
qed simp

lemma clip_back_past_rune:
  assumes "is_rune r" and "s = [] \<or> \<not> cont_byte (hd s)" and "k < length s"
  shows "clip_back (r @ s) (length r + k) = length r + clip_back s k"
  using assms(3)
proof (induction k)
  case 0
  then have "\<not> cont_byte (s ! 0)" using assms(2) by (simp add: hd_conv_nth)
  moreover obtain m where "length r = Suc m" using rune_shape [OF assms(1)] by (cases r) auto
  ultimately show ?case by (simp add: nth_append)
next
  case (Suc k)
  then show ?case by (simp add: nth_append)
qed

lemma valid_utf8_hd: "valid_utf8 s \<Longrightarrow> s = [] \<or> \<not> cont_byte (hd s)"
  by (induction rule: valid_utf8.induct) (auto dest: rune_shape simp: hd_append)

lemma clip_rune:
  assumes "is_rune r" and "valid_utf8 s"
  shows "clip (r @ s) n = (if length r \<le> n then r @ clip s (n - length r) else [])"
proof (cases "length r \<le> n")
  case True
  then obtain k where n: "n = length r + k" by (auto simp: le_iff_add)
  show ?thesis
  proof (cases "length s \<le> k")
    case False
    then have "clip_back (r @ s) (length r + k) = length r + clip_back s k"
      using assms by (intro clip_back_past_rune) (auto dest: valid_utf8_hd)
    then show ?thesis using n False by (simp add: clip_def)
  qed (simp add: n)
next
  case False
  then show ?thesis using assms by (simp add: clip_def clip_back_inside_rune)
qed

lemma clip_valid_utf8: "valid_utf8 s \<Longrightarrow> valid_utf8 (clip s n)"
proof (induction arbitrary: n rule: valid_utf8.induct)
  case (rune r s)
  then show ?case by (simp add: clip_rune valid_utf8.intros)
qed (simp add: valid_utf8.empty)

lemma clip_loses_at_most_3:
  "valid_utf8 s \<Longrightarrow> n < length s \<Longrightarrow> n \<le> length (clip s n) + 3"
proof (induction arbitrary: n rule: valid_utf8.induct)
  case (rune r s)
  show ?case
  proof (cases "length r \<le> n")
    case True
    then have "n - length r \<le> length (clip s (n - length r)) + 3"
      using rune.prems by (intro rune.IH) auto
    then show ?thesis using True rune.hyps by (simp add: clip_rune)
  next
    case False
    then show ?thesis using rune rune_shape [of r] by (simp add: clip_rune)
  qed
qed simp

section \<open>What the clamps bound\<close>

definition AgentDigest_ok :: "AgentDigest \<Rightarrow> bool" where
  "AgentDigest_ok d \<longleftrightarrow> dg_Headline d \<noteq> [] \<and> length (dg_Headline d) \<le> 400
     \<and> length (dg_Bullets d) \<le> 6 \<and> list_all (\<lambda>b. length b \<le> 400) (dg_Bullets d)"

definition Agent_ok :: "Agent \<Rightarrow> bool" where
  "Agent_ok a \<longleftrightarrow> length (ag_ID a) \<le> 128 \<and> length (ag_State a) \<le> 200 \<and> length (ag_Title a) \<le> 200
     \<and> length (ag_Ask a) \<le> 2000 \<and> length (ag_AskID a) \<le> 128 \<and> length (ag_Model a) \<le> 200
     \<and> length (ag_Now a) \<le> 200 \<and> 0 \<le> ag_CtxPct a \<and> ag_CtxPct a \<le> 999
     \<and> pred_option AgentDigest_ok (ag_Digest a)"

definition Workspace_ok :: "Workspace \<Rightarrow> bool" where
  "Workspace_ok w \<longleftrightarrow> length (ws_Name w) \<le> 200 \<and> length (ws_Branch w) \<le> 200
     \<and> length (ws_Agents w) \<le> 50 \<and> list_all Agent_ok (ws_Agents w)"

definition Usage_ok :: "Usage \<Rightarrow> bool" where
  "Usage_ok u \<longleftrightarrow> length (us_Mode u) \<le> 32 \<and> length (us_SessionResets u) \<le> 100
     \<and> length (us_WeekAllResets u) \<le> 100 \<and> length (us_WeekModelName u) \<le> 64
     \<and> length (us_WeekModelResets u) \<le> 100"

definition Status_ok :: "Status \<Rightarrow> bool" where
  "Status_ok s \<longleftrightarrow> length (st_Hostname s) \<le> 200 \<and> length (st_RookVersion s) \<le> 200
     \<and> length (st_HostID s) \<le> 128 \<and> pred_option Usage_ok (st_Usage s)
     \<and> length (st_Workspaces s) \<le> 100 \<and> list_all Workspace_ok (st_Workspaces s)"

definition PaneFrame_ok :: "PaneFrame \<Rightarrow> bool" where
  "PaneFrame_ok f \<longleftrightarrow> 0 \<le> pf_Cols f \<and> pf_Cols f \<le> 500 \<and> 0 \<le> pf_Rows f \<and> pf_Rows f \<le> 200
     \<and> 0 \<le> pf_CursorX f \<and> 0 \<le> pf_CursorY f \<and> length (pf_Lines f) \<le> 200
     \<and> list_all (\<lambda>r. length (row_Text r) \<le> 2000 \<and> length (row_Runs r) \<le> 500) (pf_Lines f)"

definition Digest_ok :: "Digest \<Rightarrow> bool" where
  "Digest_ok d \<longleftrightarrow> length (d_ID d) \<le> 128 \<and> length (d_SessionID d) \<le> 128
     \<and> length (d_Headline d) \<le> 400 \<and> length (d_Bullets d) \<le> 8
     \<and> list_all (\<lambda>b. length b \<le> 400) (d_Bullets d) \<and> length (d_FullText d) \<le> 131072
     \<and> length (d_Prompt d) \<le> 8192 \<and> length (d_Reply d) \<le> 8192
     \<and> length (d_ReplyState d) \<le> 64 \<and> length (d_Model d) \<le> 128"

lemma map_take_normal:
  "(\<And>x. ok (f x)) \<Longrightarrow> length (map f (take n xs)) \<le> n \<and> list_all ok (map f (take n xs))"
  by (simp add: list_all_iff)

lemma map_ok_id: "(\<And>x. ok x \<Longrightarrow> f x = x) \<Longrightarrow> list_all ok xs \<Longrightarrow> map f xs = xs"
  by (simp add: list_all_iff map_idI)

interpretation agent_digest:
  normaliser "\<lambda>d. Option.bind d clamp_AgentDigest" "pred_option AgentDigest_ok"
proof unfold_locales
  fix d
  show "pred_option AgentDigest_ok (Option.bind d clamp_AgentDigest)"
    using map_take_normal [of "\<lambda>b. length b \<le> 400" "\<lambda>b. clip b 400" 6]
    by (cases d) (auto simp: clamp_AgentDigest_def AgentDigest_ok_def clip_length Let_def)
  show "pred_option AgentDigest_ok d \<Longrightarrow> Option.bind d clamp_AgentDigest = d"
    by (cases d)
      (auto simp: clamp_AgentDigest_def AgentDigest_ok_def Let_def
        map_ok_id [of "\<lambda>b. length b \<le> 400"])
qed

interpretation agent: normaliser clamp_Agent Agent_ok
  by unfold_locales
    (auto simp: clamp_Agent_def Agent_ok_def MaxAskIDLen_def clip_length
      agent_digest.norm_ok agent_digest.norm_id)

interpretation workspace: normaliser clamp_Workspace Workspace_ok
proof unfold_locales
  fix w
  show "Workspace_ok (clamp_Workspace w)"
    by (auto simp: clamp_Workspace_def Workspace_ok_def clip_length list_all_iff agent.norm_ok)
  show "Workspace_ok w \<Longrightarrow> clamp_Workspace w = w"
    by (auto simp: clamp_Workspace_def Workspace_ok_def map_ok_id [of Agent_ok] agent.norm_id)
qed

interpretation usage: normaliser clamp_Usage Usage_ok
  by unfold_locales (auto simp: clamp_Usage_def Usage_ok_def clip_length)

interpretation status: normaliser Status_Clamp Status_ok
proof unfold_locales
  fix s
  show "Status_ok (Status_Clamp s)"
    by (cases "st_Usage s")
      (auto simp: Status_Clamp_def Status_ok_def MaxAskIDLen_def clip_length list_all_iff
        workspace.norm_ok usage.norm_ok)
  show "Status_ok s \<Longrightarrow> Status_Clamp s = s"
    by (cases s; cases "st_Usage s")
      (auto simp: Status_Clamp_def Status_ok_def MaxAskIDLen_def map_ok_id [of Workspace_ok]
        workspace.norm_id usage.norm_id)
qed

interpretation pane_frame: normaliser PaneFrame_Clamp PaneFrame_ok
proof unfold_locales
  fix f
  show "PaneFrame_ok (PaneFrame_Clamp f)"
    by (auto simp: PaneFrame_Clamp_def PaneFrame_ok_def clamp_PaneRow_def clip_length list_all_iff)
  show "PaneFrame_ok f \<Longrightarrow> PaneFrame_Clamp f = f"
    by (auto simp: PaneFrame_Clamp_def PaneFrame_ok_def clamp_PaneRow_def
        map_ok_id [of "\<lambda>r. length (row_Text r) \<le> 2000 \<and> length (row_Runs r) \<le> 500"])
qed

interpretation full_digest: normaliser Digest_Clamp Digest_ok
proof unfold_locales
  fix d
  show "Digest_ok (Digest_Clamp d)"
    by (auto simp: Digest_Clamp_def Digest_ok_def MaxAskIDLen_def clip_length list_all_iff)
  show "Digest_ok d \<Longrightarrow> Digest_Clamp d = d"
    by (auto simp: Digest_Clamp_def Digest_ok_def MaxAskIDLen_def
        map_ok_id [of "\<lambda>b. length b \<le> 400"])
qed

section \<open>The command allowlist and its natural keys\<close>

text \<open>Each kind carries exactly its own fields.\<close>

definition command_ok :: "Command \<Rightarrow> bool" where
  "command_ok c \<longleftrightarrow>
     (cmd_Kind c \<in> {''compact'', ''resume''} \<and> cmd_SessionID c \<noteq> []
        \<and> length (cmd_SessionID c) \<le> 128 \<and> cmd_Workspace c = [] \<and> cmd_Prompt c = []
        \<and> cmd_ID c = cmd_Kind c @ '':'' @ cmd_SessionID c)
   \<or> (cmd_Kind c = ''spawn'' \<and> cmd_Workspace c \<noteq> [] \<and> length (cmd_Workspace c) \<le> 200
        \<and> length (cmd_Prompt c) \<le> 4096 \<and> cmd_SessionID c = []
        \<and> cmd_ID c = ''spawn:'' @ cmd_Workspace c @ '':'' @ fnv8 (cmd_Prompt c))
   \<or> (cmd_Kind c = ''say'' \<and> cmd_SessionID c \<noteq> [] \<and> length (cmd_SessionID c) \<le> 128
        \<and> cmd_Prompt c \<noteq> [] \<and> length (cmd_Prompt c) \<le> 4096 \<and> cmd_Workspace c = []
        \<and> cmd_ID c = ''say:'' @ cmd_SessionID c @ '':''
             @ fnv8 (cmd_Prompt c @ ''@'' @ FormatInt (Unix (cmd_At c) sdiv 60)))"

lemma length_fnv8 [simp]: "length (fnv8 s) = 8"
  by (simp add: fnv8_def Let_def)

lemma command_ok_intros:
  "k = ''compact'' \<or> k = ''resume'' \<Longrightarrow> s \<noteq> [] \<Longrightarrow> length s \<le> 128 \<Longrightarrow>
    command_ok \<lparr>cmd_ID = k @ '':'' @ s, cmd_Kind = k, cmd_SessionID = s, cmd_Workspace = [],
      cmd_Prompt = [], cmd_At = t\<rparr>"
  "w \<noteq> [] \<Longrightarrow> length w \<le> 200 \<Longrightarrow> length p \<le> 4096 \<Longrightarrow>
    command_ok \<lparr>cmd_ID = ''spawn:'' @ w @ '':'' @ fnv8 p, cmd_Kind = ''spawn'',
      cmd_SessionID = [], cmd_Workspace = w, cmd_Prompt = p, cmd_At = t\<rparr>"
  "s \<noteq> [] \<Longrightarrow> length s \<le> 128 \<Longrightarrow> p \<noteq> [] \<Longrightarrow> length p \<le> 4096 \<Longrightarrow>
    command_ok \<lparr>cmd_ID = ''say:'' @ s @ '':'' @ fnv8 (p @ ''@'' @ FormatInt (Unix t sdiv 60)),
      cmd_Kind = ''say'', cmd_SessionID = s, cmd_Workspace = [], cmd_Prompt = p, cmd_At = t\<rparr>"
  by (simp_all only: command_ok_def Command.select_convs insert_iff) auto

lemmas command_split = de_Morgan_disj not_less not_not not_False_eq_True sum.inject sum.distinct
  Command.select_convs command_ok_intros simp_thms

lemma ValidCommand_command_ok:
  assumes "ValidCommand k s w p t = Inr c"
  shows "command_ok c \<and> cmd_At c = t \<and> cmd_Kind c = TrimSpace k
     \<and> cmd_SessionID c = TrimSpace s \<and> cmd_Workspace c = TrimSpace w \<and> cmd_Prompt c = TrimSpace p"
  using assms unfolding ValidCommand_def Let_def MaxAskIDLen_def MaxAnswerLen_def
  by (simp only: split: if_split_asm)
    (simp_all only: command_split, (elim conjE, hypsubst, simp only: command_split)+)

lemma command_ok_ValidCommand:
  assumes "command_ok c" and "TrimSpace k = cmd_Kind c" and "TrimSpace s = cmd_SessionID c"
    and "TrimSpace w = cmd_Workspace c" and "TrimSpace p = cmd_Prompt c"
  shows "ValidCommand k s w p (cmd_At c) = Inr c"
  using assms
  by (cases c)
    (auto simp: ValidCommand_def command_ok_def Let_def MaxAskIDLen_def MaxAnswerLen_def)

lemma command_key_inj:
  assumes "command_ok c" and "command_ok c'" and "cmd_ID c = cmd_ID c'"
  shows "cmd_Kind c = cmd_Kind c' \<and> cmd_SessionID c = cmd_SessionID c'
    \<and> cmd_Workspace c = cmd_Workspace c'"
  using assms unfolding command_ok_def by (elim disjE conjE) auto

section \<open>Properties\<close>

text \<open>\<^verbatim>\<open>ValidCommand\<close> accepts a request exactly when its trimmed kind is on the allowlist and
  carries exactly that kind's own fields within their bounds, and then the command it returns
  holds the trimmed fields, the caller's clock and the kind's natural key; every other request
  is refused.\<close>
theorem ValidCommand_iff:
  "ValidCommand k s w p t = Inr c \<longleftrightarrow>
     command_ok c \<and> cmd_At c = t \<and> cmd_Kind c = TrimSpace k \<and> cmd_SessionID c = TrimSpace s
     \<and> cmd_Workspace c = TrimSpace w \<and> cmd_Prompt c = TrimSpace p"
proof
  assume "ValidCommand k s w p t = Inr c"
  then show "command_ok c \<and> cmd_At c = t \<and> cmd_Kind c = TrimSpace k
      \<and> cmd_SessionID c = TrimSpace s \<and> cmd_Workspace c = TrimSpace w
      \<and> cmd_Prompt c = TrimSpace p"
    by (rule ValidCommand_command_ok)
next
  assume "command_ok c \<and> cmd_At c = t \<and> cmd_Kind c = TrimSpace k
      \<and> cmd_SessionID c = TrimSpace s \<and> cmd_Workspace c = TrimSpace w
      \<and> cmd_Prompt c = TrimSpace p"
  then show "ValidCommand k s w p t = Inr c"
    using command_ok_ValidCommand [of c k s w p] by simp
qed

text \<open>The natural key separates targets: two accepted commands with the same ID have the
  same kind, the same session and the same workspace, even though session and workspace names
  may contain the separator.\<close>
theorem command_ID_separates:
  assumes "ValidCommand k s w p t = Inr c" and "ValidCommand k' s' w' p' t' = Inr c'"
    and "cmd_ID c = cmd_ID c'"
  shows "cmd_Kind c = cmd_Kind c' \<and> cmd_SessionID c = cmd_SessionID c'
    \<and> cmd_Workspace c = cmd_Workspace c'"
  using assms ValidCommand_command_ok command_key_inj by blast

theorem command_ID_separates_witness:
  "\<exists>c. ValidCommand ''resume'' ''a:b'' [] [] 5 = Inr c
     \<and> ValidCommand ''resume'' '' a:b'' '' '' [] 9 = Inr (c\<lparr>cmd_At := 9\<rparr>)
     \<and> cmd_Kind c = cmd_Kind (c\<lparr>cmd_At := 9\<rparr>)"
proof -
  let ?c = "\<lparr>cmd_ID = ''resume:a:b'', cmd_Kind = ''resume'', cmd_SessionID = ''a:b'',
    cmd_Workspace = [], cmd_Prompt = [], cmd_At = 5\<rparr>"
  have 1: "ValidCommand ''resume'' ''a:b'' [] [] 5 = Inr ?c" by code_simp
  have 2: "ValidCommand ''resume'' '' a:b'' '' '' [] 9 = Inr (?c\<lparr>cmd_At := 9\<rparr>)" by code_simp
  show ?thesis using 1 2 command_ID_separates [OF 1 2] by auto
qed


text \<open>What the deduplication of a retried command rests on: a resubmission of the same
  request gets the same key when it is a compact, a resume or a spawn, whenever it arrives, and
  when it is a say if both arrive in the same minute of the host's clock.\<close>
theorem command_ID_retry:
  assumes "ValidCommand k s w p t = Inr c" and "ValidCommand k s w p t' = Inr c'"
    and "TrimSpace k = ''say'' \<Longrightarrow> Unix t sdiv 60 = Unix t' sdiv 60"
  shows "cmd_ID c = cmd_ID c'"
proof -
  note 1 = ValidCommand_command_ok [OF assms(1)] and 2 = ValidCommand_command_ok [OF assms(2)]
  show ?thesis
  proof (cases "TrimSpace k = ''say''")
    case True
    then show ?thesis using 1 2 assms(3) by (auto simp: command_ok_def)
  next
    case False
    then show ?thesis using 1 2 by (auto simp: command_ok_def)
  qed
qed

theorem command_ID_retry_witness:
  "\<exists>c c'. ValidCommand ''say'' ''s'' [] ''go'' (61 * Second) = Inr c
     \<and> ValidCommand ''say'' ''s'' [] ''go'' (119 * Second) = Inr c' \<and> cmd_ID c = cmd_ID c'"
proof -
  have "isl (ValidCommand ''say'' ''s'' [] ''go'' (61 * Second)) = False" by code_simp
  then obtain c where 1: "ValidCommand ''say'' ''s'' [] ''go'' (61 * Second) = Inr c"
    by (cases "ValidCommand ''say'' ''s'' [] ''go'' (61 * Second)") auto
  have "isl (ValidCommand ''say'' ''s'' [] ''go'' (119 * Second)) = False" by code_simp
  then obtain c' where 2: "ValidCommand ''say'' ''s'' [] ''go'' (119 * Second) = Inr c'"
    by (cases "ValidCommand ''say'' ''s'' [] ''go'' (119 * Second)") auto
  have "Unix (61 * Second) sdiv 60 = Unix (119 * Second) sdiv 60" by code_simp
  then show ?thesis using 1 2 command_ID_retry [OF 1 2] by blast
qed

text \<open>An accepted answer is trimmed, non-empty and within its bounds, and validating it again
  with any clock changes nothing but its time.\<close>
theorem ValidAnswer_normal:
  assumes "ValidAnswer askID txt now = Inr a"
  shows "a = \<lparr>ans_AskID = TrimSpace askID, ans_Text = TrimSpace txt, ans_At = now\<rparr>
    \<and> trimmed (ans_AskID a) \<and> trimmed (ans_Text a)
    \<and> 0 < length (ans_AskID a) \<and> length (ans_AskID a) \<le> 128
    \<and> 0 < length (ans_Text a) \<and> length (ans_Text a) \<le> 4096
    \<and> ValidAnswer (ans_AskID a) (ans_Text a) now' = Inr (a\<lparr>ans_At := now'\<rparr>)"
  using assms
  by (auto simp: ValidAnswer_def Let_def MaxAskIDLen_def MaxAnswerLen_def trim.norm_ok
      trim.idempotent split: if_splits)

theorem ValidAnswer_normal_witness:
  "ValidAnswer '' ask-1 '' ''yes'' 3 = Inr \<lparr>ans_AskID = ''ask-1'', ans_Text = ''yes'', ans_At = 3\<rparr>
   \<and> trimmed ''ask-1''"
proof -
  have 1: "ValidAnswer '' ask-1 '' ''yes'' 3
      = Inr \<lparr>ans_AskID = ''ask-1'', ans_Text = ''yes'', ans_At = 3\<rparr>" by code_simp
  have "trimmed (ans_AskID \<lparr>ans_AskID = ''ask-1'', ans_Text = ''yes'', ans_At = 3\<rparr>)"
    using ValidAnswer_normal [OF 1] by blast
  with 1 show ?thesis by simp
qed

text \<open>\<^verbatim>\<open>clip\<close> returns a prefix within the limit, leaves a short string alone, keeps well-formed
  UTF-8 well-formed, and then gives up at most three bytes of the limit.\<close>
theorem clip_utf8:
  assumes "valid_utf8 s"
  shows "valid_utf8 (clip s n) \<and> prefix (clip s n) s \<and> length (clip s n) \<le> n
    \<and> (length s \<le> n \<longrightarrow> clip s n = s) \<and> (n < length s \<longrightarrow> n - 3 \<le> length (clip s n))"
  using assms clip_loses_at_most_3 [of s n]
  by (auto simp: clip_valid_utf8 clip_prefix clip_length)

theorem clip_utf8_witness:
  "valid_utf8 [CHR ''a'', CHR 0xC3, CHR 0xA9] \<and> clip [CHR ''a'', CHR 0xC3, CHR 0xA9] 2 = ''a''
   \<and> valid_utf8 (clip [CHR ''a'', CHR 0xC3, CHR 0xA9] 2)"
proof -
  have "valid_utf8 ([CHR ''a''] @ [CHR 0xC3, CHR 0xA9] @ [])"
    by (intro valid_utf8.intros) (simp_all add: in_byte_range_def cont_byte_def)
  then have v: "valid_utf8 [CHR ''a'', CHR 0xC3, CHR 0xA9]" by simp
  have "clip [CHR ''a'', CHR 0xC3, CHR 0xA9] 2 = ''a''" by code_simp
  then show ?thesis using v clip_utf8 [OF v, of 2] by simp
qed

text \<open>\<^verbatim>\<open>Status.Clamp\<close> bounds every unbounded dimension of a snapshot, leaves a bounded snapshot
  alone, and is idempotent.\<close>
theorem Status_Clamp_normalises:
  "Status_ok (Status_Clamp s) \<and> Status_Clamp (Status_Clamp s) = Status_Clamp s
   \<and> (Status_Clamp s = s \<longleftrightarrow> Status_ok s)"
  by (simp add: status.norm_ok status.idempotent status.fixpoint_iff)

text \<open>\<^verbatim>\<open>PaneFrame.Clamp\<close> and \<^verbatim>\<open>Digest.Clamp\<close> bound every unbounded dimension, leave bounded
  values alone, and are idempotent.\<close>
theorem pane_and_digest_clamps_normalise:
  "PaneFrame_ok (PaneFrame_Clamp f) \<and> PaneFrame_Clamp (PaneFrame_Clamp f) = PaneFrame_Clamp f
   \<and> (PaneFrame_Clamp f = f \<longleftrightarrow> PaneFrame_ok f)
   \<and> Digest_ok (Digest_Clamp d) \<and> Digest_Clamp (Digest_Clamp d) = Digest_Clamp d
   \<and> (Digest_Clamp d = d \<longleftrightarrow> Digest_ok d)"
  by (simp add: pane_frame.norm_ok pane_frame.idempotent pane_frame.fixpoint_iff
      full_digest.norm_ok full_digest.idempotent full_digest.fixpoint_iff)

end
