(* ===== verification/Hub.thy ===== *)
theory Hub
  imports Fanout Projection
begin

text \<open>
  \<^verbatim>\<open>src/link/hub.go\<close>: the status hub. It keeps the latest clamped snapshot with a number that
  only grows, and offers each new one to every subscribed watcher, latest wins.
\<close>

section \<open>State and operations\<close>

record frame =
  fr_status :: Status
  fr_at :: gotime
  fr_seq :: u64

record hub =
  h_current :: Status
  h_at :: gotime
  h_seq :: u64
  h_subs :: "nat list"
  h_heap :: "frame heap"
  h_next :: nat

definition zero_Status :: Status where
  "zero_Status = \<lparr>st_Hostname = [], st_RookVersion = [], st_HostID = [], st_Workspaces = [], st_Usage = None\<rparr>"

definition newHub :: hub where
  "newHub = \<lparr>h_current = zero_Status, h_at = zero_time, h_seq = 0, h_subs = [], h_heap = [], h_next = 0\<rparr>"

definition hub_frame :: "hub \<Rightarrow> frame" where
  "hub_frame h = \<lparr>fr_status = h_current h, fr_at = h_at h, fr_seq = h_seq h\<rparr>"

definition hub_publish :: "Status \<Rightarrow> gotime \<Rightarrow> hub \<Rightarrow> u64 \<times> hub" where
  "hub_publish s at h =
    (let s' = Status_Clamp s;
         seq = h_seq h + 1;
         f = \<lparr>fr_status = s', fr_at = at, fr_seq = seq\<rparr>
     in (seq, h\<lparr>h_current := s', h_at := at, h_seq := seq,
                h_heap := heap_mod (set (h_subs h)) (su_offer f) (h_heap h)\<rparr>))"

definition hub_snapshot :: "hub \<Rightarrow> Status \<times> gotime \<times> u64" where
  "hub_snapshot h = (h_current h, h_at h, h_seq h)"

definition hub_subscribe :: "string \<Rightarrow> hub \<Rightarrow> (nat \<times> frame) \<times> hub" where
  "hub_subscribe deviceID h =
    ((h_next h, hub_frame h),
     h\<lparr>h_subs := h_next h # h_subs h,
       h_heap := AList.update (h_next h) (new_subscriber deviceID) (h_heap h),
       h_next := Suc (h_next h)\<rparr>)"

definition hub_unsubscribe :: "nat \<Rightarrow> hub \<Rightarrow> hub" where
  "hub_unsubscribe a h = h\<lparr>h_subs := removeAll a (h_subs h),
     h_heap := heap_mod {a} subscriber_close (h_heap h)\<rparr>"

definition hub_dropDevice :: "string \<Rightarrow> hub \<Rightarrow> hub" where
  "hub_dropDevice deviceID h =
    (let doomed = filter (\<lambda>a. case map_of (h_heap h) a of None \<Rightarrow> False
                           | Some s \<Rightarrow> su_deviceID s = deviceID) (h_subs h)
     in h\<lparr>h_subs := filter (\<lambda>a. a \<notin> set doomed) (h_subs h),
          h_heap := heap_mod (set doomed) subscriber_close (h_heap h)\<rparr>)"

text \<open>The stream's receive on its own channel, when that case of the select is taken.\<close>

definition hub_recv :: "nat \<Rightarrow> hub \<Rightarrow> frame option \<times> hub" where
  "hub_recv a h =
    (case map_of (h_heap h) a of
       None \<Rightarrow> (None, h)
     | Some s \<Rightarrow>
         (let (f, buf) = try_recv (su_updates s)
          in (f, h\<lparr>h_heap := heap_mod {a} (\<lambda>s. s\<lparr>su_updates := buf\<rparr>) (h_heap h)\<rparr>)))"

datatype hub_op =
    HPublish Status gotime
  | HSubscribe string
  | HUnsubscribe nat
  | HDropDevice string
  | HRecv nat

fun hub_next :: "hub_op \<Rightarrow> hub \<Rightarrow> hub" where
  "hub_next (HPublish s at) h = snd (hub_publish s at h)"
| "hub_next (HSubscribe dev) h = snd (hub_subscribe dev h)"
| "hub_next (HUnsubscribe a) h = hub_unsubscribe a h"
| "hub_next (HDropDevice dev) h = hub_dropDevice dev h"
| "hub_next (HRecv a) h = snd (hub_recv a h)"

text \<open>A step as the watcher at address \<open>w\<close> sees it.\<close>

definition hub_step :: "nat \<Rightarrow> hub_op \<Rightarrow> hub \<Rightarrow> frame option \<times> hub" where
  "hub_step w op h = ((if op = HRecv w then fst (hub_recv w h) else None), hub_next op h)"

section \<open>Invariant\<close>

text \<open>The heap is in order, and a served watcher's pending frame, if any, is the current snapshot.\<close>

definition hub_wf :: "hub \<Rightarrow> bool" where
  "hub_wf h \<longleftrightarrow> fan_wf (set (h_subs h)) (h_heap h) (h_next h)
     \<and> (\<forall>a \<in> set (h_subs h). \<forall>s. map_of (h_heap h) a = Some s
          \<longrightarrow> su_updates s = [] \<or> su_updates s = [hub_frame h])"

definition subs_of :: "string \<Rightarrow> hub \<Rightarrow> nat set" where
  "subs_of dev h = {a \<in> set (h_subs h). \<exists>s. map_of (h_heap h) a = Some s \<and> su_deviceID s = dev}"

lemma hub_wf_new: "hub_wf newHub"
  by (simp add: hub_wf_def newHub_def)

lemma hub_wf_publish:
  assumes "hub_wf h"
  shows "hub_wf (snd (hub_publish s at h))"
proof -
  have f: "fan_wf (set (h_subs h)) (h_heap h) (h_next h)" using assms by (simp add: hub_wf_def)
  show ?thesis
    using fan_wf_slot [OF f]
    by (auto simp: hub_wf_def hub_publish_def Let_def hub_frame_def offer_eq
        intro!: fan_wf_buffer [OF f])
qed

lemma hub_wf_subscribe: "hub_wf h \<Longrightarrow> hub_wf (snd (hub_subscribe dev h))"
  by (auto simp: hub_wf_def hub_subscribe_def hub_frame_def fan_wf_alloc)

lemma hub_wf_close:
  assumes "hub_wf h" and "set subs = set (h_subs h) - A"
  shows "hub_wf (h\<lparr>h_subs := subs, h_heap := heap_mod A subscriber_close (h_heap h)\<rparr>)"
  using assms by (auto simp: hub_wf_def hub_frame_def fan_wf_close)

lemma hub_recv_eq:
  "hub_recv a h = (case map_of (h_heap h) a of None \<Rightarrow> None | Some s \<Rightarrow> fst (try_recv (su_updates s)),
     h\<lparr>h_heap := if map_of (h_heap h) a = None then h_heap h
        else heap_mod {a} (\<lambda>s. s\<lparr>su_updates := snd (try_recv (su_updates (the (map_of (h_heap h) a))))\<rparr>) (h_heap h)\<rparr>)"
  by (auto simp: hub_recv_def split: option.splits prod.splits)

lemma hub_wf_recv:
  assumes "hub_wf h"
  shows "hub_wf (snd (hub_recv a h))"
proof (cases "map_of (h_heap h) a")
  case (Some s)
  have f: "fan_wf (set (h_subs h)) (h_heap h) (h_next h)" using assms by (simp add: hub_wf_def)
  have e: "snd (try_recv (su_updates s)) = []"
    using fan_wf_slot [OF f Some] by (cases "su_updates s") (simp_all add: try_recv_def)
  show ?thesis
    using assms fan_wf_buffer [OF f, of "\<lambda>b. []" "{a}"] Some e
    by (auto simp: hub_wf_def hub_recv_eq hub_frame_def)
qed (use assms in \<open>simp add: hub_recv_def\<close>)

lemma hub_wf_next [wf_intros]: "hub_wf h \<Longrightarrow> hub_wf (hub_next op h)"
proof (cases op)
  case (HUnsubscribe a)
  then show "hub_wf h \<Longrightarrow> ?thesis" by (simp add: hub_unsubscribe_def hub_wf_close)
next
  case (HDropDevice dev)
  then show "hub_wf h \<Longrightarrow> ?thesis" by (simp add: hub_dropDevice_def Let_def) (rule hub_wf_close, auto)
qed (simp_all add: hub_wf_publish hub_wf_subscribe hub_wf_recv)

lemma hub_wf_run: "hub_wf h \<Longrightarrow> hub_wf (fold hub_next ops h)"
  by (induction ops arbitrary: h) (simp_all add: wf_intros)

section \<open>One watcher's view\<close>

definition hub_pending :: "nat \<Rightarrow> hub \<Rightarrow> frame list" where
  "hub_pending w h = (case map_of (h_heap h) w of None \<Rightarrow> [] | Some s \<Rightarrow> su_updates s)"

definition hub_good :: "nat \<Rightarrow> hub \<Rightarrow> bool" where
  "hub_good w h \<longleftrightarrow> hub_wf h \<and> list_all (\<lambda>f. fr_seq f \<le> h_seq h) (hub_pending w h)"

lemma hub_pending_slot: "hub_wf h \<Longrightarrow> length (hub_pending w h) \<le> 1"
  by (auto simp: hub_wf_def hub_pending_def dest: fan_wf_slot split: option.split)

lemma hub_recv_pending:
  assumes "hub_wf h"
  shows "fst (hub_recv a h) = (case hub_pending a h of [] \<Rightarrow> None | f # _ \<Rightarrow> Some f)"
    "hub_pending w (snd (hub_recv a h)) = (if w = a then [] else hub_pending w h)"
    "h_seq (snd (hub_recv a h)) = h_seq h"
  using hub_pending_slot [OF assms, of a]
  by (auto simp: hub_recv_eq hub_pending_def try_recv_def split: option.split list.split)

lemma hub_publish_pending:
  assumes "hub_wf h" and "hub_publish s at h = (q, h')"
  shows "hub_pending w h' = (if w \<in> set (h_subs h) then [hub_frame h'] else hub_pending w h)"
  using assms hub_pending_slot [OF assms(1), of w]
  by (auto simp: hub_publish_def Let_def hub_pending_def hub_frame_def offer_eq hub_wf_def
      dest: fan_wf_served split: option.split_asm option.split)

lemma hub_next_frame:
  assumes "hub_wf h" and "\<And>s at. op \<noteq> HPublish s at" and "\<And>a. op \<noteq> HRecv a"
  shows "hub_pending w (hub_next op h) = hub_pending w h" "h_seq (hub_next op h) = h_seq h"
  using assms
  by (cases op; auto simp: hub_subscribe_def hub_unsubscribe_def hub_dropDevice_def Let_def
      hub_pending_def hub_wf_def fan_wf_def split: option.split)+

interpretation hub_watch: fanout "hub_step w" "\<lambda>f. unat (fr_seq f)" "\<lambda>h. unat (h_seq h)"
  "hub_pending w" "hub_good w" "2 ^ 64"
proof
  fix h op and h' :: hub and f
  have old: "hub_good w h \<Longrightarrow> f \<in> set (hub_pending w h) \<Longrightarrow> fr_seq f \<le> h_seq h" for f h
    by (auto simp: hub_good_def list_all_iff)
  show "hub_good w h \<Longrightarrow> f \<in> set (hub_pending w h) \<Longrightarrow> unat (fr_seq f) \<le> unat (h_seq h)"
    using old by (simp add: word_le_nat_alt)
  show "hub_good w h \<Longrightarrow> hub_step w op h = (Some f, h') \<Longrightarrow>
      hub_pending w h = [f] \<and> hub_pending w h' = [] \<and> unat (h_seq h') = unat (h_seq h)"
    using hub_recv_pending [of h w] hub_pending_slot [of h w]
    by (auto simp: hub_step_def hub_good_def split: if_split_asm list.split_asm)
  show "hub_good w (snd (hub_step w op h))" if g: "hub_good w h" and l: "Suc (unat (h_seq h)) < 2 ^ 64"
  proof -
    have wf: "hub_wf h" using g by (simp add: hub_good_def)
    have "list_all (\<lambda>f. fr_seq f \<le> h_seq (hub_next op h)) (hub_pending w (hub_next op h))"
    proof (cases op)
      case (HPublish s at)
      obtain q h1 where p: "hub_publish s at h = (q, h1)" by fastforce
      then have "h_seq h1 = h_seq h + 1" by (auto simp: hub_publish_def Let_def)
      then show ?thesis using g HPublish p hub_publish_pending [OF wf p, of w] seq_le_succ [OF l]
        by (auto simp: hub_good_def list_all_iff hub_frame_def intro: order_trans)
    next
      case (HRecv a)
      then show ?thesis using g hub_recv_pending [OF wf] by (simp add: hub_good_def)
    qed (use g hub_next_frame(1) [OF wf, of op w] hub_next_frame(2) [OF wf, of op] in \<open>simp_all add: hub_good_def\<close>)
    then show ?thesis using wf by (simp add: hub_good_def hub_step_def wf_intros)
  qed
  show "(hub_pending w h' = hub_pending w h
         \<and> (unat (h_seq h') = unat (h_seq h) \<or> unat (h_seq h') = Suc (unat (h_seq h))))
      \<or> (\<exists>f. hub_pending w h' = [f] \<and> unat (fr_seq f) = unat (h_seq h')
           \<and> unat (h_seq h') = Suc (unat (h_seq h)))"
    if g: "hub_good w h" and s: "hub_step w op h = (None, h')" and l: "Suc (unat (h_seq h)) < 2 ^ 64"
  proof -
    have wf: "hub_wf h" using g by (simp add: hub_good_def)
    have h': "h' = hub_next op h" using s by (simp add: hub_step_def)
    show ?thesis
    proof (cases op)
      case (HPublish s at)
      obtain q h1 where p: "hub_publish s at h = (q, h1)" by fastforce
      then have "h_seq h1 = h_seq h + 1" by (auto simp: hub_publish_def Let_def)
      then show ?thesis using h' HPublish p hub_publish_pending [OF wf p, of w] seq_succ [OF l]
        by (auto simp: hub_frame_def)
    next
      case (HRecv a)
      then show ?thesis using h' s
        by (auto simp: hub_step_def hub_recv_pending [OF wf] split: list.split_asm if_split_asm)
    qed (use h' hub_next_frame(1) [OF wf, of op w] hub_next_frame(2) [OF wf, of op] in simp_all)
  qed
qed

lemma hub_reach: "hub_wf (fold hub_next ops newHub)"
  by (rule hub_wf_run) (rule hub_wf_new)

lemma hub_subscribe_good:
  assumes "hub_wf h" and "hub_subscribe dev h = ((w, f), h')"
  shows "hub_good w h'" "hub_pending w h' = []" "h_seq h' = h_seq h" "fr_seq f = h_seq h"
    "w \<in> set (h_subs h')"
  using assms hub_wf_subscribe [OF assms(1), of dev]
  by (auto simp: hub_good_def hub_pending_def hub_subscribe_def hub_frame_def)

section \<open>Properties\<close>

text \<open>The hub serves the current truth and nothing older. In every state the hub can reach, the
  snapshot is clamped, a watcher it still serves has nothing pending or exactly the current
  snapshot, a publication makes the new clamped snapshot the next thing each such watcher
  receives, whether or not it has read the previous one, and the \<^verbatim>\<open>gone\<close> channel of a watcher is
  closed, once, exactly when the hub no longer serves it.\<close>
theorem hub_latest_wins:
  assumes "h = fold hub_next ops newHub"
  shows "Status_ok (h_current h)
    \<and> (\<forall>w \<in> set (h_subs h). hub_pending w h \<in> {[], [hub_frame h]}
        \<and> (\<forall>s at. fst (hub_recv w (snd (hub_publish s at h)))
             = Some \<lparr>fr_status = Status_Clamp s, fr_at = at, fr_seq = h_seq h + 1\<rparr>))
    \<and> (\<forall>w s. map_of (h_heap h) w = Some s \<longrightarrow> su_gone s = (if w \<in> set (h_subs h) then 0 else 1))"
proof -
  have wf: "hub_wf h" using assms hub_reach by simp
  have "Status_ok (h_current (hub_next op g))" if "Status_ok (h_current g)" for op g
    using that by (cases op) (auto simp: hub_publish_def hub_subscribe_def hub_unsubscribe_def
        hub_dropDevice_def hub_recv_def Let_def status.norm_ok split: option.split prod.split)
  then have "Status_ok (h_current g) \<Longrightarrow> Status_ok (h_current (fold hub_next os g))" for os g
    by (induction os arbitrary: g) simp_all
  moreover have "Status_ok (h_current newHub)"
    by (simp add: newHub_def zero_Status_def Status_ok_def)
  ultimately have "Status_ok (h_current h)" using assms by blast
  moreover have "hub_pending w h \<in> {[], [hub_frame h]}" if "w \<in> set (h_subs h)" for w
    using wf that by (auto simp: hub_wf_def hub_pending_def split: option.split)
  moreover have "fst (hub_recv w (snd (hub_publish s at h)))
      = Some \<lparr>fr_status = Status_Clamp s, fr_at = at, fr_seq = h_seq h + 1\<rparr>"
    if "w \<in> set (h_subs h)" for w s at
    using hub_publish_pending [OF wf, of s at _ "snd (hub_publish s at h)" w] that
      hub_recv_pending(1) [OF hub_wf_publish [OF wf, of s at], of w]
    by (simp add: hub_publish_def Let_def hub_frame_def)
  moreover have "map_of (h_heap h) w = Some s \<Longrightarrow> su_gone s = (if w \<in> set (h_subs h) then 0 else 1)"
    for w s using wf by (auto simp: hub_wf_def fan_wf_def closed_once_def)
  ultimately show ?thesis by blast
qed

theorem hub_latest_wins_witness:
  "fst (hub_recv 0 (snd (hub_publish zero_Status 7 (fold hub_next [HSubscribe ''phone'', HPublish zero_Status 5] newHub))))
   = Some \<lparr>fr_status = zero_Status, fr_at = 7, fr_seq = 2\<rparr>"
proof -
  have "0 \<in> set (h_subs (fold hub_next [HSubscribe ''phone'', HPublish zero_Status 5] newHub))"
    "h_seq (fold hub_next [HSubscribe ''phone'', HPublish zero_Status 5] newHub) + 1 = 2"
    by (simp_all add: hub_subscribe_def hub_publish_def Let_def newHub_def)
  moreover have "Status_Clamp zero_Status = zero_Status" by (rule status.norm_id) (simp add: Status_ok_def zero_Status_def)
  ultimately show ?thesis
    using hub_latest_wins [of _ "[HSubscribe ''phone'', HPublish zero_Status 5]", OF refl]
    by metis
qed

text \<open>A watcher sees snapshots in order, each at most once, and none from before it subscribed.
  Whatever else happens on the hub, including that the watcher is dropped, the numbers of the
  frames it receives after its opening frame strictly increase and all exceed the opening one, as
  long as the 64-bit counter does not wrap.\<close>
theorem hub_frames_in_order:
  assumes "h = fold hub_next before newHub" and "hub_subscribe dev h = ((w, opening), h')"
    and "unat (h_seq h) + length ops < 2 ^ 64"
  defines "got \<equiv> List.map_filter id (outcomes (hub_step w) ops h')"
  shows "sorted_wrt (\<lambda>f g. fr_seq f < fr_seq g) got \<and> (\<forall>f \<in> set got. fr_seq opening < fr_seq f)
    \<and> opening = hub_frame h"
proof -
  have wf: "hub_wf h" using assms(1) hub_reach by simp
  note s = hub_subscribe_good [OF wf assms(2)]
  have b: "unat (h_seq h') + length ops < 2 ^ 64" using assms(3) s by simp
  show ?thesis
    using hub_watch.deliveries_increase [OF s(1) b] hub_watch.deliveries_above [OF s(1) b] s(2-4) assms(2)
    unfolding got_def by (auto simp: word_less_nat_alt hub_subscribe_def)
qed

theorem hub_frames_in_order_witness:
  "map fr_at (List.map_filter id (outcomes (hub_step 0)
     [HPublish zero_Status 5, HPublish zero_Status 6, HRecv 0, HPublish zero_Status 7, HRecv 0]
     (snd (hub_subscribe ''phone'' newHub)))) = [6, 7]
   \<and> sorted_wrt (\<lambda>f g. fr_seq f < fr_seq g) (List.map_filter id (outcomes (hub_step 0)
     [HPublish zero_Status 5, HPublish zero_Status 6, HRecv 0, HPublish zero_Status 7, HRecv 0]
     (snd (hub_subscribe ''phone'' newHub))))"
proof -
  have n: "newHub = fold hub_next [] newHub" by simp
  have s: "hub_subscribe ''phone'' newHub = ((0, hub_frame newHub), snd (hub_subscribe ''phone'' newHub))"
    by (simp add: hub_subscribe_def newHub_def)
  have b: "unat (h_seq newHub) + length [HPublish zero_Status 5, HPublish zero_Status 6, HRecv 0,
     HPublish zero_Status 7, HRecv 0] < 2 ^ 64" by (simp add: newHub_def)
  have "map fr_at (List.map_filter id (outcomes (hub_step 0)
     [HPublish zero_Status 5, HPublish zero_Status 6, HRecv 0, HPublish zero_Status 7, HRecv 0]
     (snd (hub_subscribe ''phone'' newHub)))) = [6, 7]"
    by (simp add: hub_step_def hub_subscribe_def hub_publish_def hub_recv_def newHub_def heap_mod_def
        new_subscriber_def offer_def offer_racing_def try_send_def try_recv_def map_filter_def Let_def)
  then show ?thesis using hub_frames_in_order [OF n s b] by blast
qed

end
