(* ===== verification/PaneHub.thy ===== *)
theory PaneHub
  imports Fanout Projection
begin

text \<open>
  \<^verbatim>\<open>src/link/panehub.go\<close>: pane frames fanned out per watched session, and the \<^verbatim>\<open>PaneSource\<close>
  driven on watcher-count edges. The source is outside the hub: \<open>ph_source\<close> says whether there is
  one, whether an \<^verbatim>\<open>Open\<close> fails is an argument of the subscription that makes it, and \<open>ph_log\<close>
  records every call the hub makes to it, in order.
\<close>

section \<open>State\<close>

record paneFrameMsg =
  mf_frame :: PaneFrame
  mf_seq :: u64

record paneSession =
  ps_current :: "paneFrameMsg option"
  ps_seq :: u64
  ps_subs :: "nat list"
  ps_open :: bool

text \<open>A call to the source; \<open>SrcOpen s ok\<close> is \<^verbatim>\<open>Open(s)\<close> with whether it succeeded.\<close>

datatype source_call = SrcOpen string bool | SrcClose string

record paneHub =
  ph_source :: bool
  ph_sessions :: "(string, paneSession) gomap"
  ph_heap :: "paneFrameMsg heap"
  ph_next :: nat
  ph_log :: "source_call list"

definition newPaneHub :: "bool \<Rightarrow> paneHub" where
  "newPaneHub source = \<lparr>ph_source = source, ph_sessions = [], ph_heap = [], ph_next = 0, ph_log = []\<rparr>"

definition new_paneSession :: paneSession where
  "new_paneSession = \<lparr>ps_current = None, ps_seq = 0, ps_subs = [], ps_open = False\<rparr>"

text \<open>The session on file, or the fresh one a first watcher creates.\<close>

definition session_at :: "(string, paneSession) gomap \<Rightarrow> string \<Rightarrow> paneSession" where
  "session_at m sid = (case map_of m sid of None \<Rightarrow> new_paneSession | Some s \<Rightarrow> s)"

section \<open>Operations\<close>

definition pane_publish :: "string \<Rightarrow> PaneFrame \<Rightarrow> paneHub \<Rightarrow> paneHub" where
  "pane_publish sessionID f h =
    (let f' = PaneFrame_Clamp f in
     case map_of (ph_sessions h) sessionID of
       None \<Rightarrow> h
     | Some sess \<Rightarrow>
         (if length (ps_subs sess) = 0 then h
          else
           (let seq = ps_seq sess + 1;
                msg = \<lparr>mf_frame = f', mf_seq = seq\<rparr>
            in h\<lparr>ph_sessions := AList.update sessionID (sess\<lparr>ps_seq := seq, ps_current := Some msg\<rparr>)
                   (ph_sessions h),
                 ph_heap := heap_mod (set (ps_subs sess)) (su_offer msg) (ph_heap h)\<rparr>)))"

text \<open>A refused \<^verbatim>\<open>Open\<close> still leaves the (unwatched) session behind. The subscriber allocated before
  the refusal is garbage and does not enter the heap.\<close>

definition pane_subscribe ::
    "string \<Rightarrow> string \<Rightarrow> bool \<Rightarrow> paneHub \<Rightarrow> (nat \<times> paneFrameMsg option) option \<times> paneHub" where
  "pane_subscribe deviceID sessionID open_fails h =
    (let sess = session_at (ph_sessions h) sessionID;
         opens = (\<not> ps_open sess \<and> ph_source h);
         log = (if opens then ph_log h @ [SrcOpen sessionID (\<not> open_fails)] else ph_log h)
     in if opens \<and> open_fails
        then (None, h\<lparr>ph_sessions := AList.update sessionID sess (ph_sessions h), ph_log := log\<rparr>)
        else
         (Some (ph_next h, ps_current sess),
          h\<lparr>ph_sessions := AList.update sessionID
               (sess\<lparr>ps_open := (ps_open sess \<or> opens), ps_subs := ph_next h # ps_subs sess\<rparr>)
               (ph_sessions h),
             ph_heap := AList.update (ph_next h) (new_subscriber deviceID) (ph_heap h),
             ph_next := Suc (ph_next h), ph_log := log\<rparr>))"

definition closeIfUnwatchedLocked ::
    "bool \<Rightarrow> string \<Rightarrow> paneSession \<Rightarrow> paneSession \<times> source_call list" where
  "closeIfUnwatchedLocked source sessionID sess =
    (if length (ps_subs sess) \<noteq> 0 \<or> \<not> ps_open sess then (sess, [])
     else (sess\<lparr>ps_current := None, ps_open := False\<rparr>, if source then [SrcClose sessionID] else []))"

definition pane_unsubscribe :: "string \<Rightarrow> nat \<Rightarrow> paneHub \<Rightarrow> paneHub" where
  "pane_unsubscribe sessionID a h =
    (let h' = (case map_of (ph_sessions h) sessionID of
                 None \<Rightarrow> h
               | Some sess \<Rightarrow>
                   (let (sess', calls) = closeIfUnwatchedLocked (ph_source h) sessionID
                          (sess\<lparr>ps_subs := removeAll a (ps_subs sess)\<rparr>)
                    in h\<lparr>ph_sessions := AList.update sessionID sess' (ph_sessions h),
                         ph_log := ph_log h @ calls\<rparr>))
     in h'\<lparr>ph_heap := heap_mod {a} subscriber_close (ph_heap h')\<rparr>)"

definition owned_by :: "string \<Rightarrow> paneHub \<Rightarrow> nat \<Rightarrow> bool" where
  "owned_by deviceID h a =
     (case map_of (ph_heap h) a of None \<Rightarrow> False | Some s \<Rightarrow> su_deviceID s = deviceID)"

definition pane_dropDevice :: "string \<Rightarrow> paneHub \<Rightarrow> paneHub" where
  "pane_dropDevice deviceID h =
    (let swept = map (\<lambda>(sid, sess). (sid, closeIfUnwatchedLocked (ph_source h) sid
                   (sess\<lparr>ps_subs := filter (\<lambda>a. \<not> owned_by deviceID h a) (ps_subs sess)\<rparr>)))
                 (ph_sessions h);
         doomed = concat (map (\<lambda>(sid, sess). filter (owned_by deviceID h) (ps_subs sess)) (ph_sessions h))
     in h\<lparr>ph_sessions := map (\<lambda>(sid, r). (sid, fst r)) swept,
          ph_log := ph_log h @ concat (map (\<lambda>(sid, r). snd r) swept),
          ph_heap := heap_mod (set doomed) subscriber_close (ph_heap h)\<rparr>)"

definition pane_recv :: "nat \<Rightarrow> paneHub \<Rightarrow> paneFrameMsg option \<times> paneHub" where
  "pane_recv a h =
    (case map_of (ph_heap h) a of
       None \<Rightarrow> (None, h)
     | Some s \<Rightarrow>
         (let (f, buf) = try_recv (su_updates s)
          in (f, h\<lparr>ph_heap := heap_mod {a} (\<lambda>s. s\<lparr>su_updates := buf\<rparr>) (ph_heap h)\<rparr>)))"

datatype pane_op =
    PPublish string PaneFrame
  | PSubscribe string string bool
  | PUnsubscribe string nat
  | PDropDevice string
  | PRecv nat

fun pane_next :: "pane_op \<Rightarrow> paneHub \<Rightarrow> paneHub" where
  "pane_next (PPublish sid f) h = pane_publish sid f h"
| "pane_next (PSubscribe dev sid fails) h = snd (pane_subscribe dev sid fails h)"
| "pane_next (PUnsubscribe sid a) h = pane_unsubscribe sid a h"
| "pane_next (PDropDevice dev) h = pane_dropDevice dev h"
| "pane_next (PRecv a) h = snd (pane_recv a h)"

text \<open>A stream unsubscribes from the session it subscribed to: \<^verbatim>\<open>WatchPane\<close> defers the call with the
  id and the subscriber it got. Sequences of operations below respect that.\<close>

fun pane_ok :: "pane_op \<Rightarrow> paneHub \<Rightarrow> bool" where
  "pane_ok (PUnsubscribe sid a) h = list_all (\<lambda>(sid', s). a \<in> set (ps_subs s) \<longrightarrow> sid' = sid) (ph_sessions h)"
| "pane_ok op h = True"

definition pane_act :: "pane_op \<Rightarrow> paneHub \<Rightarrow> paneHub" where
  "pane_act op h = (if pane_ok op h then pane_next op h else h)"

definition pane_step :: "nat \<Rightarrow> pane_op \<Rightarrow> paneHub \<Rightarrow> paneFrameMsg option \<times> paneHub" where
  "pane_step w op h = ((if op = PRecv w then fst (pane_recv w h) else None), pane_act op h)"

section \<open>The source's contract\<close>

text \<open>What a source may rely on, as a monitor of the calls made to it: \<^verbatim>\<open>Open\<close> only on a session that
  is not open, \<^verbatim>\<open>Close\<close> only on one that is. The state is the set of open sessions, or \<open>None\<close> after
  a violation.\<close>

fun src_step :: "source_call \<Rightarrow> (string \<Rightarrow> bool) option \<Rightarrow> (string \<Rightarrow> bool) option" where
  "src_step c None = None"
| "src_step (SrcOpen s ok) (Some f) = (if f s then None else Some (f(s := ok)))"
| "src_step (SrcClose s) (Some f) = (if f s then Some (f(s := False)) else None)"

definition src_trace :: "source_call list \<Rightarrow> (string \<Rightarrow> bool) option" where
  "src_trace log = fold src_step log (Some (\<lambda>s. False))"

definition watchers :: "paneHub \<Rightarrow> string \<Rightarrow> nat set" where
  "watchers h sid = set (ps_subs (session_at (ph_sessions h) sid))"

definition is_open :: "paneHub \<Rightarrow> string \<Rightarrow> bool" where
  "is_open h sid = ps_open (session_at (ph_sessions h) sid)"

definition retained :: "paneHub \<Rightarrow> string \<Rightarrow> paneFrameMsg option" where
  "retained h sid = ps_current (session_at (ph_sessions h) sid)"

definition pane_seq :: "paneHub \<Rightarrow> string \<Rightarrow> u64" where
  "pane_seq h sid = ps_seq (session_at (ph_sessions h) sid)"

definition pane_pending :: "nat \<Rightarrow> paneHub \<Rightarrow> paneFrameMsg list" where
  "pane_pending w h = (case map_of (ph_heap h) w of None \<Rightarrow> [] | Some s \<Rightarrow> su_updates s)"

lemmas pane_views = watchers_def is_open_def retained_def pane_seq_def

section \<open>Invariant\<close>

text \<open>
  With a source, a session is open exactly while it is watched, and an unwatched session retains
  no frame; the retained frame carries the session's number; the heap is in order for the
  watchers of all sessions, who are different for different sessions; a watcher has nothing
  pending or the retained frame; and the source has seen a legal sequence of calls that left
  exactly the open sessions open.
\<close>

definition pane_wf :: "paneHub \<Rightarrow> bool" where
  "pane_wf h \<longleftrightarrow> distinct (gokeys (ph_sessions h))
     \<and> (\<forall>sid. is_open h sid \<longleftrightarrow> ph_source h \<and> watchers h sid \<noteq> {})
     \<and> (\<forall>sid. ph_source h \<and> watchers h sid = {} \<longrightarrow> retained h sid = None)
     \<and> (\<forall>sid m. retained h sid = Some m \<longrightarrow> mf_seq m = pane_seq h sid)
     \<and> fan_wf (\<Union>sid. watchers h sid) (ph_heap h) (ph_next h)
     \<and> (\<forall>sid sid' a. a \<in> watchers h sid \<longrightarrow> a \<in> watchers h sid' \<longrightarrow> sid = sid')
     \<and> (\<forall>sid. \<forall>a \<in> watchers h sid. \<forall>m \<in> set (pane_pending a h). retained h sid = Some m)
     \<and> src_trace (ph_log h) = Some (is_open h)"

lemma session_at_simps [simp]:
  "session_at [] sid = new_paneSession"
  "session_at (AList.update sid' s m) sid = (if sid = sid' then s else session_at m sid)"
  by (simp_all add: session_at_def)

lemma new_paneSession_simps [simp]:
  "ps_subs new_paneSession = []" "ps_open new_paneSession = False"
  "ps_current new_paneSession = None" "ps_seq new_paneSession = 0"
  by (simp_all add: new_paneSession_def)

lemma pane_wf_new: "pane_wf (newPaneHub src)"
  by (simp add: pane_wf_def newPaneHub_def pane_views src_trace_def fun_eq_iff)

lemma pane_wf_parts:
  assumes "pane_wf h"
  shows "distinct (gokeys (ph_sessions h))"
    and "is_open h sid \<longleftrightarrow> ph_source h \<and> watchers h sid \<noteq> {}"
    and "ph_source h \<Longrightarrow> watchers h sid = {} \<Longrightarrow> retained h sid = None"
    and "retained h sid = Some m \<Longrightarrow> mf_seq m = pane_seq h sid"
    and "fan_wf (\<Union>sid. watchers h sid) (ph_heap h) (ph_next h)"
    and "a \<in> watchers h sid \<Longrightarrow> a \<in> watchers h sid' \<Longrightarrow> sid = sid'"
    and "a \<in> watchers h sid \<Longrightarrow> m \<in> set (pane_pending a h) \<Longrightarrow> retained h sid = Some m"
    and "src_trace (ph_log h) = Some (is_open h)"
  using assms unfolding pane_wf_def by blast+

lemma src_trace_append: "src_trace (log @ cs) = fold src_step cs (src_trace log)"
  by (simp add: src_trace_def)

lemma pane_publish_eq:
  "pane_publish sid f h =
    (if watchers h sid = {} then h
     else let msg = \<lparr>mf_frame = PaneFrame_Clamp f, mf_seq = pane_seq h sid + 1\<rparr> in
       h\<lparr>ph_sessions := AList.update sid ((session_at (ph_sessions h) sid)\<lparr>ps_seq := pane_seq h sid + 1, ps_current := Some msg\<rparr>)
            (ph_sessions h),
         ph_heap := heap_mod (watchers h sid) (su_offer msg) (ph_heap h)\<rparr>)"
  by (simp add: pane_publish_def Let_def pane_views session_at_def split: option.split)

lemma pane_publish_views:
  fixes h :: paneHub and sid :: string and f :: PaneFrame
  assumes "watchers h sid \<noteq> {}"
  defines "h' \<equiv> pane_publish sid f h"
    and "msg \<equiv> \<lparr>mf_frame = PaneFrame_Clamp f, mf_seq = pane_seq h sid + 1\<rparr>"
  shows "watchers h' = watchers h" "is_open h' = is_open h"
    "retained h' = (retained h)(sid := Some msg)" "pane_seq h' = (pane_seq h)(sid := pane_seq h sid + 1)"
    "ph_heap h' = heap_mod (watchers h sid) (su_offer msg) (ph_heap h)"
    "ph_next h' = ph_next h" "ph_log h' = ph_log h" "ph_source h' = ph_source h"
    "distinct (gokeys (ph_sessions h)) \<Longrightarrow> distinct (gokeys (ph_sessions h'))"
  using assms(1)
  by (simp_all add: h'_def msg_def pane_publish_eq Let_def pane_views fun_eq_iff wf_intros)

lemma pane_wf_publish:
  assumes wf: "pane_wf h"
  shows "pane_wf (pane_publish sid f h)"
proof (cases "watchers h sid = {}")
  case True
  then show ?thesis using wf by (simp add: pane_publish_eq)
next
  case False
  note v = pane_publish_views [OF False, of f]
  have fw: "fan_wf (\<Union>sid. watchers h sid) (ph_heap h) (ph_next h)" using wf by (simp add: pane_wf_def)
  have fan: "fan_wf (\<Union>sid. watchers h sid) (ph_heap (pane_publish sid f h)) (ph_next h)"
    unfolding v(5) by (rule fan_wf_buffer [OF fw]) (simp add: offer_eq)
  have new: "a \<in> watchers h sid \<Longrightarrow> pane_pending a (pane_publish sid f h)
      = [\<lparr>mf_frame = PaneFrame_Clamp f, mf_seq = pane_seq h sid + 1\<rparr>]" for a
    using fan_wf_served [OF fw, of a] fan_wf_slot [OF fw, of a]
    by (auto simp: pane_pending_def v(5) offer_eq split: option.split)
  have same: "a \<notin> watchers h sid \<Longrightarrow> pane_pending a (pane_publish sid f h) = pane_pending a h" for a
    by (simp add: pane_pending_def v(5) split: option.split)
  have dis: "sid' \<noteq> sid \<Longrightarrow> a \<in> watchers h sid' \<Longrightarrow> a \<notin> watchers h sid" for a sid'
    using pane_wf_parts(6) [OF wf] by blast
  have pend: "\<forall>sid'. \<forall>a \<in> watchers h sid'. \<forall>m \<in> set (pane_pending a (pane_publish sid f h)).
      retained (pane_publish sid f h) sid' = Some m"
    using wf new same dis unfolding pane_wf_def v(3) by (metis fun_upd_apply list.set_cases list.distinct(1) set_ConsD)
  show ?thesis
    using wf fan pend False v(9) unfolding pane_wf_def v(1-4,6-8) by auto
qed

lemma pane_subscribe_refused:
  assumes "pane_subscribe dev sid fails h = (None, h')"
  shows "watchers h' = watchers h" "is_open h' = is_open h" "retained h' = retained h"
    "pane_seq h' = pane_seq h" "ph_heap h' = ph_heap h" "ph_next h' = ph_next h" "ph_source h' = ph_source h"
    "ph_log h' = ph_log h @ [SrcOpen sid False]" "ph_source h" "\<not> is_open h sid"
    "distinct (gokeys (ph_sessions h)) \<Longrightarrow> distinct (gokeys (ph_sessions h'))"
  using assms unfolding pane_subscribe_def Let_def
  by (auto simp: pane_views fun_eq_iff wf_intros split: if_split_asm)

lemma pane_subscribe_done:
  assumes "pane_subscribe dev sid fails h = (Some (w, opening), h')"
  shows "watchers h' = (watchers h)(sid := insert w (watchers h sid))"
    "is_open h' = (is_open h)(sid := is_open h sid \<or> ph_source h)" "retained h' = retained h"
    "pane_seq h' = pane_seq h" "ph_heap h' = AList.update w (new_subscriber dev) (ph_heap h)"
    "ph_next h' = Suc w" "w = ph_next h" "ph_source h' = ph_source h" "opening = retained h sid"
    "ph_log h' = ph_log h @ (if \<not> is_open h sid \<and> ph_source h then [SrcOpen sid True] else [])"
    "distinct (gokeys (ph_sessions h)) \<Longrightarrow> distinct (gokeys (ph_sessions h'))"
  using assms unfolding pane_subscribe_def Let_def
  by (auto simp: pane_views fun_eq_iff wf_intros split: if_split_asm)

lemma pane_pending_fresh: "fan_wf A (ph_heap h) (ph_next h) \<Longrightarrow> pane_pending (ph_next h) h = []"
  by (auto simp: pane_pending_def fan_wf_def split: option.split)

lemma pane_wf_subscribe:
  assumes wf: "pane_wf h"
  shows "pane_wf (snd (pane_subscribe dev sid fails h))"
proof -
  obtain r h' where s: "pane_subscribe dev sid fails h = (r, h')" by fastforce
  have fw: "fan_wf (\<Union>sid. watchers h sid) (ph_heap h) (ph_next h)" using wf by (simp add: pane_wf_def)
  show ?thesis
  proof (cases r)
    case None
    with s have s: "pane_subscribe dev sid fails h = (None, h')" by simp
    note v = pane_subscribe_refused [OF s]
    have pp: "pane_pending a h' = pane_pending a h" for a by (simp add: pane_pending_def v(5))
    have "src_trace (ph_log h') = Some (is_open h)"
      using wf v(10) by (simp add: v(8) src_trace_append pane_wf_def fun_upd_idem)
    then show ?thesis using wf v(11) unfolding s pane_wf_def snd_conv v(1-7) pp by blast
  next
    case (Some p)
    obtain w q where "p = (w, q)" by fastforce
    with s Some have s: "pane_subscribe dev sid fails h = (Some (w, q), h')" by simp
    note v = pane_subscribe_done [OF s]
    have un: "(\<Union>x. ((watchers h)(sid := insert w (watchers h sid))) x) = insert w (\<Union>x. watchers h x)"
      by (auto split: if_split_asm)
    have fan: "fan_wf (\<Union>x. watchers h' x) (ph_heap h') (ph_next h')"
      unfolding v(1,5,6) un using fan_wf_alloc [OF fw] v(7) by simp
    have fresh: "w \<notin> watchers h x" for x
      using fw v(7) by (force simp: fan_wf_def)
    have pp: "pane_pending a h' = (if a = w then [] else pane_pending a h)" for a
      by (simp add: pane_pending_def v(5))
    have tr: "src_trace (ph_log h') = Some (is_open h')"
      using wf by (auto simp: v(2,10) src_trace_append pane_wf_def fun_upd_idem)
    have "distinct (gokeys (ph_sessions h'))" using wf v(11) by (simp add: pane_wf_def)
    moreover have "is_open h' x \<longleftrightarrow> ph_source h' \<and> watchers h' x \<noteq> {}" for x
      using wf by (auto simp: v(1,2,8) pane_wf_def)
    moreover have "ph_source h' \<and> watchers h' x = {} \<longrightarrow> retained h' x = None" for x
      using wf by (auto simp: v(1,3,8) pane_wf_def)
    moreover have "retained h' x = Some m \<longrightarrow> mf_seq m = pane_seq h' x" for x m
      using wf by (auto simp: v(3,4) pane_wf_def)
    moreover have "a \<in> watchers h' x \<longrightarrow> a \<in> watchers h' y \<longrightarrow> x = y" for x y a
      using wf fresh by (auto simp: v(1) pane_wf_def)
    moreover have "\<forall>a \<in> watchers h' x. \<forall>m \<in> set (pane_pending a h'). retained h' x = Some m" for x
      using wf by (auto simp: v(1,3) pp pane_wf_def)
    ultimately show ?thesis using fan tr unfolding s snd_conv pane_wf_def by blast
  qed
qed

text \<open>Unsubscribing and dropping a device both take watchers away and close them.\<close>

lemma pane_wf_shrink:
  assumes wf: "pane_wf h"
    and w: "\<And>x. watchers h' x = watchers h x - B"
    and o: "\<And>x. is_open h' x \<longleftrightarrow> is_open h x \<and> watchers h' x \<noteq> {}"
    and r: "\<And>x. retained h' x = (if is_open h x \<and> watchers h' x = {} then None else retained h x)"
    and q: "pane_seq h' = pane_seq h" "ph_next h' = ph_next h" "ph_source h' = ph_source h"
    and hp: "ph_heap h' = heap_mod B subscriber_close (ph_heap h)"
    and lg: "ph_log h' = ph_log h @ cs" "fold src_step cs (Some (is_open h)) = Some (is_open h')"
    and d: "distinct (gokeys (ph_sessions h'))"
  shows "pane_wf h'"
proof -
  note p = pane_wf_parts [OF wf]
  have un: "(\<Union>x. watchers h' x) = (\<Union>x. watchers h x) - B" using w by blast
  have fan: "fan_wf (\<Union>x. watchers h' x) (ph_heap h') (ph_next h')"
    unfolding un hp q(2) by (rule fan_wf_close) (rule p(5))
  have pp: "pane_pending a h' = pane_pending a h" for a
    by (simp add: pane_pending_def hp split: option.split)
  have tr: "src_trace (ph_log h') = Some (is_open h')"
    using lg p(8) by (simp add: src_trace_append)
  have "is_open h' x \<longleftrightarrow> ph_source h' \<and> watchers h' x \<noteq> {}" for x
    using o w q(3) p(2) by blast
  moreover have "ph_source h' \<and> watchers h' x = {} \<longrightarrow> retained h' x = None" for x
    using r p(2,3) q(3) by simp
  moreover have "retained h' x = Some m \<longrightarrow> mf_seq m = pane_seq h' x" for x m
    using r p(4) q(1) by (simp split: if_split)
  moreover have "a \<in> watchers h' x \<longrightarrow> a \<in> watchers h' y \<longrightarrow> x = y" for x y a
    using w p(6) by blast
  moreover have "\<forall>a \<in> watchers h' x. \<forall>m \<in> set (pane_pending a h'). retained h' x = Some m" for x
    using w r p(7) pp by auto
  ultimately show ?thesis using fan tr d unfolding pane_wf_def by blast
qed

lemma closeIfUnwatched_simps:
  "ps_subs (fst (closeIfUnwatchedLocked src sid s)) = ps_subs s"
  "ps_seq (fst (closeIfUnwatchedLocked src sid s)) = ps_seq s"
  "ps_open (fst (closeIfUnwatchedLocked src sid s)) \<longleftrightarrow> ps_open s \<and> ps_subs s \<noteq> []"
  "ps_current (fst (closeIfUnwatchedLocked src sid s)) =
     (if ps_open s \<and> ps_subs s = [] then None else ps_current s)"
  "snd (closeIfUnwatchedLocked src sid s) = (if ps_open s \<and> ps_subs s = [] \<and> src then [SrcClose sid] else [])"
  by (auto simp: closeIfUnwatchedLocked_def)

lemma removeAll_Nil: "removeAll a xs = [] \<longleftrightarrow> set xs \<subseteq> {a}"
  by (metis Diff_eq_empty_iff set_empty set_removeAll)

lemma pane_ok_unsubscribe:
  "pane_wf h \<Longrightarrow> pane_ok (PUnsubscribe sid a) h \<Longrightarrow> a \<in> watchers h x \<Longrightarrow> x = sid"
  by (auto simp: list_all_iff watchers_def session_at_def split: option.split_asm dest!: map_of_SomeD)

lemma pane_unsubscribe_eq:
  assumes "map_of (ph_sessions h) sid = Some sess"
  shows "pane_unsubscribe sid a h =
    (let r = closeIfUnwatchedLocked (ph_source h) sid (sess\<lparr>ps_subs := removeAll a (ps_subs sess)\<rparr>) in
     h\<lparr>ph_sessions := AList.update sid (fst r) (ph_sessions h), ph_log := ph_log h @ snd r,
       ph_heap := heap_mod {a} subscriber_close (ph_heap h)\<rparr>)"
  using assms by (simp add: pane_unsubscribe_def Let_def split: prod.split)

lemma pane_wf_unsubscribe:
  assumes wf: "pane_wf h" and ok: "pane_ok (PUnsubscribe sid a) h"
  shows "pane_wf (pane_unsubscribe sid a h)"
proof (cases "map_of (ph_sessions h) sid")
  case None
  then have e: "watchers h sid = {}" by (simp add: watchers_def session_at_def)
  have no: "a \<notin> watchers h x" for x using pane_ok_unsubscribe [OF wf ok, of x] e by auto
  show ?thesis
    by (rule pane_wf_shrink [OF wf, where B = "{a}" and cs = "[]"])
      (use None no pane_wf_parts(1,2) [OF wf] in
        \<open>auto simp: pane_unsubscribe_def pane_views fun_eq_iff Let_def\<close>)
next
  case (Some sess)
  have at: "session_at (ph_sessions h) sid = sess" using Some by (simp add: session_at_def)
  define s' where "s' = sess\<lparr>ps_subs := removeAll a (ps_subs sess)\<rparr>"
  define r where "r = closeIfUnwatchedLocked (ph_source h) sid s'"
  have h': "pane_unsubscribe sid a h = h\<lparr>ph_sessions := AList.update sid (fst r) (ph_sessions h),
      ph_log := ph_log h @ snd r, ph_heap := heap_mod {a} subscriber_close (ph_heap h)\<rparr>"
    using pane_unsubscribe_eq [OF Some] by (simp add: r_def s'_def Let_def)
  have others: "x \<noteq> sid \<Longrightarrow> a \<notin> watchers h x" for x using pane_ok_unsubscribe [OF wf ok, of x] by auto
  have src: "ps_open sess \<Longrightarrow> ph_source h"
    using pane_wf_parts(2) [OF wf, of sid] at by (simp add: is_open_def)
  have open_iff: "is_open h x \<Longrightarrow> watchers h x \<noteq> {}" for x using pane_wf_parts(2) [OF wf] by blast
  show ?thesis
  proof (rule pane_wf_shrink [OF wf, where B = "{a}" and cs = "snd r"])
    show "watchers (pane_unsubscribe sid a h) x = watchers h x - {a}" for x
      using others [of x] at by (auto simp: h' watchers_def r_def s'_def closeIfUnwatched_simps)
    show "is_open (pane_unsubscribe sid a h) x
        \<longleftrightarrow> is_open h x \<and> watchers (pane_unsubscribe sid a h) x \<noteq> {}" for x
      using at open_iff [of x] by (auto simp: h' watchers_def is_open_def r_def s'_def closeIfUnwatched_simps)
    show "retained (pane_unsubscribe sid a h) x =
        (if is_open h x \<and> watchers (pane_unsubscribe sid a h) x = {} then None else retained h x)" for x
      using at open_iff [of x] by (auto simp: h' watchers_def is_open_def retained_def r_def s'_def closeIfUnwatched_simps)
    show "pane_seq (pane_unsubscribe sid a h) = pane_seq h"
      using at by (auto simp: h' pane_seq_def fun_eq_iff r_def s'_def closeIfUnwatched_simps)
    show "fold src_step (snd r) (Some (is_open h)) = Some (is_open (pane_unsubscribe sid a h))"
      using at src by (auto simp: h' is_open_def fun_eq_iff r_def s'_def closeIfUnwatched_simps)
    show "distinct (gokeys (ph_sessions (pane_unsubscribe sid a h)))"
      using pane_wf_parts(1) [OF wf] by (simp add: h' wf_intros)
  qed (simp_all add: h')
qed

lemma fold_closes:
  assumes "distinct (gokeys m)" and "\<And>x s. (x, s) \<in> set m \<Longrightarrow> c x s \<Longrightarrow> f x"
  shows "fold src_step (concat (map (\<lambda>(x, s). if c x s then [SrcClose x] else []) m)) (Some f)
    = Some (\<lambda>x. f x \<and> (case map_of m x of None \<Rightarrow> True | Some s \<Rightarrow> \<not> c x s))"
  using assms
proof (induction m arbitrary: f)
  case (Cons e m)
  obtain x s where e: "e = (x, s)" by (cases e)
  have x: "map_of m x = None" using Cons.prems(1) e by (simp add: map_of_eq_None_iff)
  have nin: "(y, r) \<in> set m \<Longrightarrow> y \<noteq> x" for y r using Cons.prems(1) e by force
  show ?case
  proof (cases "c x s")
    case True
    then have "f x" using Cons.prems(2) [of x s] e by simp
    have "fold src_step (concat (map (\<lambda>(x, s). if c x s then [SrcClose x] else []) m)) (Some (f(x := False)))
      = Some (\<lambda>y. (f(x := False)) y \<and> (case map_of m y of None \<Rightarrow> True | Some s \<Rightarrow> \<not> c y s))"
      using Cons.prems nin by (intro Cons.IH) (auto simp: e)
    then show ?thesis using True \<open>f x\<close> x by (auto simp: e fun_eq_iff)
  next
    case False
    have "fold src_step (concat (map (\<lambda>(x, s). if c x s then [SrcClose x] else []) m)) (Some f)
      = Some (\<lambda>y. f y \<and> (case map_of m y of None \<Rightarrow> True | Some s \<Rightarrow> \<not> c y s))"
      using Cons.prems by (intro Cons.IH) (auto simp: e)
    then show ?thesis using False x by (auto simp: e fun_eq_iff)
  qed
qed simp

definition swept :: "string \<Rightarrow> paneHub \<Rightarrow> string \<Rightarrow> paneSession \<Rightarrow> paneSession" where
  "swept dev h sid sess = fst (closeIfUnwatchedLocked (ph_source h) sid
     (sess\<lparr>ps_subs := filter (\<lambda>a. \<not> owned_by dev h a) (ps_subs sess)\<rparr>))"

lemma swept_simps:
  "ps_subs (swept dev h sid s) = filter (\<lambda>a. \<not> owned_by dev h a) (ps_subs s)"
  "ps_seq (swept dev h sid s) = ps_seq s"
  "ps_open (swept dev h sid s) \<longleftrightarrow> ps_open s \<and> filter (\<lambda>a. \<not> owned_by dev h a) (ps_subs s) \<noteq> []"
  "ps_current (swept dev h sid s) =
     (if ps_open s \<and> filter (\<lambda>a. \<not> owned_by dev h a) (ps_subs s) = [] then None else ps_current s)"
  by (simp_all add: swept_def closeIfUnwatched_simps)

lemma swept_new: "swept dev h sid new_paneSession = new_paneSession"
  by (simp add: swept_def closeIfUnwatchedLocked_def new_paneSession_def)

lemma session_at_drop:
  "session_at (ph_sessions (pane_dropDevice dev h)) x = swept dev h x (session_at (ph_sessions h) x)"
proof -
  have "ph_sessions (pane_dropDevice dev h) = map (\<lambda>(sid, s). (sid, swept dev h sid s)) (ph_sessions h)"
    by (auto simp: pane_dropDevice_def Let_def swept_def)
  then show ?thesis by (simp add: session_at_def map_of_map_snd swept_new split: option.split)
qed

definition doomed :: "string \<Rightarrow> paneHub \<Rightarrow> nat set" where
  "doomed dev h = {a. owned_by dev h a \<and> (\<exists>x. a \<in> watchers h x)}"

lemma doomed_eq:
  assumes "distinct (gokeys (ph_sessions h))"
  shows "set (concat (map (\<lambda>(sid, sess). filter (owned_by dev h) (ps_subs sess)) (ph_sessions h))) = doomed dev h"
proof -
  have "(x, s) \<in> set (ph_sessions h) \<Longrightarrow> session_at (ph_sessions h) x = s" for x s
    using assms by (simp add: session_at_def)
  moreover have "a \<in> watchers h x \<Longrightarrow> \<exists>s. (x, s) \<in> set (ph_sessions h) \<and> a \<in> set (ps_subs s)" for a x
    by (auto simp: watchers_def session_at_def dest: map_of_SomeD split: option.split_asm)
  ultimately show ?thesis by (fastforce simp: doomed_def watchers_def)
qed

lemma pane_wf_dropDevice:
  assumes wf: "pane_wf h"
  shows "pane_wf (pane_dropDevice dev h)"
proof -
  let ?h = "pane_dropDevice dev h"
  let ?c = "\<lambda>x s. ps_open s \<and> filter (\<lambda>a. \<not> owned_by dev h a) (ps_subs s) = [] \<and> ph_source h"
  note d = pane_wf_parts(1) [OF wf]
  have at: "(x, s) \<in> set (ph_sessions h) \<Longrightarrow> session_at (ph_sessions h) x = s" for x s
    using d by (simp add: session_at_def)
  have src: "is_open h x \<Longrightarrow> ph_source h" for x using pane_wf_parts(2) [OF wf] by blast
  have lg: "ph_log ?h = ph_log h @ concat (map (\<lambda>(x, s). if ?c x s then [SrcClose x] else []) (ph_sessions h))"
    by (simp add: pane_dropDevice_def Let_def closeIfUnwatched_simps comp_def case_prod_unfold)
  have w: "watchers ?h x = watchers h x - doomed dev h" for x
    by (auto simp: watchers_def session_at_drop swept_simps doomed_def)
  have e: "filter (\<lambda>a. \<not> owned_by dev h a) (ps_subs (session_at (ph_sessions h) x)) = [] \<longleftrightarrow> watchers ?h x = {}" for x
    by (auto simp: watchers_def session_at_drop swept_simps filter_empty_conv)
  have o: "is_open ?h x \<longleftrightarrow> is_open h x \<and> watchers ?h x \<noteq> {}" for x
    by (simp add: is_open_def session_at_drop swept_simps(3) e)
  have tr: "fold src_step (concat (map (\<lambda>(x, s). if ?c x s then [SrcClose x] else []) (ph_sessions h)))
      (Some (is_open h)) = Some (is_open ?h)"
  proof -
    have "is_open h x \<and> (case map_of (ph_sessions h) x of None \<Rightarrow> True | Some s \<Rightarrow> \<not> ?c x s) \<longleftrightarrow> is_open ?h x" for x
      using src [of x] e [of x] o [of x] by (auto simp: is_open_def session_at_def split: option.split_asm option.split)
    then show ?thesis using fold_closes [OF d, of ?c "is_open h"] at by (auto simp: is_open_def fun_eq_iff)
  qed
  show ?thesis
  proof (rule pane_wf_shrink [OF wf w o _ _ _ _ _ lg tr])
    show "retained ?h x = (if is_open h x \<and> watchers ?h x = {} then None else retained h x)" for x
      by (simp add: retained_def is_open_def session_at_drop swept_simps(4) e)
    show "pane_seq ?h = pane_seq h" by (simp add: pane_seq_def session_at_drop swept_simps fun_eq_iff)
    show "ph_heap ?h = heap_mod (doomed dev h) subscriber_close (ph_heap h)"
      using doomed_eq [OF d] by (simp add: pane_dropDevice_def Let_def)
    show "distinct (gokeys (ph_sessions ?h))"
      using d by (simp add: pane_dropDevice_def Let_def comp_def case_prod_beta)
  qed (simp_all add: pane_dropDevice_def Let_def)
qed

lemma pane_recv_eq:
  "pane_recv a h = (case pane_pending a h of [] \<Rightarrow> None | f # _ \<Rightarrow> Some f,
     h\<lparr>ph_heap := (case map_of (ph_heap h) a of None \<Rightarrow> ph_heap h
        | Some s \<Rightarrow> heap_mod {a} (\<lambda>s'. s'\<lparr>su_updates := snd (try_recv (su_updates s))\<rparr>) (ph_heap h))\<rparr>)"
  by (auto simp: pane_recv_def pane_pending_def try_recv_def split: option.split list.split prod.split)

lemma pane_recv_fst: "fst (pane_recv a h) = (case pane_pending a h of [] \<Rightarrow> None | f # _ \<Rightarrow> Some f)"
  by (simp add: pane_recv_eq)

lemma pane_recv_same [simp]:
  "watchers (snd (pane_recv a h)) = watchers h" "is_open (snd (pane_recv a h)) = is_open h"
  "retained (snd (pane_recv a h)) = retained h" "pane_seq (snd (pane_recv a h)) = pane_seq h"
  "ph_next (snd (pane_recv a h)) = ph_next h" "ph_source (snd (pane_recv a h)) = ph_source h"
  "ph_log (snd (pane_recv a h)) = ph_log h" "ph_sessions (snd (pane_recv a h)) = ph_sessions h"
  by (auto simp: pane_recv_eq pane_views fun_eq_iff)

lemma pane_recv_pending:
  assumes "pane_wf h"
  shows "pane_pending w (snd (pane_recv a h)) = (if w = a then [] else pane_pending w h)"
proof (cases "map_of (ph_heap h) a")
  case (Some s)
  have "length (su_updates s) \<le> 1" by (rule fan_wf_slot [OF pane_wf_parts(5) [OF assms] Some])
  then show ?thesis using Some
    by (cases "su_updates s") (auto simp: pane_recv_eq pane_pending_def try_recv_def split: option.split)
qed (simp add: pane_recv_eq pane_pending_def)

lemma pane_wf_recv:
  assumes wf: "pane_wf h"
  shows "pane_wf (snd (pane_recv a h))"
proof -
  have fan: "fan_wf (\<Union>sid. watchers h sid) (ph_heap (snd (pane_recv a h))) (ph_next h)"
  proof (cases "map_of (ph_heap h) a")
    case (Some s)
    have "length (su_updates s) \<le> 1" by (rule fan_wf_slot [OF pane_wf_parts(5) [OF wf] Some])
    then have "snd (try_recv (su_updates s)) = []" by (cases "su_updates s") (simp_all add: try_recv_def)
    then show ?thesis using Some fan_wf_buffer [OF pane_wf_parts(5) [OF wf], of "\<lambda>b. []" "{a}"]
      by (simp add: pane_recv_eq)
  qed (use pane_wf_parts(5) [OF wf] in \<open>simp add: pane_recv_eq\<close>)
  then show ?thesis using wf unfolding pane_wf_def
    by (simp add: pane_recv_pending [OF wf])
qed

lemma pane_wf_act [wf_intros]: "pane_wf h \<Longrightarrow> pane_wf (pane_act op h)"
  by (cases op) (simp_all add: pane_act_def pane_wf_publish pane_wf_subscribe pane_wf_dropDevice
      pane_wf_recv pane_wf_unsubscribe del: pane_ok.simps)

lemma pane_reach: "pane_wf (fold pane_act ops (newPaneHub src))"
proof -
  have "pane_wf h \<Longrightarrow> pane_wf (fold pane_act ops h)" for h
    by (induction ops arbitrary: h) (simp_all add: wf_intros)
  then show ?thesis by (simp add: pane_wf_new)
qed

section \<open>One watcher's view\<close>

definition pane_good :: "string \<Rightarrow> nat \<Rightarrow> paneHub \<Rightarrow> bool" where
  "pane_good sid w h \<longleftrightarrow> pane_wf h \<and> w < ph_next h \<and> (\<forall>x. w \<in> watchers h x \<longrightarrow> x = sid)
     \<and> list_all (\<lambda>m. mf_seq m \<le> pane_seq h sid) (pane_pending w h)"

lemma pane_goodI:
  "pane_wf h \<Longrightarrow> w < ph_next h \<Longrightarrow> (\<And>x. w \<in> watchers h x \<Longrightarrow> x = sid) \<Longrightarrow>
   (\<And>m. m \<in> set (pane_pending w h) \<Longrightarrow> mf_seq m \<le> pane_seq h sid) \<Longrightarrow> pane_good sid w h"
  by (simp add: pane_good_def list_all_iff)

lemma pane_good_parts:
  assumes "pane_good sid w h"
  shows "pane_wf h" "w < ph_next h" "w \<in> watchers h x \<Longrightarrow> x = sid"
    "m \<in> set (pane_pending w h) \<Longrightarrow> mf_seq m \<le> pane_seq h sid"
  using assms by (auto simp: pane_good_def list_all_iff)

lemma pane_watched_pending:
  assumes "pane_wf h" and "w \<in> watchers h x"
  shows "pane_pending w (pane_publish x f h) = [\<lparr>mf_frame = PaneFrame_Clamp f, mf_seq = pane_seq h x + 1\<rparr>]"
proof -
  have ne: "watchers h x \<noteq> {}" using assms(2) by auto
  obtain s where "map_of (ph_heap h) w = Some s"
    using fan_wf_served [OF pane_wf_parts(5) [OF assms(1)], of w] assms(2) by auto
  moreover have "length (su_updates s) \<le> 1"
    by (rule fan_wf_slot [OF pane_wf_parts(5) [OF assms(1)] calculation])
  ultimately show ?thesis using assms(2)
    by (simp add: pane_pending_def pane_publish_views(5) [OF ne] offer_eq)
qed

lemma pane_unwatched_pending:
  "w \<notin> watchers h x \<Longrightarrow> pane_pending w (pane_publish x f h) = pane_pending w h"
  by (auto simp: pane_publish_eq Let_def pane_pending_def split: option.split)

lemma pane_publish_seq:
  "pane_seq (pane_publish x f h) =
     (if watchers h x = {} then pane_seq h else (pane_seq h)(x := pane_seq h x + 1))"
  using pane_publish_views(4) [of h x f] by (simp add: pane_publish_eq)

lemma pane_unsubscribe_parts:
  "pane_pending w (pane_unsubscribe x a h) = pane_pending w h"
  "pane_seq (pane_unsubscribe x a h) = pane_seq h"
  "ph_next (pane_unsubscribe x a h) = ph_next h"
  "w \<in> watchers (pane_unsubscribe x a h) y \<Longrightarrow> w \<in> watchers h y"
proof -
  have "pane_pending w (pane_unsubscribe x a h) = pane_pending w h
    \<and> pane_seq (pane_unsubscribe x a h) = pane_seq h \<and> ph_next (pane_unsubscribe x a h) = ph_next h
    \<and> watchers (pane_unsubscribe x a h) y \<subseteq> watchers h y"
  proof (cases "map_of (ph_sessions h) x")
    case None
    then show ?thesis
      by (simp add: pane_unsubscribe_def Let_def pane_pending_def pane_views fun_eq_iff split: option.split)
  next
    case (Some s)
    then show ?thesis
      by (auto simp: pane_unsubscribe_eq Let_def pane_pending_def pane_seq_def watchers_def fun_eq_iff
          closeIfUnwatched_simps session_at_def split: option.split)
  qed
  then show "pane_pending w (pane_unsubscribe x a h) = pane_pending w h"
    "pane_seq (pane_unsubscribe x a h) = pane_seq h" "ph_next (pane_unsubscribe x a h) = ph_next h"
    "w \<in> watchers (pane_unsubscribe x a h) y \<Longrightarrow> w \<in> watchers h y" by auto
qed

lemma pane_dropDevice_parts:
  "pane_pending w (pane_dropDevice dev h) = pane_pending w h"
  "pane_seq (pane_dropDevice dev h) = pane_seq h"
  "ph_next (pane_dropDevice dev h) = ph_next h"
  "w \<in> watchers (pane_dropDevice dev h) y \<Longrightarrow> w \<in> watchers h y"
proof -
  show "pane_pending w (pane_dropDevice dev h) = pane_pending w h" "ph_next (pane_dropDevice dev h) = ph_next h"
    by (simp_all add: pane_pending_def pane_dropDevice_def Let_def split: option.split)
  show "pane_seq (pane_dropDevice dev h) = pane_seq h"
    by (simp add: pane_seq_def session_at_drop swept_simps fun_eq_iff)
  show "w \<in> watchers (pane_dropDevice dev h) y \<Longrightarrow> w \<in> watchers h y"
    by (simp add: watchers_def session_at_drop swept_simps)
qed

lemma pane_other_ops:
  assumes "pane_wf h" and "w < ph_next h" and "\<And>x f. op \<noteq> PPublish x f" and "\<And>a. op \<noteq> PRecv a"
  shows "pane_pending w (pane_act op h) = pane_pending w h \<and> pane_seq (pane_act op h) = pane_seq h
    \<and> w < ph_next (pane_act op h) \<and> (\<forall>x. w \<in> watchers (pane_act op h) x \<longrightarrow> w \<in> watchers h x)"
proof (cases op)
  case (PSubscribe dev x fails)
  obtain r h' where s: "pane_subscribe dev x fails h = (r, h')" by fastforce
  show ?thesis
  proof (cases r)
    case None
    then show ?thesis using PSubscribe s assms(2) pane_subscribe_refused [of dev x fails h h']
      by (simp add: pane_act_def pane_pending_def)
  next
    case (Some q)
    then show ?thesis using PSubscribe s assms(2) pane_subscribe_done [of dev x fails h "fst q" "snd q" h']
      by (auto simp: pane_act_def pane_pending_def)
  qed
next
  case (PUnsubscribe x a)
  then show ?thesis using assms(2) pane_unsubscribe_parts(4) [of w x a h]
    by (simp add: pane_act_def pane_unsubscribe_parts(1-3) del: pane_ok.simps)
next
  case (PDropDevice dev)
  then show ?thesis using assms(2) pane_dropDevice_parts(4) [of w dev h]
    by (simp add: pane_act_def pane_dropDevice_parts(1-3))
qed (use assms(3,4) in simp_all)

lemma pane_publish_same:
  "watchers (pane_publish x f h) = watchers h" "ph_next (pane_publish x f h) = ph_next h"
  using pane_publish_views(1,6) [of h x f] by (cases "watchers h x = {}"; simp add: pane_publish_eq)+

lemma pane_good_publish:
  assumes g: "pane_good sid w h" and l: "Suc (unat (pane_seq h sid)) < 2 ^ 64"
  shows "pane_good sid w (pane_publish x f h)"
proof (rule pane_goodI)
  note p = pane_good_parts [OF g]
  show "pane_wf (pane_publish x f h)" by (rule pane_wf_publish) (rule p(1))
  show "w < ph_next (pane_publish x f h)" using p(2) by (simp add: pane_publish_same)
  show "w \<in> watchers (pane_publish x f h) y \<Longrightarrow> y = sid" for y using p(3) by (simp add: pane_publish_same)
  fix m assume m: "m \<in> set (pane_pending w (pane_publish x f h))"
  show "mf_seq m \<le> pane_seq (pane_publish x f h) sid"
  proof (cases "w \<in> watchers h x")
    case True
    then have "x = sid" "watchers h x \<noteq> {}" using p(3) by auto
    then show ?thesis using m pane_watched_pending [OF p(1) True, of f] by (simp add: pane_publish_seq)
  next
    case False
    then have "mf_seq m \<le> pane_seq h sid" using m p(4) pane_unwatched_pending by simp
    then have "mf_seq m \<le> pane_seq h sid + 1" using seq_le_succ [OF l] by (rule order_trans)
    then show ?thesis using \<open>mf_seq m \<le> pane_seq h sid\<close> by (auto simp: pane_publish_seq)
  qed
qed

lemma pane_good_act:
  assumes g: "pane_good sid w h" and l: "Suc (unat (pane_seq h sid)) < 2 ^ 64"
  shows "pane_good sid w (pane_act op h)"
proof -
  note p = pane_good_parts [OF g]
  consider (pub) x f where "op = PPublish x f" | (recv) a where "op = PRecv a"
    | (other) "\<And>x f. op \<noteq> PPublish x f" "\<And>a. op \<noteq> PRecv a" by blast
  then show ?thesis
  proof cases
    case pub
    then show ?thesis using pane_good_publish [OF g l] by (simp add: pane_act_def)
  next
    case recv
    then show ?thesis using p pane_wf_recv [OF p(1), of a]
      by (intro pane_goodI) (auto simp: pane_act_def pane_recv_pending [OF p(1)] split: if_split_asm)
  next
    case other
    note o = pane_other_ops [OF p(1,2) other]
    show ?thesis using p o by (intro pane_goodI) (auto simp: wf_intros)
  qed
qed

interpretation pane_watch: fanout "pane_step w" "\<lambda>m. unat (mf_seq m)" "\<lambda>h. unat (pane_seq h sid)"
  "pane_pending w" "pane_good sid w" "2 ^ 64"
proof
  fix h op and h' :: paneHub and m
  have slot: "pane_wf h \<Longrightarrow> length (pane_pending w h) \<le> 1"
    using fan_wf_slot [OF pane_wf_parts(5), of h w] by (auto simp: pane_pending_def split: option.split)
  show "pane_good sid w h \<Longrightarrow> m \<in> set (pane_pending w h) \<Longrightarrow> unat (mf_seq m) \<le> unat (pane_seq h sid)"
    by (auto simp: pane_good_def list_all_iff word_le_nat_alt)
  show "pane_good sid w h \<Longrightarrow> pane_step w op h = (Some m, h') \<Longrightarrow>
      pane_pending w h = [m] \<and> pane_pending w h' = [] \<and> unat (pane_seq h' sid) = unat (pane_seq h sid)"
    using slot pane_recv_pending [of h w w]
    by (auto simp: pane_step_def pane_act_def pane_good_def pane_recv_fst split: if_split_asm list.split_asm)
  show "pane_good sid w (snd (pane_step w op h))"
    if g: "pane_good sid w h" and l: "Suc (unat (pane_seq h sid)) < 2 ^ 64"
    using pane_good_act [OF g l] by (simp add: pane_step_def)
  show "(pane_pending w h' = pane_pending w h
         \<and> (unat (pane_seq h' sid) = unat (pane_seq h sid) \<or> unat (pane_seq h' sid) = Suc (unat (pane_seq h sid))))
      \<or> (\<exists>m. pane_pending w h' = [m] \<and> unat (mf_seq m) = unat (pane_seq h' sid)
           \<and> unat (pane_seq h' sid) = Suc (unat (pane_seq h sid)))"
    if g: "pane_good sid w h" and s: "pane_step w op h = (None, h')" and l: "Suc (unat (pane_seq h sid)) < 2 ^ 64"
  proof -
    note wf = pane_good_parts(1) [OF g] and nx = pane_good_parts(2) [OF g] and own = pane_good_parts(3) [OF g]
    have h': "h' = pane_act op h" using s by (simp add: pane_step_def)
    consider (pub) x f where "op = PPublish x f" | (recv) a where "op = PRecv a"
      | (other) "\<And>x f. op \<noteq> PPublish x f" "\<And>a. op \<noteq> PRecv a" by blast
    then show ?thesis
    proof cases
      case pub
      show ?thesis
      proof (cases "w \<in> watchers h x")
        case True
        then show ?thesis using h' pub pane_watched_pending [OF wf True, of f] own [OF True] seq_succ [OF l]
          by (simp add: pane_act_def pane_publish_seq) blast
      next
        case False
        then show ?thesis using h' pub pane_unwatched_pending [OF False, of f] seq_succ [OF l]
          by (auto simp: pane_act_def pane_publish_seq)
      qed
    next
      case recv
      then show ?thesis using h' s pane_recv_pending [OF wf, of w a]
        by (auto simp: pane_step_def pane_act_def pane_recv_fst split: list.split_asm if_split_asm)
    next
      case other
      then show ?thesis using h' pane_other_ops [OF wf nx other] by simp
    qed
  qed
qed

section \<open>Properties\<close>

definition demo_pane :: PaneFrame where
  "demo_pane = \<lparr>pf_Cols = 0, pf_Rows = 0, pf_CursorX = 0, pf_CursorY = 0, pf_CursorVisible = False, pf_Lines = []\<rparr>"

text \<open>C31: The source produces exactly while somebody watches. In every state the pane hub can reach
  with a source, a session is open at the source exactly when it has a watcher, an unwatched one
  retains no frame, so the first watcher of a session never opens on stale contents; and the
  calls the source has received form a legal sequence, \<^verbatim>\<open>Open\<close> only when closed and \<^verbatim>\<open>Close\<close> only
  when open, whatever the interleaving of watchers, refusals, drops and publications.\<close>
theorem pane_source_edges:
  assumes "h = fold pane_act ops (newPaneHub True)"
  shows "src_trace (ph_log h) = Some (\<lambda>sid. watchers h sid \<noteq> {})
    \<and> (\<forall>sid. watchers h sid = {} \<longrightarrow> retained h sid = None
        \<and> (\<forall>dev fails. fst (pane_subscribe dev sid fails h) = (if fails then None else Some (ph_next h, None))))
    \<and> (\<forall>sid sid' a. a \<in> watchers h sid \<longrightarrow> a \<in> watchers h sid' \<longrightarrow> sid = sid')"
proof -
  have wf: "pane_wf h" using assms pane_reach by simp
  note p = pane_wf_parts [OF wf]
  have "ph_source (pane_act op g) = ph_source g" for op g
  proof (cases op)
    case (PSubscribe dev sid fails)
    then show ?thesis by (simp add: pane_act_def pane_subscribe_def Let_def)
  next
    case (PUnsubscribe sid a)
    then show ?thesis by (simp add: pane_act_def pane_unsubscribe_def Let_def split: option.split prod.split)
  qed (simp_all add: pane_act_def pane_publish_eq pane_dropDevice_def Let_def)
  then have "ph_source (fold pane_act os g) = ph_source g" for os g
    by (induction os arbitrary: g) simp_all
  then have src: "ph_source h" using assms by (simp add: newPaneHub_def)
  then have o: "is_open h = (\<lambda>sid. watchers h sid \<noteq> {})" using p(2) by (simp add: fun_eq_iff)
  have f: "fst (pane_subscribe dev sid fails h) = (if fails then None else Some (ph_next h, None))"
    if "watchers h sid = {}" for dev sid fails
    using that p(3) [OF src, of sid] o src
    by (simp add: pane_subscribe_def Let_def is_open_def retained_def fun_eq_iff)
  show ?thesis using p(3,6,8) src o f by auto
qed

theorem pane_source_edges_witness:
  "ph_log (fold pane_act [PSubscribe ''a'' ''s'' False, PSubscribe ''b'' ''s'' False, PDropDevice ''a'',
      PUnsubscribe ''s'' 1, PSubscribe ''a'' ''s'' True] (newPaneHub True))
    = [SrcOpen ''s'' True, SrcClose ''s'', SrcOpen ''s'' False]
   \<and> src_trace [SrcOpen ''s'' True, SrcClose ''s'', SrcOpen ''s'' False] \<noteq> None"
proof -
  have l: "ph_log (fold pane_act [PSubscribe ''a'' ''s'' False, PSubscribe ''b'' ''s'' False, PDropDevice ''a'',
      PUnsubscribe ''s'' 1, PSubscribe ''a'' ''s'' True] (newPaneHub True))
    = [SrcOpen ''s'' True, SrcClose ''s'', SrcOpen ''s'' False]"
    by (simp add: pane_act_def newPaneHub_def pane_subscribe_def session_at_def new_paneSession_def
        pane_dropDevice_def pane_unsubscribe_def closeIfUnwatchedLocked_def owned_by_def Let_def
        heap_mod_def new_subscriber_def)
  then show ?thesis using pane_source_edges [OF refl] by (metis option.distinct(1))
qed

text \<open>A pane watcher sees the frames of its session in order, each at most once, clamped and
  starting after its opening frame: the numbers it receives strictly increase and exceed the
  session's number at subscription, whatever happens to other sessions and watchers; and that number
  never restarts while the hub lives, not even when the session loses its last watcher.\<close>
theorem pane_frames_in_order:
  assumes "h = fold pane_act before (newPaneHub src)"
    and "pane_subscribe dev sid fails h = (Some (w, opening), h')"
    and "unat (pane_seq h sid) + length ops < 2 ^ 64"
  defines "got \<equiv> List.map_filter id (outcomes (pane_step w) ops h')"
  shows "sorted_wrt (\<lambda>f g. mf_seq f < mf_seq g) got \<and> (\<forall>m \<in> set got. pane_seq h sid < mf_seq m)
    \<and> opening = retained h sid \<and> (\<forall>m. opening = Some m \<longrightarrow> mf_seq m = pane_seq h sid)
    \<and> pane_seq (pane_unsubscribe sid w h') = pane_seq h'"
proof -
  have wf: "pane_wf h" using assms(1) pane_reach by simp
  note s = pane_subscribe_done [OF assms(2)]
  have wf': "pane_wf h'" using pane_wf_subscribe [OF wf, of dev sid fails] assms(2) by simp
  have fresh: "pane_pending w h' = []" by (simp add: pane_pending_def s(5))
  have "w \<notin> watchers h x" for x
    using fan_wf_served [OF pane_wf_parts(5) [OF wf], of w] pane_wf_parts(5) [OF wf] s(7)
    by (auto simp: fan_wf_def)
  then have g: "pane_good sid w h'"
    using wf' fresh s(1,6) by (intro pane_goodI) (auto split: if_split_asm)
  have b: "unat (pane_seq h' sid) + length ops < 2 ^ 64" using assms(3) s(4) by simp
  have "sorted_wrt (\<lambda>f g. mf_seq f < mf_seq g) got"
    using pane_watch.deliveries_increase [OF g b] unfolding got_def by (simp add: word_less_nat_alt)
  moreover have "\<forall>m \<in> set got. pane_seq h sid < mf_seq m"
    using pane_watch.deliveries_above [OF g b] fresh s(4) unfolding got_def by (auto simp: word_less_nat_alt)
  ultimately show ?thesis using s(9) pane_wf_parts(4) [OF wf, of sid] pane_unsubscribe_parts(2) by auto
qed

theorem pane_frames_in_order_witness:
  "sorted_wrt (\<lambda>f g. mf_seq f < mf_seq g) (List.map_filter id (outcomes (pane_step 0)
     [PPublish ''s'' demo_pane, PRecv 0, PPublish ''s'' demo_pane, PDropDevice ''a'', PRecv 0]
     (snd (pane_subscribe ''a'' ''s'' False (newPaneHub True)))))"
proof -
  have n: "newPaneHub True = fold pane_act [] (newPaneHub True)" by simp
  have s: "pane_subscribe ''a'' ''s'' False (newPaneHub True)
      = (Some (0, None), snd (pane_subscribe ''a'' ''s'' False (newPaneHub True)))"
    by (simp add: pane_subscribe_def newPaneHub_def Let_def)
  have b: "unat (pane_seq (newPaneHub True) ''s'') + length [PPublish ''s'' demo_pane, PRecv 0,
      PPublish ''s'' demo_pane, PDropDevice ''a'', PRecv 0] < 2 ^ 64"
    by (simp add: pane_seq_def newPaneHub_def)
  show ?thesis using pane_frames_in_order [OF n s b] by blast
qed

end
