(* ===== verification/Convert.thy ===== *)
theory Convert
  imports Projection
begin

text \<open>
  \<^verbatim>\<open>src/link/convert.go\<close>: the converters between the projection and the wire messages of
  \<^verbatim>\<open>gen/rook/link/v1/link.pb.go\<close>, whose fields the records below list (the decoder never leaves a
  nil element in a repeated field, so those are plain lists; a nil message pointer is \<open>None\<close>).
  The protobuf timestamp is a type parameter; \<open>new\<close> and \<open>asTime\<close> are \<^verbatim>\<open>timestamppb.New\<close> and
  \<^verbatim>\<open>AsTime\<close>, and the round-trip theorems assume the documented \<open>asTime (new t) = t\<close>. An \<^verbatim>\<open>int32\<close> is an
  \<open>int\<close> brought into range by \<open>to_int32\<close>; an open protobuf enum has a constructor for the
  numbers it does not name.
\<close>

section \<open>Wire messages\<close>

datatype linkv1_AgentState =
    AGENT_STATE_UNSPECIFIED | AGENT_STATE_WORKING | AGENT_STATE_NEEDS_INPUT | AGENT_STATE_QUIET
  | AGENT_STATE_unknown int

datatype linkv1_CommandKind =
    COMMAND_KIND_UNSPECIFIED | COMMAND_KIND_COMPACT | COMMAND_KIND_RESUME | COMMAND_KIND_SPAWN
  | COMMAND_KIND_SAY | COMMAND_KIND_unknown int

datatype linkv1_Disposition =
    DISPOSITION_UNSPECIFIED | DISPOSITION_DELIVERED | DISPOSITION_DUPLICATE | DISPOSITION_DROPPED

text \<open>\<^verbatim>\<open>link.Disposition\<close> is an \<^verbatim>\<open>int\<close>; an executor could return a value outside the three.\<close>

datatype Disposition = Delivered | Duplicate | Dropped | OtherDisposition int

record Outcome =
  oc_Disposition :: Disposition
  oc_Note :: string

record 'ts linkv1_AgentDigest =
  pad_Headline :: string
  pad_Bullets :: "string list"
  pad_At :: "'ts option"

record 'ts linkv1_Agent =
  pa_Id :: string
  pa_State :: linkv1_AgentState
  pa_Title :: string
  pa_Ask :: string
  pa_AskId :: string
  pa_Model :: string
  pa_CostUsd :: float64
  pa_CtxPct :: int
  pa_Digest :: "'ts linkv1_AgentDigest option"
  pa_LastEvent :: "'ts option"
  pa_Now :: string
  pa_NowAt :: "'ts option"
  pa_Attached :: bool

record 'ts linkv1_Workspace =
  pw_Name :: string
  pw_Branch :: string
  pw_Attention :: int
  pw_Agents :: "'ts linkv1_Agent list"

record 'ts linkv1_Usage =
  pu_Mode :: string
  pu_SessionPct :: int
  pu_SessionResets :: string
  pu_WeekAllPct :: int
  pu_WeekAllResets :: string
  pu_WeekModelName :: string
  pu_WeekModelPct :: int
  pu_WeekModelResets :: string
  pu_At :: "'ts option"
  pu_AgentTodayUsd :: float64
  pu_AgentWeekUsd :: float64

record 'ts linkv1_Status =
  ps_Hostname :: string
  ps_RookVersion :: string
  ps_Workspaces :: "'ts linkv1_Workspace list"
  ps_At :: "'ts option"
  ps_HostId :: string
  ps_Usage :: "'ts linkv1_Usage option"

record linkv1_StyleRun =
  pr_Start :: u32
  pr_Len :: u32
  pr_Fg :: u32
  pr_Bg :: u32
  pr_Attrs :: u32

record linkv1_PaneRow =
  prow_Text :: string
  prow_Runs :: "linkv1_StyleRun list"

record linkv1_PaneFrame =
  pp_Cols :: u32
  pp_Rows :: u32
  pp_CursorX :: u32
  pp_CursorY :: u32
  pp_CursorVisible :: bool
  pp_Lines :: "linkv1_PaneRow list"

record 'ts linkv1_Digest =
  pd_Id :: string
  pd_SessionId :: string
  pd_Headline :: string
  pd_Bullets :: "string list"
  pd_FullText :: string
  pd_Prompt :: string
  pd_Reply :: string
  pd_ReplyState :: string
  pd_At :: "'ts option"
  pd_Model :: string
  pd_CostUsd :: float64

section \<open>Enums\<close>

definition stateToProto :: "string \<Rightarrow> linkv1_AgentState" where
  "stateToProto s =
    (if s = ''working'' then AGENT_STATE_WORKING
     else if s = ''needs_input'' then AGENT_STATE_NEEDS_INPUT
     else if s = ''quiet'' then AGENT_STATE_QUIET
     else AGENT_STATE_UNSPECIFIED)"

definition stateFromProto :: "linkv1_AgentState \<Rightarrow> string" where
  "stateFromProto s =
    (case s of AGENT_STATE_WORKING \<Rightarrow> ''working''
     | AGENT_STATE_NEEDS_INPUT \<Rightarrow> ''needs_input''
     | AGENT_STATE_QUIET \<Rightarrow> ''quiet''
     | _ \<Rightarrow> [])"

definition kindFromProto :: "linkv1_CommandKind \<Rightarrow> string" where
  "kindFromProto k =
    (case k of COMMAND_KIND_COMPACT \<Rightarrow> ''compact''
     | COMMAND_KIND_RESUME \<Rightarrow> ''resume''
     | COMMAND_KIND_SPAWN \<Rightarrow> ''spawn''
     | COMMAND_KIND_SAY \<Rightarrow> ''say''
     | _ \<Rightarrow> [])"

definition dispositionToProto :: "Disposition \<Rightarrow> linkv1_Disposition" where
  "dispositionToProto d =
    (case d of Delivered \<Rightarrow> DISPOSITION_DELIVERED
     | Duplicate \<Rightarrow> DISPOSITION_DUPLICATE
     | Dropped \<Rightarrow> DISPOSITION_DROPPED
     | OtherDisposition n \<Rightarrow> DISPOSITION_UNSPECIFIED)"

section \<open>Snapshots\<close>

text \<open>\<open>if !t.IsZero() { out.At = timestamppb.New(t) }\<close> and its inverse, which every timestamp
  field goes through.\<close>

definition stamp_out :: "(gotime \<Rightarrow> 'ts) \<Rightarrow> gotime \<Rightarrow> 'ts option" where
  "stamp_out new t = (if \<not> IsZero t then Some (new t) else None)"

definition stamp_in :: "('ts \<Rightarrow> gotime) \<Rightarrow> 'ts option \<Rightarrow> gotime" where
  "stamp_in asTime p = (case p of None \<Rightarrow> zero_time | Some x \<Rightarrow> asTime x)"

definition usageToProto :: "(gotime \<Rightarrow> 'ts) \<Rightarrow> Usage option \<Rightarrow> 'ts linkv1_Usage option" where
  "usageToProto new u = (case u of None \<Rightarrow> None | Some u \<Rightarrow> Some
    \<lparr>pu_Mode = us_Mode u, pu_SessionPct = to_int32 (us_SessionPct u),
     pu_SessionResets = us_SessionResets u, pu_WeekAllPct = to_int32 (us_WeekAllPct u),
     pu_WeekAllResets = us_WeekAllResets u, pu_WeekModelName = us_WeekModelName u,
     pu_WeekModelPct = to_int32 (us_WeekModelPct u), pu_WeekModelResets = us_WeekModelResets u,
     pu_At = stamp_out new (us_At u),
     pu_AgentTodayUsd = us_AgentTodayUSD u, pu_AgentWeekUsd = us_AgentWeekUSD u\<rparr>)"

definition usageFromProto :: "('ts \<Rightarrow> gotime) \<Rightarrow> 'ts linkv1_Usage option \<Rightarrow> Usage option" where
  "usageFromProto asTime p = (case p of None \<Rightarrow> None | Some p \<Rightarrow> Some
    \<lparr>us_Mode = pu_Mode p, us_SessionPct = pu_SessionPct p,
     us_SessionResets = pu_SessionResets p, us_WeekAllPct = pu_WeekAllPct p,
     us_WeekAllResets = pu_WeekAllResets p, us_WeekModelName = pu_WeekModelName p,
     us_WeekModelPct = pu_WeekModelPct p, us_WeekModelResets = pu_WeekModelResets p,
     us_At = stamp_in asTime (pu_At p),
     us_AgentTodayUSD = pu_AgentTodayUsd p, us_AgentWeekUSD = pu_AgentWeekUsd p\<rparr>)"

definition agentToProto :: "(gotime \<Rightarrow> 'ts) \<Rightarrow> Agent \<Rightarrow> 'ts linkv1_Agent" where
  "agentToProto new a =
    \<lparr>pa_Id = ag_ID a, pa_State = stateToProto (ag_State a), pa_Title = ag_Title a,
     pa_Ask = ag_Ask a, pa_AskId = ag_AskID a, pa_Model = ag_Model a, pa_CostUsd = ag_CostUSD a,
     pa_CtxPct = to_int32 (ag_CtxPct a),
     pa_Digest = (case ag_Digest a of None \<Rightarrow> None | Some d \<Rightarrow> Some
       \<lparr>pad_Headline = dg_Headline d, pad_Bullets = dg_Bullets d, pad_At = stamp_out new (dg_At d)\<rparr>),
     pa_LastEvent = stamp_out new (ag_LastEvent a), pa_Now = ag_Now a,
     pa_NowAt = stamp_out new (ag_NowAt a), pa_Attached = ag_Attached a\<rparr>"

definition agentFromProto :: "('ts \<Rightarrow> gotime) \<Rightarrow> 'ts linkv1_Agent \<Rightarrow> Agent" where
  "agentFromProto asTime p =
    \<lparr>ag_ID = pa_Id p, ag_State = stateFromProto (pa_State p), ag_Title = pa_Title p,
     ag_Ask = pa_Ask p, ag_AskID = pa_AskId p, ag_Model = pa_Model p, ag_CostUSD = pa_CostUsd p,
     ag_CtxPct = pa_CtxPct p,
     ag_Digest = (case pa_Digest p of None \<Rightarrow> None | Some d \<Rightarrow> Some
       \<lparr>dg_Headline = pad_Headline d, dg_Bullets = pad_Bullets d, dg_At = stamp_in asTime (pad_At d)\<rparr>),
     ag_Attached = pa_Attached p, ag_Now = pa_Now p, ag_NowAt = stamp_in asTime (pa_NowAt p),
     ag_LastEvent = stamp_in asTime (pa_LastEvent p)\<rparr>"

definition workspaceToProto :: "(gotime \<Rightarrow> 'ts) \<Rightarrow> Workspace \<Rightarrow> 'ts linkv1_Workspace" where
  "workspaceToProto new w =
    \<lparr>pw_Name = ws_Name w, pw_Branch = ws_Branch w, pw_Attention = to_int32 (ws_Attention w),
     pw_Agents = map (agentToProto new) (ws_Agents w)\<rparr>"

definition workspaceFromProto :: "('ts \<Rightarrow> gotime) \<Rightarrow> 'ts linkv1_Workspace \<Rightarrow> Workspace" where
  "workspaceFromProto asTime p =
    \<lparr>ws_Name = pw_Name p, ws_Branch = pw_Branch p, ws_Attention = pw_Attention p,
     ws_Agents = map (agentFromProto asTime) (pw_Agents p)\<rparr>"

definition statusToProto :: "(gotime \<Rightarrow> 'ts) \<Rightarrow> Status \<Rightarrow> gotime \<Rightarrow> 'ts linkv1_Status" where
  "statusToProto new s at =
    \<lparr>ps_Hostname = st_Hostname s, ps_RookVersion = st_RookVersion s,
     ps_Workspaces = map (workspaceToProto new) (st_Workspaces s),
     ps_At = stamp_out new at, ps_HostId = st_HostID s, ps_Usage = usageToProto new (st_Usage s)\<rparr>"

definition statusFromProto :: "('ts \<Rightarrow> gotime) \<Rightarrow> 'ts linkv1_Status option \<Rightarrow> Status" where
  "statusFromProto asTime p =
    (case p of
       None \<Rightarrow> \<lparr>st_Hostname = [], st_RookVersion = [], st_HostID = [], st_Workspaces = [], st_Usage = None\<rparr>
     | Some p \<Rightarrow>
        \<lparr>st_Hostname = ps_Hostname p, st_RookVersion = ps_RookVersion p, st_HostID = ps_HostId p,
         st_Workspaces = map (workspaceFromProto asTime) (ps_Workspaces p),
         st_Usage = usageFromProto asTime (ps_Usage p)\<rparr>)"

section \<open>Pane frames and digests\<close>

definition runToProto :: "StyleRun \<Rightarrow> linkv1_StyleRun" where
  "runToProto r = \<lparr>pr_Start = run_Start r, pr_Len = run_Len r, pr_Fg = run_FG r, pr_Bg = run_BG r,
     pr_Attrs = run_Attrs r\<rparr>"

definition runFromProto :: "linkv1_StyleRun \<Rightarrow> StyleRun" where
  "runFromProto p = \<lparr>run_Start = pr_Start p, run_Len = pr_Len p, run_FG = pr_Fg p, run_BG = pr_Bg p,
     run_Attrs = pr_Attrs p\<rparr>"

definition paneToProto :: "PaneFrame \<Rightarrow> linkv1_PaneFrame" where
  "paneToProto f =
    \<lparr>pp_Cols = to_uint32 (pf_Cols f), pp_Rows = to_uint32 (pf_Rows f),
     pp_CursorX = to_uint32 (pf_CursorX f), pp_CursorY = to_uint32 (pf_CursorY f),
     pp_CursorVisible = pf_CursorVisible f,
     pp_Lines = map (\<lambda>r. \<lparr>prow_Text = row_Text r, prow_Runs = map runToProto (row_Runs r)\<rparr>) (pf_Lines f)\<rparr>"

definition paneFromProto :: "linkv1_PaneFrame option \<Rightarrow> PaneFrame" where
  "paneFromProto p =
    (case p of
       None \<Rightarrow> \<lparr>pf_Cols = 0, pf_Rows = 0, pf_CursorX = 0, pf_CursorY = 0, pf_CursorVisible = False, pf_Lines = []\<rparr>
     | Some p \<Rightarrow>
        \<lparr>pf_Cols = uint (pp_Cols p), pf_Rows = uint (pp_Rows p),
         pf_CursorX = uint (pp_CursorX p), pf_CursorY = uint (pp_CursorY p),
         pf_CursorVisible = pp_CursorVisible p,
         pf_Lines = map (\<lambda>r. \<lparr>row_Text = prow_Text r, row_Runs = map runFromProto (prow_Runs r)\<rparr>) (pp_Lines p)\<rparr>)"

definition digestToProto :: "(gotime \<Rightarrow> 'ts) \<Rightarrow> Digest \<Rightarrow> 'ts linkv1_Digest" where
  "digestToProto new d =
    \<lparr>pd_Id = d_ID d, pd_SessionId = d_SessionID d, pd_Headline = d_Headline d,
     pd_Bullets = d_Bullets d, pd_FullText = d_FullText d, pd_Prompt = d_Prompt d,
     pd_Reply = d_Reply d, pd_ReplyState = d_ReplyState d, pd_At = stamp_out new (d_At d),
     pd_Model = d_Model d, pd_CostUsd = d_CostUSD d\<rparr>"

definition zero_Digest :: Digest where
  "zero_Digest = \<lparr>d_ID = [], d_SessionID = [], d_Headline = [], d_Bullets = [], d_FullText = [],
     d_Prompt = [], d_Reply = [], d_ReplyState = [], d_At = zero_time, d_Model = [], d_CostUSD = 0\<rparr>"

definition digestFromProto :: "('ts \<Rightarrow> gotime) \<Rightarrow> 'ts linkv1_Digest option \<Rightarrow> Digest" where
  "digestFromProto asTime p =
    (case p of
       None \<Rightarrow> zero_Digest
     | Some p \<Rightarrow>
        \<lparr>d_ID = pd_Id p, d_SessionID = pd_SessionId p, d_Headline = pd_Headline p,
         d_Bullets = pd_Bullets p, d_FullText = pd_FullText p, d_Prompt = pd_Prompt p,
         d_Reply = pd_Reply p, d_ReplyState = pd_ReplyState p, d_At = stamp_in asTime (pd_At p),
         d_Model = pd_Model p, d_CostUSD = pd_CostUsd p\<rparr>)"

section \<open>Lemmas\<close>

definition i32 :: "int \<Rightarrow> bool" where
  "i32 x \<longleftrightarrow> - (2 ^ 31) \<le> x \<and> x < 2 ^ 31"

definition known_state :: "string \<Rightarrow> bool" where
  "known_state s \<longleftrightarrow> s \<in> {''working'', ''needs_input'', ''quiet'', []}"

lemma state_roundtrip: "stateFromProto (stateToProto s) = (if known_state s then s else [])"
  by (simp add: stateFromProto_def stateToProto_def known_state_def)

lemma to_int32_i32: "to_int32 x = x \<longleftrightarrow> i32 x"
  using to_int32_range [of x] to_int32_id [of x] unfolding i32_def by metis

lemma stamp_roundtrip: "(\<And>t. asTime (new t) = t) \<Longrightarrow> stamp_in asTime (stamp_out new t) = t"
  by (simp add: stamp_in_def stamp_out_def IsZero_def)

text \<open>What the wire keeps: numbers cut to 32 bits, states reduced to the three known ones.\<close>

definition wired_Agent :: "Agent \<Rightarrow> Agent" where
  "wired_Agent a = a\<lparr>ag_State := (if known_state (ag_State a) then ag_State a else []),
     ag_CtxPct := to_int32 (ag_CtxPct a)\<rparr>"

definition wired_Workspace :: "Workspace \<Rightarrow> Workspace" where
  "wired_Workspace w = w\<lparr>ws_Attention := to_int32 (ws_Attention w), ws_Agents := map wired_Agent (ws_Agents w)\<rparr>"

definition wired_Usage :: "Usage \<Rightarrow> Usage" where
  "wired_Usage u = u\<lparr>us_SessionPct := to_int32 (us_SessionPct u), us_WeekAllPct := to_int32 (us_WeekAllPct u),
     us_WeekModelPct := to_int32 (us_WeekModelPct u)\<rparr>"

definition wired_Status :: "Status \<Rightarrow> Status" where
  "wired_Status s = s\<lparr>st_Workspaces := map wired_Workspace (st_Workspaces s),
     st_Usage := map_option wired_Usage (st_Usage s)\<rparr>"

lemma agent_roundtrip:
  "(\<And>t. asTime (new t) = t) \<Longrightarrow> agentFromProto asTime (agentToProto new a) = wired_Agent a"
  by (simp add: agentFromProto_def agentToProto_def wired_Agent_def state_roundtrip stamp_roundtrip
      split: option.split)

lemma workspace_roundtrip:
  "(\<And>t. asTime (new t) = t) \<Longrightarrow> workspaceFromProto asTime (workspaceToProto new w) = wired_Workspace w"
  by (simp add: workspaceFromProto_def workspaceToProto_def wired_Workspace_def agent_roundtrip)

lemma usage_roundtrip:
  "(\<And>t. asTime (new t) = t) \<Longrightarrow> usageFromProto asTime (usageToProto new u) = map_option wired_Usage u"
  by (simp add: usageFromProto_def usageToProto_def wired_Usage_def stamp_roundtrip split: option.split)

lemma status_roundtrip:
  "(\<And>t. asTime (new t) = t) \<Longrightarrow> statusFromProto asTime (Some (statusToProto new s at)) = wired_Status s"
  by (simp add: statusFromProto_def statusToProto_def wired_Status_def workspace_roundtrip usage_roundtrip)

definition wire_safe :: "Status \<Rightarrow> bool" where
  "wire_safe s \<longleftrightarrow>
     list_all (\<lambda>w. i32 (ws_Attention w) \<and> list_all (\<lambda>a. known_state (ag_State a) \<and> i32 (ag_CtxPct a)) (ws_Agents w))
       (st_Workspaces s)
   \<and> (case st_Usage s of None \<Rightarrow> True
      | Some u \<Rightarrow> i32 (us_SessionPct u) \<and> i32 (us_WeekAllPct u) \<and> i32 (us_WeekModelPct u))"

interpretation wire: normaliser wired_Status wire_safe
proof
  fix s
  have i: "i32 (to_int32 x)" for x unfolding i32_def by (rule to_int32_range)
  have k: "known_state []" by (simp add: known_state_def)
  show "wire_safe (wired_Status s)"
    by (auto simp: wire_safe_def wired_Status_def wired_Workspace_def wired_Agent_def wired_Usage_def
        list_all_iff i k split: option.split)
  assume safe: "wire_safe s"
  have n: "i32 x \<Longrightarrow> to_int32 x = x" for x by (simp add: to_int32_i32)
  have a: "known_state (ag_State a) \<and> i32 (ag_CtxPct a) \<Longrightarrow> wired_Agent a = a" for a
    by (simp add: wired_Agent_def n)
  have w: "i32 (ws_Attention w) \<and> list_all (\<lambda>a. known_state (ag_State a) \<and> i32 (ag_CtxPct a)) (ws_Agents w)
      \<Longrightarrow> wired_Workspace w = w" for w
    using map_ok_id [of "\<lambda>a. known_state (ag_State a) \<and> i32 (ag_CtxPct a)" wired_Agent] a
    by (simp add: wired_Workspace_def n)
  have ws: "map wired_Workspace (st_Workspaces s) = st_Workspaces s"
    using safe unfolding wire_safe_def by (intro map_ok_id [OF w]) auto
  have "map_option wired_Usage (st_Usage s) = st_Usage s"
    using safe by (cases "st_Usage s") (simp_all add: wire_safe_def wired_Usage_def n)
  then show "wired_Status s = s" by (simp add: wired_Status_def ws)
qed

definition pane_wire_safe :: "PaneFrame \<Rightarrow> bool" where
  "pane_wire_safe f \<longleftrightarrow> list_all (\<lambda>x. 0 \<le> x \<and> x < 2 ^ 32) [pf_Cols f, pf_Rows f, pf_CursorX f, pf_CursorY f]"

lemma uint_to_uint32: "uint (to_uint32 x) = x \<longleftrightarrow> 0 \<le> x \<and> x < 2 ^ 32"
proof
  assume "uint (to_uint32 x) = x"
  then show "0 \<le> x \<and> x < 2 ^ 32" using uint_bounded [of "to_uint32 x"] uint_ge_0 [of "to_uint32 x"] by simp
qed (simp add: to_uint32_id)

lemma run_roundtrip [simp]: "runFromProto (runToProto r) = r"
  by (simp add: runFromProto_def runToProto_def)

lemma pane_roundtrip: "paneFromProto (Some (paneToProto f)) = f \<longleftrightarrow> pane_wire_safe f"
proof -
  have ls: "map (\<lambda>r. \<lparr>row_Text = prow_Text r, row_Runs = map runFromProto (prow_Runs r)\<rparr>)
      (map (\<lambda>r. \<lparr>prow_Text = row_Text r, prow_Runs = map runToProto (row_Runs r)\<rparr>) rs) = rs" for rs
    by (induction rs) (simp_all add: comp_def)
  show ?thesis
    by (cases f) (simp add: paneFromProto_def paneToProto_def ls [simplified] pane_wire_safe_def uint_to_uint32)
qed

lemma digest_roundtrip:
  "(\<And>t. asTime (new t) = t) \<Longrightarrow> digestFromProto asTime (Some (digestToProto new d)) = d"
  by (simp add: digestFromProto_def digestToProto_def stamp_roundtrip)

section \<open>Properties\<close>

text \<open>C27: A snapshot survives the wire. Decoding what \<^verbatim>\<open>statusToProto\<close> encodes yields the snapshot with
  its percentages and counts cut to 32 bits and unknown agent states blanked, and nothing else
  changed, zero times included; so it yields the very snapshot exactly when the numbers fit and the
  states are known, and a second trip changes nothing.\<close>
theorem status_survives_wire:
  assumes "\<And>t. asTime (new t) = t"
  defines "trip \<equiv> (\<lambda>s at. statusFromProto asTime (Some (statusToProto new s at)))"
  shows "trip s at = wired_Status s \<and> (trip s at = s \<longleftrightarrow> wire_safe s) \<and> trip (trip s at) at' = trip s at"
proof -
  have "trip s at = wired_Status s" for s at
    unfolding trip_def by (rule status_roundtrip) (rule assms(1))
  then show ?thesis by (simp add: wire.fixpoint_iff wire.idempotent)
qed

theorem status_survives_wire_witness:
  "statusFromProto (\<lambda>t. t - 1) (Some (statusToProto (\<lambda>t. t + 1)
      \<lparr>st_Hostname = ''mac'', st_RookVersion = ''1'', st_HostID = ''h'', st_Workspaces = [], st_Usage = None\<rparr> 9))
   = \<lparr>st_Hostname = ''mac'', st_RookVersion = ''1'', st_HostID = ''h'', st_Workspaces = [], st_Usage = None\<rparr>"
proof -
  let ?s = "\<lparr>st_Hostname = ''mac'', st_RookVersion = ''1'', st_HostID = ''h'', st_Workspaces = [], st_Usage = None\<rparr>"
  have t: "\<And>t. (\<lambda>t. t - 1) ((\<lambda>t. t + 1) t) = (t :: int)" by simp
  have "wire_safe ?s" by (simp add: wire_safe_def)
  then show ?thesis using status_survives_wire [where asTime = "\<lambda>t. t - 1" and new = "\<lambda>t. t + 1", OF t]
    by blast
qed

text \<open>Pane frames and digests survive the wire: a frame comes back as it was exactly when its four
  dimensions are \<^verbatim>\<open>uint32\<close> values, which after \<^verbatim>\<open>Clamp\<close> only the cursor can fail to be, and a
  digest always comes back as it was.\<close>
theorem panes_and_digests_survive_wire:
  assumes "\<And>t. asTime (new t) = t"
  shows "(paneFromProto (Some (paneToProto f)) = f \<longleftrightarrow> pane_wire_safe f)
    \<and> (pane_wire_safe (PaneFrame_Clamp f) \<longleftrightarrow> pf_CursorX f < 2 ^ 32 \<and> pf_CursorY f < 2 ^ 32)
    \<and> digestFromProto asTime (Some (digestToProto new d)) = d"
  using pane_roundtrip digest_roundtrip [where asTime = asTime and new = new, OF assms]
  by (auto simp: pane_wire_safe_def PaneFrame_Clamp_def)

theorem panes_and_digests_survive_wire_witness:
  "digestFromProto id (Some (digestToProto id zero_Digest)) = zero_Digest"
proof -
  have t: "\<And>t :: gotime. id (id t) = t" by simp
  show ?thesis using panes_and_digests_survive_wire [where asTime = id and new = id, OF t] by blast
qed

text \<open>C28: The enums map one to one onto the vocabulary and onto nothing else: a wire kind is accepted
  as a command only if it is one of the four the allowlist names, every allowlisted kind has
  exactly one wire kind, a state read back from the wire is known or empty, and the three outcomes
  of an executor stay distinct while anything else is reported as unspecified.\<close>
theorem enums_cover_the_vocabulary:
  "(ValidCommand (kindFromProto k) s w p t = Inr c
      \<longrightarrow> k \<in> {COMMAND_KIND_COMPACT, COMMAND_KIND_RESUME, COMMAND_KIND_SPAWN, COMMAND_KIND_SAY}
        \<and> cmd_Kind c = kindFromProto k)
   \<and> (\<forall>kind \<in> set CommandKinds. \<exists>!k. kindFromProto k = kind)
   \<and> known_state (stateFromProto st)
   \<and> (dispositionToProto d = dispositionToProto d' \<and> dispositionToProto d \<noteq> DISPOSITION_UNSPECIFIED \<longrightarrow> d = d')
   \<and> (dispositionToProto d = DISPOSITION_UNSPECIFIED \<longleftrightarrow> (\<exists>n. d = OtherDisposition n))"
proof (intro conjI impI)
  assume v: "ValidCommand (kindFromProto k) s w p t = Inr c"
  have "list_all trimmed [''compact'', ''resume'', ''spawn'', ''say'', []]" by code_simp
  then have "trimmed (kindFromProto k)" by (simp add: kindFromProto_def split: linkv1_CommandKind.split)
  then show kind: "cmd_Kind c = kindFromProto k"
    using ValidCommand_command_ok [OF v] by (simp add: trim.norm_id)
  have "cmd_Kind c \<noteq> []" using ValidCommand_command_ok [OF v] by (auto simp: command_ok_def)
  then show "k \<in> {COMMAND_KIND_COMPACT, COMMAND_KIND_RESUME, COMMAND_KIND_SPAWN, COMMAND_KIND_SAY}"
    using kind by (cases k) (simp_all add: kindFromProto_def)
next
  have "kindFromProto k = ''compact'' \<longleftrightarrow> k = COMMAND_KIND_COMPACT"
    "kindFromProto k = ''resume'' \<longleftrightarrow> k = COMMAND_KIND_RESUME"
    "kindFromProto k = ''spawn'' \<longleftrightarrow> k = COMMAND_KIND_SPAWN"
    "kindFromProto k = ''say'' \<longleftrightarrow> k = COMMAND_KIND_SAY" for k
    by (cases k; simp add: kindFromProto_def)+
  then show "\<forall>kind \<in> set CommandKinds. \<exists>!k. kindFromProto k = kind"
    by (simp add: CommandKinds_def)
next
  show "known_state (stateFromProto st)"
    by (cases st) (simp_all add: stateFromProto_def known_state_def)
next
  assume "dispositionToProto d = dispositionToProto d' \<and> dispositionToProto d \<noteq> DISPOSITION_UNSPECIFIED"
  then show "d = d'" by (cases d; cases d') (simp_all add: dispositionToProto_def)
next
  show "dispositionToProto d = DISPOSITION_UNSPECIFIED \<longleftrightarrow> (\<exists>n. d = OtherDisposition n)"
    by (cases d) (simp_all add: dispositionToProto_def)
qed

theorem enums_cover_the_vocabulary_witness:
  "\<exists>!k. kindFromProto k = ''say''"
proof -
  have "''say'' \<in> set CommandKinds" by (simp add: CommandKinds_def)
  then show ?thesis using enums_cover_the_vocabulary by blast
qed

end
