(* ===== verification/LinkServer.thy ===== *)
theory LinkServer
  imports Identity Registry Tokens Hub PaneHub Convert
begin

text \<open>
  \<^verbatim>\<open>src/link/server.go\<close> and \<^verbatim>\<open>src/link/executor.go\<close>: the link server. A handler is one function over
  the server state, composed of the operations of the components in the order the code calls them;
  each reading of the clock, each random read and each file-system outcome is an argument of its
  own. The executor, the pane source and the digest source are supplied by the embedding host: the
  executor's outcome is an argument and every call made to it is logged; digests are a function.
  A reply is a value, a connect error with its code, or the panic of \<^verbatim>\<open>crypto/ed25519\<close> on a key of
  the wrong size. How handlers interleave is the subject of \<open>Streams\<close>.
\<close>

section \<open>State\<close>

definition ProtocolVersion :: string where
  "ProtocolVersion = ''rook-link/1''"

definition bearerPrefix :: string where
  "bearerPrefix = ''Bearer link-''"

text \<open>The libraries the handlers go through: hash and signatures, the registry's JSON codec, and
  \<^verbatim>\<open>timestamppb.New\<close>.\<close>

record 'ts libs =
  lb_crypto :: crypto
  lb_json :: reg_json
  lb_new :: "gotime \<Rightarrow> 'ts"

datatype exec_call = CallAnswer Answer | CallExecute Command

record Server =
  s_id :: Identity
  s_reg :: Registry
  s_disk :: disk
  s_pairs :: Manager
  s_hostName :: string
  s_heartbeat :: gotime
  s_hub :: hub
  s_paneHub :: paneHub
  s_digests :: "(string \<Rightarrow> Digest option) option"
  s_tokens :: tokens
  s_nonces :: nonces
  s_exec :: "exec_call list"

text \<open>\<open>None\<close> is a nil option field; the executor and the clock are only tested for being there.\<close>

record Options =
  o_Identity :: "Identity option"
  o_Registry :: "Registry option"
  o_Pairing :: "Manager option"
  o_Executor :: bool
  o_HostName :: string
  o_Panes :: bool
  o_Digests :: "(string \<Rightarrow> Digest option) option"
  o_Heartbeat :: gotime

text \<open>\<open>None\<close> is the panic on missing requirements.\<close>

definition NewServer :: "Options \<Rightarrow> disk \<Rightarrow> Server option" where
  "NewServer opt d =
    (case (o_Identity opt, o_Registry opt, o_Executor opt) of
       (Some idn, Some reg, True) \<Rightarrow> Some
        \<lparr>s_id = idn, s_reg = reg, s_disk = d,
         s_pairs = (case o_Pairing opt of None \<Rightarrow> Manager_zero | Some m \<Rightarrow> m),
         s_hostName = o_HostName opt,
         s_heartbeat = (if o_Heartbeat opt \<le> 0 then 25 * Second else o_Heartbeat opt),
         s_hub = newHub, s_paneHub = newPaneHub (o_Panes opt), s_digests = o_Digests opt,
         s_tokens = newTokens, s_nonces = newNonces, s_exec = []\<rparr>
     | _ \<Rightarrow> None)"

section \<open>Replies\<close>

datatype connect_code =
    CodeFailedPrecondition | CodeInvalidArgument | CodePermissionDenied | CodeUnauthenticated
  | CodeInternal | CodeUnimplemented | CodeNotFound | CodeUnavailable

datatype cause = Msg string | RegCause reg_error | ProjCause proj_error | RandCause | SourceCause

datatype 'a reply = Reply 'a | Fail connect_code cause | Panics

fun map_reply_state :: "'a reply \<times> Server \<Rightarrow> ('a \<Rightarrow> Server \<Rightarrow> 'b reply \<times> Server) \<Rightarrow> 'b reply \<times> Server" where
  "map_reply_state (Reply x, s) f = f x s"
| "map_reply_state (Fail c e, s) f = (Fail c e, s)"
| "map_reply_state (Panics, s) f = (Panics, s)"

record GetHostInfoResponse =
  hi_HostId :: string
  hi_HostName :: string
  hi_TrustDomainId :: string
  hi_ProtocolVersions :: "string list"
  hi_PairingOpen :: bool
  hi_HostPublicKey :: bytes

record PairRequest =
  pq_ProtocolVersion :: string
  pq_PairingSecret :: string
  pq_DevicePublicKey :: bytes
  pq_DeviceName :: string
  pq_DeviceModel :: string
  pq_RequestedCapabilities :: "string list"
  pq_Proof :: bytes

record PairResponse =
  px_DeviceId :: string
  px_HostId :: string
  px_TrustDomainId :: string
  px_HostPublicKey :: bytes
  px_GrantedCapabilities :: "string list"

record 'ts ChallengeResponse =
  cx_Nonce :: bytes
  cx_ExpiresAt :: 'ts

record AuthenticateRequest =
  aq_ProtocolVersion :: string
  aq_DeviceId :: string
  aq_Nonce :: bytes
  aq_Signature :: bytes

record 'ts AuthenticateResponse =
  ax_SessionToken :: bytes
  ax_ExpiresAt :: 'ts
  ax_Capabilities :: "string list"
  ax_TrustDomainId :: string

record 'ts GetStatusResponse =
  gx_Status :: "'ts linkv1_Status"
  gx_Seq :: u64

record SubmitCommandRequest =
  cq_Kind :: linkv1_CommandKind
  cq_SessionId :: string
  cq_Workspace :: string
  cq_Prompt :: string

record SubmitCommandResponse =
  sx_CommandId :: string
  sx_Disposition :: linkv1_Disposition
  sx_Note :: string

record SubmitAnswerRequest =
  nq_AskId :: string
  nq_Text :: string

record SubmitAnswerResponse =
  nx_Disposition :: linkv1_Disposition
  nx_Note :: string

section \<open>Publishing and revoking\<close>

definition Publish :: "'ts libs \<Rightarrow> Status \<Rightarrow> gotime \<Rightarrow> Server \<Rightarrow> u64 \<times> Server" where
  "Publish lb status now s =
    (let (q, h) = hub_publish (status\<lparr>st_HostID := HostID (lb_crypto lb) (s_id s)\<rparr>) now (s_hub s)
     in (q, s\<lparr>s_hub := h\<rparr>))"

definition PublishPane :: "string \<Rightarrow> PaneFrame \<Rightarrow> Server \<Rightarrow> Server" where
  "PublishPane sessionID f s = s\<lparr>s_paneHub := pane_publish sessionID f (s_paneHub s)\<rparr>"

text \<open>The second half of a revocation and of a re-pairing: sessions and streams of a device end.\<close>

definition drop_sessions :: "string \<Rightarrow> Server \<Rightarrow> Server" where
  "drop_sessions deviceID s = s\<lparr>s_tokens := dropDevice deviceID (s_tokens s),
     s_hub := hub_dropDevice deviceID (s_hub s), s_paneHub := pane_dropDevice deviceID (s_paneHub s)\<rparr>"

definition RevokeDevice ::
    "'ts libs \<Rightarrow> io \<Rightarrow> string \<Rightarrow> gotime \<Rightarrow> Server \<Rightarrow> reg_error option \<times> Server" where
  "RevokeDevice lb io deviceID now s =
    (let (e, r, d) = Revoke (lb_json lb) io deviceID now (s_reg s) (s_disk s);
         s' = s\<lparr>s_reg := r, s_disk := d\<rparr>
     in case e of
          Some err \<Rightarrow> (Some err, s')
        | None \<Rightarrow> (None, drop_sessions deviceID s'))"

section \<open>HostService\<close>

text \<open>The loop \<^verbatim>\<open>for i := max; i > 0; i--\<close>.\<close>

fun clipDisplay_loop :: "string \<Rightarrow> nat \<Rightarrow> string" where
  "clipDisplay_loop s 0 = []"
| "clipDisplay_loop s (Suc i) =
     (if \<not> cont_byte (s ! Suc i) then take (Suc i) s else clipDisplay_loop s i)"

definition clipDisplay :: "string \<Rightarrow> string" where
  "clipDisplay s = (if length s \<le> 200 then s else clipDisplay_loop s 200)"

definition GetHostInfo :: "'ts libs \<Rightarrow> gotime \<Rightarrow> Server \<Rightarrow> GetHostInfoResponse" where
  "GetHostInfo lb now s =
    \<lparr>hi_HostId = HostID (lb_crypto lb) (s_id s), hi_HostName = s_hostName s,
     hi_TrustDomainId = id_TrustDomainID (s_id s), hi_ProtocolVersions = [ProtocolVersion],
     hi_PairingOpen = OpenNow now (s_pairs s), hi_HostPublicKey = Identity_PublicKey (s_id s)\<rparr>"

definition requested_device :: "'ts libs \<Rightarrow> PairRequest \<Rightarrow> gotime \<Rightarrow> Device" where
  "requested_device lb m now =
    \<lparr>dv_ID = DeviceIDFor (lb_crypto lb) (pq_DevicePublicKey m), dv_Name = clipDisplay (pq_DeviceName m),
     dv_Model = clipDisplay (pq_DeviceModel m), dv_PublicKey = pq_DevicePublicKey m,
     dv_Capabilities = (if length (pq_RequestedCapabilities m) = 0 then DefaultCapabilities
                        else pq_RequestedCapabilities m),
     dv_PairedAt = now, dv_LastSeenAt = zero_time, dv_RevokedAt = None\<rparr>"

definition Pair ::
    "'ts libs \<Rightarrow> io \<Rightarrow> gotime \<Rightarrow> gotime \<Rightarrow> PairRequest \<Rightarrow> Server \<Rightarrow> PairResponse reply \<times> Server" where
  "Pair lb io now1 now2 m s =
    (if pq_ProtocolVersion m \<noteq> ProtocolVersion
     then (Fail CodeFailedPrecondition (Msg ''host speaks another version''), s)
     else if length (pq_DevicePublicKey m) \<noteq> PublicKeySize
     then (Fail CodeInvalidArgument (Msg ''device key must be 32 bytes of Ed25519''), s)
     else case VerifyPairProof (lb_crypto lb) (pq_DevicePublicKey m) (HostID (lb_crypto lb) (s_id s))
            (pq_PairingSecret m) (pq_Proof m) of
       None \<Rightarrow> (Panics, s)
     | Some False \<Rightarrow> (Fail CodePermissionDenied (Msg ''pairing proof does not verify''), s)
     | Some True \<Rightarrow>
         (let (ok, p) = Redeem (pq_PairingSecret m) now1 (s_pairs s); s1 = s\<lparr>s_pairs := p\<rparr> in
          if \<not> ok
          then (Fail CodePermissionDenied (Msg ''no open pairing window for that secret''), s1)
          else
           (let d = requested_device lb m now2;
                (e, r, dsk) = Registry_Add (lb_json lb) io d (s_reg s1) (s_disk s1);
                s2 = s1\<lparr>s_reg := r, s_disk := dsk\<rparr>
            in case e of
                 Some err \<Rightarrow> (Fail CodeInvalidArgument (RegCause err), s2)
               | None \<Rightarrow>
                   (let s3 = drop_sessions (dv_ID d) s2 in
                    (Reply \<lparr>px_DeviceId = dv_ID d, px_HostId = HostID (lb_crypto lb) (s_id s),
                            px_TrustDomainId = id_TrustDomainID (s_id s),
                            px_HostPublicKey = Identity_PublicKey (s_id s),
                            px_GrantedCapabilities =
                              (case Registry_Get (dv_ID d) (s_reg s3) of None \<Rightarrow> []
                               | Some g \<Rightarrow> dv_Capabilities g)\<rparr>, s3)))))"

definition live_device :: "string \<Rightarrow> Server \<Rightarrow> Device option" where
  "live_device i s =
    (case Registry_Get i (s_reg s) of None \<Rightarrow> None | Some d \<Rightarrow> if Revoked d then None else Some d)"

definition unknown_device :: "'a reply" where
  "unknown_device = Fail CodePermissionDenied (Msg ''unknown or revoked device'')"

definition Challenge ::
    "'ts libs \<Rightarrow> bytes option \<Rightarrow> gotime \<Rightarrow> string \<Rightarrow> Server \<Rightarrow> 'ts ChallengeResponse reply \<times> Server" where
  "Challenge lb rnd now deviceId s =
    (case live_device deviceId s of
       None \<Rightarrow> (unknown_device, s)
     | Some d \<Rightarrow>
         (case nonces_mint (dv_ID d) now rnd (s_nonces s) of
            (None, n) \<Rightarrow> (Fail CodeInternal RandCause, s\<lparr>s_nonces := n\<rparr>)
          | (Some (raw, exp), n) \<Rightarrow>
              (Reply \<lparr>cx_Nonce = raw, cx_ExpiresAt = lb_new lb exp\<rparr>, s\<lparr>s_nonces := n\<rparr>)))"

definition Authenticate ::
    "'ts libs \<Rightarrow> io \<Rightarrow> bytes option \<Rightarrow> gotime \<Rightarrow> gotime \<Rightarrow> gotime \<Rightarrow> AuthenticateRequest \<Rightarrow> Server
     \<Rightarrow> 'ts AuthenticateResponse reply \<times> Server" where
  "Authenticate lb io rnd now1 now2 now3 m s =
    (case live_device (aq_DeviceId m) s of
       None \<Rightarrow> (unknown_device, s)
     | Some d \<Rightarrow>
         (let (ok, n) = consume (aq_Nonce m) (dv_ID d) now1 (s_nonces s); s1 = s\<lparr>s_nonces := n\<rparr> in
          if \<not> ok
          then (Fail CodePermissionDenied (Msg ''challenge is unknown, expired, or not yours''), s1)
          else case VerifyAuth (lb_crypto lb) (Device_Key d) (HostID (lb_crypto lb) (s_id s)) (dv_ID d)
                 (aq_Nonce m) (aq_Signature m) of
            None \<Rightarrow> (Panics, s1)
          | Some False \<Rightarrow> (Fail CodePermissionDenied (Msg ''challenge signature does not verify''), s1)
          | Some True \<Rightarrow>
              (case tokens_mint (dv_ID d) now2 rnd (s_tokens s1) of
                 (None, t) \<Rightarrow> (Fail CodeInternal RandCause, s1\<lparr>s_tokens := t\<rparr>)
               | (Some (tok, exp), t) \<Rightarrow>
                   (let (r, dsk) = Touch (lb_json lb) io (dv_ID d) now3 (s_reg s1) (s_disk s1) in
                    (Reply \<lparr>ax_SessionToken = tok, ax_ExpiresAt = lb_new lb exp,
                            ax_Capabilities = dv_Capabilities d,
                            ax_TrustDomainId = id_TrustDomainID (s_id s)\<rparr>,
                     s1\<lparr>s_tokens := t, s_reg := r, s_disk := dsk\<rparr>)))))"

section \<open>LinkService\<close>

text \<open>\<open>auth\<close> is \<^verbatim>\<open>header.Get("Authorization")\<close>.\<close>

definition authorize :: "string \<Rightarrow> string \<Rightarrow> gotime \<Rightarrow> Server \<Rightarrow> string reply \<times> Server" where
  "authorize auth capability now s =
    (if \<not> prefix bearerPrefix auth
     then (Fail CodeUnauthenticated (Msg ''no link session token''), s)
     else
      (let (deviceID, t) = resolve (drop (length bearerPrefix) auth) now (s_tokens s);
           s1 = s\<lparr>s_tokens := t\<rparr>
       in if deviceID = []
          then (Fail CodeUnauthenticated (Msg ''session token is unknown or expired''), s1)
          else case Allowed deviceID capability (s_reg s1) of
            Some e \<Rightarrow> (Fail CodePermissionDenied (RegCause e), s1)
          | None \<Rightarrow> (Reply deviceID, s1)))"

definition GetStatus ::
    "'ts libs \<Rightarrow> gotime \<Rightarrow> string \<Rightarrow> Server \<Rightarrow> 'ts GetStatusResponse reply \<times> Server" where
  "GetStatus lb now auth s = map_reply_state (authorize auth CapStatusRead now s)
     (\<lambda>deviceID s1. let (cur, at, q) = hub_snapshot (s_hub s1) in
        (Reply \<lparr>gx_Status = statusToProto (lb_new lb) cur at, gx_Seq = q\<rparr>, s1))"

definition GetDigest ::
    "'ts libs \<Rightarrow> gotime \<Rightarrow> string \<Rightarrow> string \<Rightarrow> Server \<Rightarrow> 'ts linkv1_Digest reply \<times> Server" where
  "GetDigest lb now auth sessionID s = map_reply_state (authorize auth CapSessionRead now s)
     (\<lambda>deviceID s1.
        case s_digests s1 of
          None \<Rightarrow> (Fail CodeUnimplemented (Msg ''this host does not serve digests''), s1)
        | Some source \<Rightarrow>
            (if sessionID = [] \<or> length sessionID > MaxAskIDLen
             then (Fail CodeInvalidArgument (Msg ''session_id required''), s1)
             else case source sessionID of
               None \<Rightarrow> (Fail CodeNotFound (Msg ''no digest for that session''), s1)
             | Some d \<Rightarrow> (Reply (digestToProto (lb_new lb) (Digest_Clamp d)), s1)))"

text \<open>The calls up to the opening frame; the loop that follows is in \<open>Streams\<close>.\<close>

definition WatchStatus_open ::
    "gotime \<Rightarrow> string \<Rightarrow> Server \<Rightarrow> (nat \<times> frame) reply \<times> Server" where
  "WatchStatus_open now auth s = map_reply_state (authorize auth CapStatusRead now s)
     (\<lambda>deviceID s1. let (sub, h) = hub_subscribe deviceID (s_hub s1) in (Reply sub, s1\<lparr>s_hub := h\<rparr>))"

definition WatchPane_open ::
    "bool \<Rightarrow> gotime \<Rightarrow> string \<Rightarrow> string \<Rightarrow> Server \<Rightarrow> (string \<times> nat \<times> paneFrameMsg option) reply \<times> Server" where
  "WatchPane_open open_fails now auth sessionID0 s = map_reply_state (authorize auth CapSessionRead now s)
     (\<lambda>deviceID s1.
        if \<not> ph_source (s_paneHub s1)
        then (Fail CodeUnimplemented (Msg ''this host does not stream panes''), s1)
        else
         (let sessionID = TrimSpace sessionID0 in
          if sessionID = [] \<or> length sessionID > MaxAskIDLen
          then (Fail CodeInvalidArgument (Msg ''watch needs a session id''), s1)
          else case pane_subscribe deviceID sessionID open_fails (s_paneHub s1) of
            (None, h) \<Rightarrow> (Fail CodeUnavailable SourceCause, s1\<lparr>s_paneHub := h\<rparr>)
          | (Some (a, opening), h) \<Rightarrow> (Reply (sessionID, a, opening), s1\<lparr>s_paneHub := h\<rparr>)))"

text \<open>\<open>at\<close> is the clock reading inside \<^verbatim>\<open>ValidAnswer\<close> and \<^verbatim>\<open>ValidCommand\<close>.\<close>

definition SubmitAnswer ::
    "'ts libs \<Rightarrow> io \<Rightarrow> Outcome \<Rightarrow> gotime \<Rightarrow> gotime \<Rightarrow> gotime \<Rightarrow> string \<Rightarrow> SubmitAnswerRequest \<Rightarrow> Server
     \<Rightarrow> SubmitAnswerResponse reply \<times> Server" where
  "SubmitAnswer lb io out now1 at now2 auth m s = map_reply_state (authorize auth CapAgentAnswer now1 s)
     (\<lambda>deviceID s1.
        case ValidAnswer (nq_AskId m) (nq_Text m) at of
          Inl e \<Rightarrow> (Fail CodeInvalidArgument (ProjCause e), s1)
        | Inr a \<Rightarrow>
            (let s2 = s1\<lparr>s_exec := s_exec s1 @ [CallAnswer a]\<rparr>;
                 (r, d) = Touch (lb_json lb) io deviceID now2 (s_reg s2) (s_disk s2)
             in (Reply \<lparr>nx_Disposition = dispositionToProto (oc_Disposition out), nx_Note = oc_Note out\<rparr>,
                 s2\<lparr>s_reg := r, s_disk := d\<rparr>)))"

definition SubmitCommand ::
    "'ts libs \<Rightarrow> io \<Rightarrow> Outcome \<Rightarrow> gotime \<Rightarrow> gotime \<Rightarrow> gotime \<Rightarrow> string \<Rightarrow> SubmitCommandRequest \<Rightarrow> Server
     \<Rightarrow> SubmitCommandResponse reply \<times> Server" where
  "SubmitCommand lb io out now1 at now2 auth m s = map_reply_state (authorize auth CapAgentCommand now1 s)
     (\<lambda>deviceID s1.
        case ValidCommand (kindFromProto (cq_Kind m)) (cq_SessionId m) (cq_Workspace m) (cq_Prompt m) at of
          Inl e \<Rightarrow> (Fail CodeInvalidArgument (ProjCause e), s1)
        | Inr c \<Rightarrow>
            (let s2 = s1\<lparr>s_exec := s_exec s1 @ [CallExecute c]\<rparr>;
                 (r, d) = Touch (lb_json lb) io deviceID now2 (s_reg s2) (s_disk s2)
             in (Reply \<lparr>sx_CommandId = cmd_ID c, sx_Disposition = dispositionToProto (oc_Disposition out),
                        sx_Note = oc_Note out\<rparr>,
                 s2\<lparr>s_reg := r, s_disk := d\<rparr>)))"

section \<open>Lemmas on single operations\<close>

lemma clipDisplay_loop_eq: "clipDisplay_loop s n = take (clip_back s n) s"
  by (induction n) auto

lemma clipDisplay_eq: "clipDisplay s = clip s 200"
  by (simp add: clipDisplay_def clip_def clipDisplay_loop_eq)

lemma map_reply_state_snd:
  "snd (map_reply_state p f) = (case fst p of Reply x \<Rightarrow> snd (f x (snd p)) | _ \<Rightarrow> snd p)"
  by (cases "(p, f)" rule: map_reply_state.cases) simp_all

lemma map_reply_state_Reply:
  "map_reply_state p f = (Reply y, s') \<longleftrightarrow> (\<exists>x. fst p = Reply x \<and> f x (snd p) = (Reply y, s'))"
  by (cases "(p, f)" rule: map_reply_state.cases) auto

text \<open>\<^verbatim>\<open>authorize\<close> touches nothing but the session being looked up, and hands out only live devices that hold the capability and a token for it.\<close>

lemma Server_tokens_same: "s\<lparr>s_tokens := s_tokens s\<rparr> = (s :: Server)"
  by simp

lemma authorize_snd:
  "snd (authorize auth c now s) = s\<lparr>s_tokens :=
     if prefix bearerPrefix auth then snd (resolve (drop (length bearerPrefix) auth) now (s_tokens s))
     else s_tokens s\<rparr>"
proof (cases "resolve (drop (length bearerPrefix) auth) now (s_tokens s)")
  case (Pair i t)
  then show ?thesis
    by (cases "i = []"; cases "Allowed i c (s_reg s)") (simp_all add: authorize_def Let_def)
qed

lemma authorize_Reply:
  "fst (authorize auth c now s) = Reply i \<longleftrightarrow>
   (\<exists>tok. auth = bearerPrefix @ tok \<and> fst (resolve tok now (s_tokens s)) = i)
     \<and> i \<noteq> [] \<and> Allowed i c (s_reg s) = None"
  by (auto simp: authorize_def Let_def prefix_def split: prod.split option.split)

lemma authorize_keeps [simp]:
  "s_id (snd (authorize auth c now s)) = s_id s" "s_reg (snd (authorize auth c now s)) = s_reg s"
  "s_disk (snd (authorize auth c now s)) = s_disk s" "s_pairs (snd (authorize auth c now s)) = s_pairs s"
  "s_hub (snd (authorize auth c now s)) = s_hub s" "s_paneHub (snd (authorize auth c now s)) = s_paneHub s"
  "s_nonces (snd (authorize auth c now s)) = s_nonces s" "s_exec (snd (authorize auth c now s)) = s_exec s"
  "s_digests (snd (authorize auth c now s)) = s_digests s" "s_hostName (snd (authorize auth c now s)) = s_hostName s"
  by (simp_all add: authorize_snd)

lemma drop_sessions_keeps [simp]:
  "s_id (drop_sessions i s) = s_id s" "s_reg (drop_sessions i s) = s_reg s" "s_disk (drop_sessions i s) = s_disk s"
  "s_pairs (drop_sessions i s) = s_pairs s" "s_nonces (drop_sessions i s) = s_nonces s"
  "s_exec (drop_sessions i s) = s_exec s" "s_tokens (drop_sessions i s) = dropDevice i (s_tokens s)"
  "s_hub (drop_sessions i s) = hub_dropDevice i (s_hub s)"
  "s_paneHub (drop_sessions i s) = pane_dropDevice i (s_paneHub s)"
  by (simp_all add: drop_sessions_def)

text \<open>The handlers' effect, one equation for each handler that has one.\<close>

lemma Publish_snd:
  "snd (Publish lb st now s) = s\<lparr>s_hub := snd (hub_publish (st\<lparr>st_HostID := HostID (lb_crypto lb) (s_id s)\<rparr>) now (s_hub s))\<rparr>"
  by (simp add: Publish_def split: prod.split)

definition with_reg :: "Registry \<times> disk \<Rightarrow> Server \<Rightarrow> Server" where
  "with_reg rd s = s\<lparr>s_reg := fst rd, s_disk := snd rd\<rparr>"

lemma with_reg_simps [simp]:
  "s_id (with_reg rd s) = s_id s" "s_reg (with_reg rd s) = fst rd" "s_disk (with_reg rd s) = snd rd"
  "s_pairs (with_reg rd s) = s_pairs s" "s_hub (with_reg rd s) = s_hub s" "s_exec (with_reg rd s) = s_exec s"
  "s_paneHub (with_reg rd s) = s_paneHub s" "s_tokens (with_reg rd s) = s_tokens s" "s_nonces (with_reg rd s) = s_nonces s"
  by (simp_all add: with_reg_def)

definition reg_does :: "'ts libs \<Rightarrow> reg_op \<Rightarrow> Server \<Rightarrow> Server" where
  "reg_does lb rop s = with_reg (reg_step (lb_json lb) rop (s_reg s, s_disk s)) s"

lemma reg_does_simps [simp]:
  "s_id (reg_does lb rop s) = s_id s" "s_pairs (reg_does lb rop s) = s_pairs s"
  "s_reg (reg_does lb rop s) = fst (reg_step (lb_json lb) rop (s_reg s, s_disk s))"
  "s_disk (reg_does lb rop s) = snd (reg_step (lb_json lb) rop (s_reg s, s_disk s))"
  "s_hub (reg_does lb rop s) = s_hub s" "s_exec (reg_does lb rop s) = s_exec s"
  "s_paneHub (reg_does lb rop s) = s_paneHub s" "s_tokens (reg_does lb rop s) = s_tokens s"
  "s_nonces (reg_does lb rop s) = s_nonces s"
  by (simp_all add: reg_does_def)

lemma RevokeDevice_eq:
  "RevokeDevice lb io i now s =
    (let e = fst (Revoke (lb_json lb) io i now (s_reg s) (s_disk s)); s' = reg_does lb (OpRevoke io i now) s
     in (e, if e = None then drop_sessions i s' else s'))"
  by (cases "Revoke (lb_json lb) io i now (s_reg s) (s_disk s)")
    (auto simp: RevokeDevice_def reg_does_def with_reg_def Let_def split: option.split)

definition pair_verified :: "'ts libs \<Rightarrow> PairRequest \<Rightarrow> Server \<Rightarrow> bool" where
  "pair_verified lb m s \<longleftrightarrow> pq_ProtocolVersion m = ProtocolVersion
     \<and> length (pq_DevicePublicKey m) = PublicKeySize
     \<and> VerifyPairProof (lb_crypto lb) (pq_DevicePublicKey m) (HostID (lb_crypto lb) (s_id s))
         (pq_PairingSecret m) (pq_Proof m) = Some True"

lemma Pair_snd:
  "snd (Pair lb io t1 t2 m s) =
    (if \<not> pair_verified lb m s then s
     else let s1 = s\<lparr>s_pairs := snd (Redeem (pq_PairingSecret m) t1 (s_pairs s))\<rparr> in
       if \<not> fst (Redeem (pq_PairingSecret m) t1 (s_pairs s)) then s1
       else let d = requested_device lb m t2; s2 = reg_does lb (OpAdd io d) s1 in
         if fst (Registry_Add (lb_json lb) io d (s_reg s) (s_disk s)) = None then drop_sessions (dv_ID d) s2 else s2)"
  by (cases "Redeem (pq_PairingSecret m) t1 (s_pairs s)";
      cases "Registry_Add (lb_json lb) io (requested_device lb m t2) (s_reg s) (s_disk s)")
    (auto simp: Pair_def pair_verified_def reg_does_def with_reg_def Let_def split: option.split bool.split)

lemma Challenge_snd:
  "snd (Challenge lb rnd now i s) =
    (case live_device i s of None \<Rightarrow> s
     | Some d \<Rightarrow> s\<lparr>s_nonces := snd (nonces_mint (dv_ID d) now rnd (s_nonces s))\<rparr>)"
  by (auto simp: Challenge_def unknown_device_def split: option.split prod.split)

definition auth_verified :: "'ts libs \<Rightarrow> AuthenticateRequest \<Rightarrow> Device \<Rightarrow> Server \<Rightarrow> bool" where
  "auth_verified lb m d s \<longleftrightarrow> VerifyAuth (lb_crypto lb) (Device_Key d) (HostID (lb_crypto lb) (s_id s))
     (dv_ID d) (aq_Nonce m) (aq_Signature m) = Some True"

lemma Authenticate_snd:
  "snd (Authenticate lb io rnd t1 t2 t3 m s) =
    (case live_device (aq_DeviceId m) s of
       None \<Rightarrow> s
     | Some d \<Rightarrow>
         (let s1 = s\<lparr>s_nonces := snd (consume (aq_Nonce m) (dv_ID d) t1 (s_nonces s))\<rparr> in
          if \<not> fst (consume (aq_Nonce m) (dv_ID d) t1 (s_nonces s)) \<or> \<not> auth_verified lb m d s then s1
          else let s2 = s1\<lparr>s_tokens := snd (tokens_mint (dv_ID d) t2 rnd (s_tokens s))\<rparr> in
            if rnd = None then s2 else reg_does lb (OpTouch io (dv_ID d) t3) s2))"
proof (cases "live_device (aq_DeviceId m) s")
  case (Some d)
  obtain ok n where c: "consume (aq_Nonce m) (dv_ID d) t1 (s_nonces s) = (ok, n)" by fastforce
  obtain r dsk where t: "Touch (lb_json lb) io (dv_ID d) t3 (s_reg s) (s_disk s) = (r, dsk)" by fastforce
  show ?thesis using Some c t
    by (auto simp: Authenticate_def auth_verified_def tokens_mint_def reg_does_def with_reg_def Let_def
        split: option.split bool.split)
qed (simp add: Authenticate_def unknown_device_def)

lemma GetStatus_snd: "snd (GetStatus lb now auth s) = snd (authorize auth CapStatusRead now s)"
  by (simp add: GetStatus_def map_reply_state_snd Let_def split: reply.split prod.split)

lemma GetDigest_snd: "snd (GetDigest lb now auth sid s) = snd (authorize auth CapSessionRead now s)"
  by (simp add: GetDigest_def map_reply_state_snd split: reply.split option.split)

lemma WatchStatus_snd:
  "snd (WatchStatus_open now auth s) = (let s1 = snd (authorize auth CapStatusRead now s) in
     case fst (authorize auth CapStatusRead now s) of
       Reply i \<Rightarrow> s1\<lparr>s_hub := snd (hub_subscribe i (s_hub s))\<rparr> | _ \<Rightarrow> s1)"
  by (simp add: WatchStatus_open_def map_reply_state_snd Let_def split: reply.split prod.split)

lemma WatchPane_snd:
  "snd (WatchPane_open fails now auth sid s) = (let s1 = snd (authorize auth CapSessionRead now s) in
     case fst (authorize auth CapSessionRead now s) of
       Reply i \<Rightarrow>
         (if ph_source (s_paneHub s) \<and> TrimSpace sid \<noteq> [] \<and> length (TrimSpace sid) \<le> MaxAskIDLen
          then s1\<lparr>s_paneHub := snd (pane_subscribe i (TrimSpace sid) fails (s_paneHub s))\<rparr> else s1)
     | _ \<Rightarrow> s1)"
  by (auto simp: WatchPane_open_def map_reply_state_snd Let_def split: reply.split prod.split option.split)

lemma SubmitAnswer_snd:
  "snd (SubmitAnswer lb io out t1 at t2 auth m s) = (let s1 = snd (authorize auth CapAgentAnswer t1 s) in
     case (fst (authorize auth CapAgentAnswer t1 s), ValidAnswer (nq_AskId m) (nq_Text m) at) of
       (Reply i, Inr a) \<Rightarrow> reg_does lb (OpTouch io i t2) (s1\<lparr>s_exec := s_exec s @ [CallAnswer a]\<rparr>)
     | _ \<Rightarrow> s1)"
  by (simp add: SubmitAnswer_def map_reply_state_snd Let_def reg_does_def with_reg_def
      split: reply.split sum.split prod.split)

lemma SubmitCommand_snd:
  "snd (SubmitCommand lb io out t1 at t2 auth m s) = (let s1 = snd (authorize auth CapAgentCommand t1 s) in
     case (fst (authorize auth CapAgentCommand t1 s),
           ValidCommand (kindFromProto (cq_Kind m)) (cq_SessionId m) (cq_Workspace m) (cq_Prompt m) at) of
       (Reply i, Inr c) \<Rightarrow> reg_does lb (OpTouch io i t2) (s1\<lparr>s_exec := s_exec s @ [CallExecute c]\<rparr>)
     | _ \<Rightarrow> s1)"
  by (simp add: SubmitCommand_def map_reply_state_snd Let_def reg_does_def with_reg_def
      split: reply.split sum.split prod.split)

lemmas handler_effects = Publish_snd RevokeDevice_eq Pair_snd Challenge_snd Authenticate_snd GetStatus_snd
  GetDigest_snd WatchStatus_snd WatchPane_snd SubmitAnswer_snd SubmitCommand_snd

end
