(* ===== verification/LinkMachine.thy ===== *)
theory LinkMachine
  imports LinkServer
begin

text \<open>
  The link server as a state machine: every entry point as one operation, what an operation does to
  each component, the invariant every operation keeps, and the contract of an authority at the
  level of the whole server: a revoked device has no session, no stream and no RPC until it is
  paired again. Handlers run one at a time here; \<open>Streams\<close> takes them apart.
\<close>

section \<open>The server as a machine\<close>

text \<open>Everything that can happen to a server, one constructor per entry point: the embedding host's
  calls, the human's, the RPCs, and what open streams do to the hubs.\<close>

datatype srv_op =
    SPublish Status gotime
  | SPublishPane string PaneFrame
  | SRevoke io string gotime
  | SSetCapabilities io string "string list"
  | SOpenWindow "bytes option" gotime
  | SCloseWindow
  | SPair io gotime gotime PairRequest
  | SChallenge "bytes option" gotime string
  | SAuthenticate io "bytes option" gotime gotime gotime AuthenticateRequest
  | SGetStatus gotime string
  | SGetDigest gotime string string
  | SWatchStatus gotime string
  | SWatchPane bool gotime string string
  | SSubmitAnswer io Outcome gotime gotime gotime string SubmitAnswerRequest
  | SSubmitCommand io Outcome gotime gotime gotime string SubmitCommandRequest
  | SStatusStream hub_op
  | SPaneStream pane_op

text \<open>An open stream receives and leaves; it does not subscribe or publish by itself.\<close>

fun stream_op :: "srv_op \<Rightarrow> bool" where
  "stream_op (SStatusStream (HRecv a)) = True"
| "stream_op (SStatusStream (HUnsubscribe a)) = True"
| "stream_op (SStatusStream _) = False"
| "stream_op (SPaneStream (PRecv a)) = True"
| "stream_op (SPaneStream (PUnsubscribe sid a)) = True"
| "stream_op (SPaneStream _) = False"
| "stream_op _ = True"

fun srv_step :: "'ts libs \<Rightarrow> srv_op \<Rightarrow> Server \<Rightarrow> Server" where
  "srv_step lb (SPublish st now) s = snd (Publish lb st now s)"
| "srv_step lb (SPublishPane sid f) s = PublishPane sid f s"
| "srv_step lb (SRevoke io i now) s = snd (RevokeDevice lb io i now s)"
| "srv_step lb (SSetCapabilities io i caps) s =
     (let (e, r, d) = SetCapabilities (lb_json lb) io i caps (s_reg s) (s_disk s)
      in s\<lparr>s_reg := r, s_disk := d\<rparr>)"
| "srv_step lb (SOpenWindow rnd now) s = s\<lparr>s_pairs := snd (Manager_Open rnd now (s_pairs s))\<rparr>"
| "srv_step lb SCloseWindow s = s\<lparr>s_pairs := Manager_Close (s_pairs s)\<rparr>"
| "srv_step lb (SPair io t1 t2 m) s = snd (Pair lb io t1 t2 m s)"
| "srv_step lb (SChallenge rnd now i) s = snd (Challenge lb rnd now i s)"
| "srv_step lb (SAuthenticate io rnd t1 t2 t3 m) s = snd (Authenticate lb io rnd t1 t2 t3 m s)"
| "srv_step lb (SGetStatus now auth) s = snd (GetStatus lb now auth s)"
| "srv_step lb (SGetDigest now auth sid) s = snd (GetDigest lb now auth sid s)"
| "srv_step lb (SWatchStatus now auth) s = snd (WatchStatus_open now auth s)"
| "srv_step lb (SWatchPane fails now auth sid) s = snd (WatchPane_open fails now auth sid s)"
| "srv_step lb (SSubmitAnswer io out t1 at t2 auth m) s = snd (SubmitAnswer lb io out t1 at t2 auth m s)"
| "srv_step lb (SSubmitCommand io out t1 at t2 auth m) s = snd (SubmitCommand lb io out t1 at t2 auth m s)"
| "srv_step lb (SStatusStream op) s = s\<lparr>s_hub := hub_next op (s_hub s)\<rparr>"
| "srv_step lb (SPaneStream op) s = s\<lparr>s_paneHub := pane_act op (s_paneHub s)\<rparr>"

definition srv_wf :: "Server \<Rightarrow> bool" where
  "srv_wf s \<longleftrightarrow> book_wf (s_reg s) \<and> tokens_wf (s_tokens s) \<and> nonces_wf (s_nonces s)
     \<and> hub_wf (s_hub s) \<and> pane_wf (s_paneHub s)"

section \<open>What an operation does to each component\<close>

fun srv_enrols :: "'ts libs \<Rightarrow> srv_op \<Rightarrow> string \<Rightarrow> bool" where
  "srv_enrols lb (SPair io t1 t2 m) i = (DeviceIDFor (lb_crypto lb) (pq_DevicePublicKey m) = i)"
| "srv_enrols lb op i = False"

definition book_of :: "Server \<Rightarrow> Registry \<times> disk" where
  "book_of s = (s_reg s, s_disk s)"

text \<open>The book under the server only ever takes steps of the registry, and it enrols a device only
  when the server pairs it.\<close>

lemma srv_step_book:
  "book_of (srv_step lb op s) = book_of s
   \<or> (\<exists>rop. book_of (srv_step lb op s) = reg_step (lb_json lb) rop (book_of s)
        \<and> (\<forall>i. op_enrols rop i \<longrightarrow> srv_enrols lb op i))"
proof (cases op)
  case (SSetCapabilities io i caps)
  then have "book_of (srv_step lb op s) = reg_step (lb_json lb) (OpSetCapabilities io i caps) (book_of s)"
    by (simp add: book_of_def split: prod.split)
  then show ?thesis by (metis op_enrols.simps(2))
next
  case (SRevoke io i now)
  then have "book_of (srv_step lb op s) = reg_step (lb_json lb) (OpRevoke io i now) (book_of s)"
    by (simp add: book_of_def RevokeDevice_eq Let_def)
  then show ?thesis by (metis op_enrols.simps(4))
next
  case (SPair io t1 t2 m)
  let ?rop = "OpAdd io (requested_device lb m t2)"
  have "book_of (srv_step lb op s) = book_of s
    \<or> book_of (srv_step lb op s) = reg_step (lb_json lb) ?rop (book_of s)"
    using SPair by (simp add: book_of_def Pair_snd Let_def)
  moreover have "op_enrols ?rop i \<Longrightarrow> srv_enrols lb op i" for i
    using SPair by (simp add: requested_device_def)
  ultimately show ?thesis by blast
next
  case (SAuthenticate io rnd t1 t2 t3 m)
  have "book_of (srv_step lb op s) = book_of s
    \<or> (\<exists>i. book_of (srv_step lb op s) = reg_step (lb_json lb) (OpTouch io i t3) (book_of s))"
    using SAuthenticate by (auto simp: book_of_def Authenticate_snd Let_def split: option.split)
  then show ?thesis by (metis op_enrols.simps(3))
next
  case (SSubmitAnswer io out t1 at t2 auth m)
  have "book_of (srv_step lb op s) = book_of s
    \<or> (\<exists>i. book_of (srv_step lb op s) = reg_step (lb_json lb) (OpTouch io i t2) (book_of s))"
    using SSubmitAnswer by (auto simp: book_of_def SubmitAnswer_snd Let_def split: reply.split sum.split)
  then show ?thesis by (metis op_enrols.simps(3))
next
  case (SSubmitCommand io out t1 at t2 auth m)
  have "book_of (srv_step lb op s) = book_of s
    \<or> (\<exists>i. book_of (srv_step lb op s) = reg_step (lb_json lb) (OpTouch io i t2) (book_of s))"
    using SSubmitCommand by (auto simp: book_of_def SubmitCommand_snd Let_def split: reply.split sum.split)
  then show ?thesis by (metis op_enrols.simps(3))
qed (auto simp: book_of_def handler_effects PublishPane_def Let_def split: reply.split option.split)

text \<open>Sessions are looked up, dropped, or minted for a device the book knows as live.\<close>

datatype token_change = TkSame | TkResolve string gotime | TkDrop string | TkMint string gotime "bytes option"

fun tokens_do :: "token_change \<Rightarrow> tokens \<Rightarrow> tokens" where
  "tokens_do TkSame t = t"
| "tokens_do (TkResolve tok now) t = snd (resolve tok now t)"
| "tokens_do (TkDrop i) t = dropDevice i t"
| "tokens_do (TkMint i now rnd) t = snd (tokens_mint i now rnd t)"

definition token_change_of :: "Server \<Rightarrow> tokens \<Rightarrow> bool" where
  "token_change_of s t' \<longleftrightarrow> (\<exists>c. t' = tokens_do c (s_tokens s)
     \<and> (\<forall>i now rnd. c = TkMint i now rnd \<longrightarrow> (\<exists>j d. live_device j s = Some d \<and> dv_ID d = i)))"

lemma token_change_intros:
  "token_change_of s (s_tokens s)"
  "token_change_of s (dropDevice i (s_tokens s))"
  "token_change_of s (s_tokens (snd (authorize a cap now s)))"
  "live_device j s = Some d \<Longrightarrow> token_change_of s (snd (tokens_mint (dv_ID d) t2 rnd (s_tokens s)))"
proof -
  show "token_change_of s (s_tokens s)"
    unfolding token_change_of_def by (rule exI [of _ TkSame]) simp
  show "token_change_of s (dropDevice i (s_tokens s))"
    unfolding token_change_of_def by (rule exI [of _ "TkDrop i"]) simp
  have "token_change_of s (snd (resolve tok now (s_tokens s)))" for tok
    unfolding token_change_of_def by (rule exI [of _ "TkResolve tok now"]) simp
  then show "token_change_of s (s_tokens (snd (authorize a cap now s)))"
    using \<open>token_change_of s (s_tokens s)\<close> by (simp add: authorize_snd)
  show "token_change_of s (snd (tokens_mint (dv_ID d) t2 rnd (s_tokens s)))" if "live_device j s = Some d"
    unfolding token_change_of_def using that by (intro exI [of _ "TkMint (dv_ID d) t2 rnd"]) auto
qed

lemma srv_step_tokens: "token_change_of s (s_tokens (srv_step lb op s))"
  by (cases op) (auto simp: handler_effects PublishPane_def Let_def token_change_intros
      split: prod.split reply.split sum.split option.split)

definition hub_change_of :: "Server \<Rightarrow> hub \<Rightarrow> bool" where
  "hub_change_of s h' \<longleftrightarrow> h' = s_hub s
     \<or> (\<exists>op. h' = hub_next op (s_hub s) \<and> (\<forall>i. op = HSubscribe i \<longrightarrow> (\<exists>c. Allowed i c (s_reg s) = None)))"

lemma hub_change_intros:
  "hub_change_of s (s_hub s)"
  "hub_change_of s (snd (hub_publish st at (s_hub s)))"
  "hub_change_of s (hub_dropDevice i (s_hub s))"
  "hub_change_of s (snd (hub_recv a (s_hub s)))"
  "hub_change_of s (hub_unsubscribe a (s_hub s))"
  "fst (authorize auth c now s) = Reply j \<Longrightarrow> hub_change_of s (snd (hub_subscribe j (s_hub s)))"
proof -
  show "hub_change_of s (s_hub s)" by (simp add: hub_change_of_def)
  show "hub_change_of s (snd (hub_publish st at (s_hub s)))"
    unfolding hub_change_of_def by (intro disjI2 exI [of _ "HPublish st at"]) simp
  show "hub_change_of s (hub_dropDevice i (s_hub s))"
    unfolding hub_change_of_def by (intro disjI2 exI [of _ "HDropDevice i"]) simp
  show "hub_change_of s (snd (hub_recv a (s_hub s)))"
    unfolding hub_change_of_def by (intro disjI2 exI [of _ "HRecv a"]) simp
  show "hub_change_of s (hub_unsubscribe a (s_hub s))"
    unfolding hub_change_of_def by (intro disjI2 exI [of _ "HUnsubscribe a"]) simp
  show "hub_change_of s (snd (hub_subscribe j (s_hub s)))" if "fst (authorize auth c now s) = Reply j"
    unfolding hub_change_of_def using that
    by (intro disjI2 exI [of _ "HSubscribe j"]) (auto simp: authorize_Reply)
qed

lemma srv_step_hub: "stream_op op \<Longrightarrow> hub_change_of s (s_hub (srv_step lb op s))"
proof (cases op)
  case (SStatusStream hop)
  then show "stream_op op \<Longrightarrow> ?thesis" by (cases hop) (simp_all add: hub_change_intros)
qed (auto simp: handler_effects PublishPane_def Let_def hub_change_intros
    split: prod.split reply.split sum.split option.split)

definition pane_change_of :: "Server \<Rightarrow> paneHub \<Rightarrow> bool" where
  "pane_change_of s h' \<longleftrightarrow> h' = s_paneHub s
     \<or> (\<exists>op. h' = pane_act op (s_paneHub s)
          \<and> (\<forall>i sid fails. op = PSubscribe i sid fails \<longrightarrow> (\<exists>c. Allowed i c (s_reg s) = None)))"

lemma pane_change_intros:
  "pane_change_of s (s_paneHub s)"
  "pane_change_of s (pane_publish sid f (s_paneHub s))"
  "pane_change_of s (pane_dropDevice i (s_paneHub s))"
  "pane_change_of s (pane_act (PRecv a) (s_paneHub s))"
  "pane_change_of s (pane_act (PUnsubscribe sid a) (s_paneHub s))"
  "fst (authorize auth c now s) = Reply j \<Longrightarrow> pane_change_of s (snd (pane_subscribe j sid fails (s_paneHub s)))"
proof -
  show "pane_change_of s (s_paneHub s)" by (simp add: pane_change_of_def)
  show "pane_change_of s (pane_publish sid f (s_paneHub s))"
    unfolding pane_change_of_def by (intro disjI2 exI [of _ "PPublish sid f"]) (simp add: pane_act_def)
  show "pane_change_of s (pane_dropDevice i (s_paneHub s))"
    unfolding pane_change_of_def by (intro disjI2 exI [of _ "PDropDevice i"]) (simp add: pane_act_def)
  show "pane_change_of s (pane_act (PRecv a) (s_paneHub s))"
    unfolding pane_change_of_def by (intro disjI2 exI [of _ "PRecv a"]) simp
  show "pane_change_of s (pane_act (PUnsubscribe sid a) (s_paneHub s))"
    unfolding pane_change_of_def by (intro disjI2 exI [of _ "PUnsubscribe sid a"]) simp
  show "pane_change_of s (snd (pane_subscribe j sid fails (s_paneHub s)))"
    if "fst (authorize auth c now s) = Reply j"
    unfolding pane_change_of_def using that
    by (intro disjI2 exI [of _ "PSubscribe j sid fails"]) (auto simp: authorize_Reply pane_act_def)
qed

lemma srv_step_pane: "stream_op op \<Longrightarrow> pane_change_of s (s_paneHub (srv_step lb op s))"
proof (cases op)
  case (SPaneStream pop)
  then show "stream_op op \<Longrightarrow> ?thesis" by (cases pop) (simp_all add: pane_change_intros del: pane_ok.simps)
qed (auto simp: handler_effects PublishPane_def Let_def pane_change_intros
    split: prod.split reply.split sum.split option.split)

lemma srv_step_nonces: "nonces_wf (s_nonces s) \<Longrightarrow> nonces_wf (s_nonces (srv_step lb op s))"
  by (cases op) (auto simp: handler_effects PublishPane_def Let_def wf_intros
      split: prod.split reply.split sum.split option.split)

lemma srv_wf_step [wf_intros]:
  assumes "srv_wf s" and "stream_op op"
  shows "srv_wf (srv_step lb op s)"
proof -
  have "book_wf (s_reg (srv_step lb op s))"
  proof -
    obtain rop where "s_reg (srv_step lb op s) = s_reg s
        \<or> s_reg (srv_step lb op s) = fst (reg_step (lb_json lb) rop (s_reg s, s_disk s))"
      using srv_step_book [of lb op s] by (auto simp: book_of_def) (metis fst_conv)
    then show ?thesis using assms(1) reg_step_book [of "lb_json lb" rop "s_reg s" "s_disk s"] changes_book(2)
      by (auto simp: srv_wf_def)
  qed
  moreover have "tokens_wf (s_tokens (srv_step lb op s))"
  proof -
    obtain c where "s_tokens (srv_step lb op s) = tokens_do c (s_tokens s)"
      using srv_step_tokens unfolding token_change_of_def by blast
    then show ?thesis using assms(1) by (cases c) (simp_all add: srv_wf_def wf_intros)
  qed
  moreover have "hub_wf (s_hub (srv_step lb op s))"
    using srv_step_hub [OF assms(2), of s lb] assms(1)
    unfolding hub_change_of_def srv_wf_def by (metis hub_wf_next)
  moreover have "pane_wf (s_paneHub (srv_step lb op s))"
    using srv_step_pane [OF assms(2), of s lb] assms(1)
    unfolding pane_change_of_def srv_wf_def by (metis pane_wf_act)
  ultimately show ?thesis using assms(1) srv_step_nonces [of s lb op] by (simp add: srv_wf_def)
qed

section \<open>Nothing of a revoked device is left\<close>

lemma subs_of_next:
  "(\<And>d. op = HSubscribe d \<Longrightarrow> d \<noteq> dev) \<Longrightarrow> subs_of dev (hub_next op h) \<subseteq> subs_of dev h"
  by (cases op) (auto simp: subs_of_def hub_publish_def hub_subscribe_def hub_unsubscribe_def hub_recv_eq
      hub_dropDevice_def Let_def split: if_split_asm)

lemma subs_of_drop: "subs_of dev (hub_dropDevice dev h) = {}"
proof -
  define D where "D = set (filter (\<lambda>a. case map_of (h_heap h) a of None \<Rightarrow> False
    | Some s \<Rightarrow> su_deviceID s = dev) (h_subs h))"
  have parts: "set (h_subs (hub_dropDevice dev h)) = set (h_subs h) - D"
    "h_heap (hub_dropDevice dev h) = heap_mod D subscriber_close (h_heap h)"
    unfolding hub_dropDevice_def Let_def D_def by auto
  have False if a: "a \<in> subs_of dev (hub_dropDevice dev h)" for a
  proof -
    obtain s where s: "a \<in> set (h_subs h)" "a \<notin> D" "su_deviceID s = dev"
      "map_of (heap_mod D subscriber_close (h_heap h)) a = Some s"
      using a unfolding subs_of_def parts by blast
    obtain z where z: "map_of (h_heap h) a = Some z" using s(4) by auto
    then have "z = s" using s(2,4) by simp
    then show False using s z by (simp add: D_def)
  qed
  then show ?thesis by blast
qed

lemma owned_by_heap_mod:
  assumes "ph_heap h' = heap_mod A g (ph_heap h)" and "\<And>s. su_deviceID (g s) = su_deviceID s"
  shows "owned_by dev h' a = owned_by dev h a"
  by (cases "map_of (ph_heap h) a") (simp_all add: owned_by_def assms)

lemma owned_by_same: "ph_heap h' = ph_heap h \<Longrightarrow> owned_by dev h' a = owned_by dev h a"
  by (simp add: owned_by_def)

lemma doomed_mono:
  "(\<And>a x. a \<in> watchers h' x \<Longrightarrow> owned_by dev h' a \<Longrightarrow> a \<in> watchers h x \<and> owned_by dev h a) \<Longrightarrow>
   doomed dev h' \<subseteq> doomed dev h"
  by (auto simp: doomed_def)

lemma doomed_publish: "doomed dev (pane_publish x f h) \<subseteq> doomed dev h"
proof (cases "watchers h x = {}")
  case False
  have "owned_by dev (pane_publish x f h) a = owned_by dev h a" for a
    by (rule owned_by_heap_mod) (rule pane_publish_views(5) [OF False], simp)
  then show ?thesis by (intro doomed_mono) (simp add: pane_publish_same)
qed (simp add: pane_publish_eq)

lemma doomed_subscribe:
  assumes "d \<noteq> dev"
  shows "doomed dev (snd (pane_subscribe d x fails h)) \<subseteq> doomed dev h"
proof -
  obtain r h' where s: "pane_subscribe d x fails h = (r, h')" by fastforce
  show ?thesis
  proof (cases r)
    case None
    with s have s: "pane_subscribe d x fails h = (None, h')" by simp
    note v = pane_subscribe_refused [OF s]
    show ?thesis unfolding s snd_conv by (intro doomed_mono) (simp add: v(1) owned_by_def v(5))
  next
    case (Some p)
    obtain w q where "p = (w, q)" by fastforce
    with s Some have s: "pane_subscribe d x fails h = (Some (w, q), h')" by simp
    note v = pane_subscribe_done [OF s]
    have "owned_by dev h' a \<Longrightarrow> a \<noteq> w \<and> owned_by dev h a" for a
      using assms by (simp add: owned_by_def v(5) split: if_split_asm)
    then show ?thesis unfolding s snd_conv by (intro doomed_mono) (auto simp: v(1) split: if_split_asm)
  qed
qed

lemma doomed_unsubscribe: "doomed dev (pane_unsubscribe x a h) \<subseteq> doomed dev h"
proof -
  have "ph_heap (pane_unsubscribe x a h) = heap_mod {a} subscriber_close (ph_heap h)"
    by (simp add: pane_unsubscribe_def Let_def split: option.split prod.split)
  then have "owned_by dev (pane_unsubscribe x a h) w = owned_by dev h w" for w
    by (rule owned_by_heap_mod) simp
  then show ?thesis by (intro doomed_mono) (auto dest: pane_unsubscribe_parts(4))
qed

lemma doomed_dropDevice: "doomed dev (pane_dropDevice d h) \<subseteq> doomed dev h"
proof -
  have "owned_by dev (pane_dropDevice d h) w = owned_by dev h w" for w
    by (simp add: owned_by_def pane_dropDevice_def Let_def split: option.split)
  then show ?thesis by (intro doomed_mono) (auto dest: pane_dropDevice_parts(4))
qed

lemma doomed_dropDevice_self: "doomed dev (pane_dropDevice dev h) = {}"
proof -
  have "owned_by dev (pane_dropDevice dev h) w = owned_by dev h w" for w
    by (simp add: owned_by_def pane_dropDevice_def Let_def split: option.split)
  then show ?thesis by (auto simp: doomed_def watchers_def session_at_drop swept_simps)
qed

lemma doomed_recv: "doomed dev (snd (pane_recv a h)) \<subseteq> doomed dev h"
proof -
  have "owned_by dev (snd (pane_recv a h)) w = owned_by dev h w" for w
  proof (cases "map_of (ph_heap h) a")
    case (Some s)
    then have "ph_heap (snd (pane_recv a h))
        = heap_mod {a} (\<lambda>s'. s'\<lparr>su_updates := snd (try_recv (su_updates s))\<rparr>) (ph_heap h)"
      by (simp add: pane_recv_eq)
    then show ?thesis by (rule owned_by_heap_mod) simp
  qed (simp add: owned_by_def pane_recv_eq)
  then show ?thesis by (intro doomed_mono) simp
qed

lemma doomed_act:
  "(\<And>d x fails. op = PSubscribe d x fails \<Longrightarrow> d \<noteq> dev) \<Longrightarrow> doomed dev (pane_act op h) \<subseteq> doomed dev h"
  by (cases op) (simp_all add: pane_act_def doomed_publish doomed_subscribe doomed_unsubscribe
      doomed_dropDevice doomed_recv del: pane_ok.simps)

text \<open>Gone: barred in the book, no session token, no status stream, no pane stream.\<close>

definition device_gone :: "Server \<Rightarrow> string \<Rightarrow> bool" where
  "device_gone s i \<longleftrightarrow> book_bars i (s_reg s) \<and> (\<forall>tok. \<not> holds_token (s_tokens s) i tok)
     \<and> subs_of i (s_hub s) = {} \<and> doomed i (s_paneHub s) = {}"

text \<open>Some header, at some time, would get this device past \<^verbatim>\<open>authorize\<close> for the capability, or it has a token or a stream left.\<close>

definition device_reaches :: "Server \<Rightarrow> string \<Rightarrow> string \<Rightarrow> bool" where
  "device_reaches s i c \<longleftrightarrow> (\<exists>auth now. fst (authorize auth c now s) = Reply i)
     \<or> (\<exists>tok. holds_token (s_tokens s) i tok) \<or> subs_of i (s_hub s) \<noteq> {} \<or> doomed i (s_paneHub s) \<noteq> {}"

lemma live_device_ID: "srv_wf s \<Longrightarrow> live_device j s = Some d \<Longrightarrow> dv_ID d = j \<and> \<not> book_bars j (s_reg s)"
  by (auto simp: live_device_def Registry_Get_def srv_wf_def book_bars_def dest: book_wf_ID
      split: option.split_asm if_split_asm)

lemma srv_step_gone:
  assumes wf: "srv_wf s" and so: "stream_op op" and gone: "device_gone s i" and ne: "\<not> srv_enrols lb op i"
  shows "device_gone (srv_step lb op s) i"
proof -
  have bars: "book_bars i (s_reg s)" using gone by (simp add: device_gone_def)
  have denied: "Allowed i c (s_reg s) \<noteq> None" for c by (rule book_bars_Allowed) (rule bars)
  have "book_bars i (s_reg (srv_step lb op s))"
  proof -
    consider "s_reg (srv_step lb op s) = s_reg s"
      | rop where "s_reg (srv_step lb op s) = fst (reg_step (lb_json lb) rop (s_reg s, s_disk s))" "\<not> op_enrols rop i"
      using srv_step_book [of lb op s] ne unfolding book_of_def by (metis fst_conv)
    then show ?thesis using bars reg_step_book_bars by cases auto
  qed
  moreover have "\<not> holds_token (s_tokens (srv_step lb op s)) i tok" for tok
  proof -
    obtain c where c: "s_tokens (srv_step lb op s) = tokens_do c (s_tokens s)"
      "\<And>j now rnd. c = TkMint j now rnd \<Longrightarrow> \<exists>k d. live_device k s = Some d \<and> dv_ID d = j"
      using srv_step_tokens [of s lb op] unfolding token_change_of_def by blast
    have none: "\<not> holds_token (s_tokens s) i tok" using gone by (simp add: device_gone_def)
    show ?thesis
    proof (cases c)
      case (TkMint j now rnd)
      then have "j \<noteq> i" using c(2) live_device_ID [OF wf] bars by blast
      then show ?thesis using none TkMint c(1) holds_token_steps(2) by fastforce
    qed (use c(1) none wf holds_token_steps(1) holds_token_drop in \<open>auto simp: srv_wf_def\<close>)
  qed
  moreover have "subs_of i (s_hub (srv_step lb op s)) = {}"
  proof -
    consider "s_hub (srv_step lb op s) = s_hub s"
      | hop where "s_hub (srv_step lb op s) = hub_next hop (s_hub s)" "\<And>d. hop = HSubscribe d \<Longrightarrow> d \<noteq> i"
      using srv_step_hub [OF so, of s lb] denied unfolding hub_change_of_def by blast
    then have "subs_of i (s_hub (srv_step lb op s)) \<subseteq> subs_of i (s_hub s)"
      by cases (simp_all add: subs_of_next)
    then show ?thesis using gone by (simp add: device_gone_def)
  qed
  moreover have "doomed i (s_paneHub (srv_step lb op s)) = {}"
  proof -
    consider "s_paneHub (srv_step lb op s) = s_paneHub s"
      | pop where "s_paneHub (srv_step lb op s) = pane_act pop (s_paneHub s)"
          "\<And>d x fails. pop = PSubscribe d x fails \<Longrightarrow> d \<noteq> i"
      using srv_step_pane [OF so, of s lb] denied unfolding pane_change_of_def by blast
    then have "doomed i (s_paneHub (srv_step lb op s)) \<subseteq> doomed i (s_paneHub s)"
      by cases (simp_all add: doomed_act)
    then show ?thesis using gone by (simp add: device_gone_def)
  qed
  ultimately show ?thesis by (simp add: device_gone_def)
qed

interpretation srv: authority "srv_step lb" stream_op srv_wf "srv_enrols lb" device_gone device_reaches
proof
  fix s op i c
  show "srv_wf s \<Longrightarrow> stream_op op \<Longrightarrow> srv_wf (srv_step lb op s)" by (rule srv_wf_step)
  show "srv_wf s \<Longrightarrow> stream_op op \<Longrightarrow> device_gone s i \<Longrightarrow> \<not> srv_enrols lb op i \<Longrightarrow>
    device_gone (srv_step lb op s) i" by (rule srv_step_gone)
  show "device_gone s i \<Longrightarrow> \<not> device_reaches s i c"
    using book_bars_Allowed by (auto simp: device_gone_def device_reaches_def authorize_Reply)
qed

lemma NewServer_wf:
  assumes "NewServer opt d = Some s" and "\<And>r. o_Registry opt = Some r \<Longrightarrow> book_wf r"
  shows "srv_wf s"
  using assms by (auto simp: NewServer_def srv_wf_def hub_wf_new pane_wf_new wf_intros
      split: option.split_asm bool.split_asm)

section \<open>Handlers in detail\<close>

lemma Revoke_bars: "Revoke rj io i now r d = (None, r', d') \<Longrightarrow> book_bars i r'"
  by (auto simp: Revoke_def Let_def book_bars_def Revoked_def split: option.splits prod.splits if_splits)

lemma drop_sessions_gone:
  "tokens_wf (s_tokens s) \<Longrightarrow> (\<not> holds_token (s_tokens (drop_sessions i s)) i tok)
    \<and> subs_of i (s_hub (drop_sessions i s)) = {} \<and> doomed i (s_paneHub (drop_sessions i s)) = {}"
  by (simp add: holds_token_drop subs_of_drop doomed_dropDevice_self)

lemma RevokeDevice_gone:
  assumes "srv_wf s" and "RevokeDevice lb io i now s = (None, s')"
  shows "device_gone s' i"
proof -
  have r: "fst (Revoke (lb_json lb) io i now (s_reg s) (s_disk s)) = None"
    and s': "s' = drop_sessions i (reg_does lb (OpRevoke io i now) s)"
    using assms(2) by (auto simp: RevokeDevice_eq Let_def split: if_split_asm)
  have "book_bars i (s_reg s')"
    using r Revoke_bars [of "lb_json lb" io i now "s_reg s" "s_disk s"]
    by (cases "Revoke (lb_json lb) io i now (s_reg s) (s_disk s)") (simp add: s')
  moreover have "tokens_wf (s_tokens (reg_does lb (OpRevoke io i now) s))"
    using assms(1) by (simp add: srv_wf_def)
  ultimately show ?thesis using drop_sessions_gone unfolding device_gone_def s' by blast
qed

lemma Redeem_pairs:
  "Redeem x t m = (ok, m') \<Longrightarrow> ok = (OpenNow t m \<and> x = pm_secret m) \<and> (ok \<longrightarrow> pm_secret m' = []) \<and> (\<not> ok \<longrightarrow> m' = m)"
  by (auto simp: Redeem_def OpenNow_def Let_def split: if_split_asm)

text \<open>The whole outcome of a pairing request that got as far as the window.\<close>

lemma Pair_unverified:
  assumes "\<not> pair_verified lb m s"
  shows "snd (Pair lb io t1 t2 m s) = s" "fst (Pair lb io t1 t2 m s) \<noteq> Reply x"
proof -
  show "snd (Pair lb io t1 t2 m s) = s" using assms by (simp add: Pair_snd)
  show "fst (Pair lb io t1 t2 m s) \<noteq> Reply x"
    using assms by (auto simp: Pair_def pair_verified_def split: option.split bool.split)
qed

lemma Pair_refused:
  assumes "pair_verified lb m s" and "\<not> (OpenNow t1 (s_pairs s) \<and> pq_PairingSecret m = pm_secret (s_pairs s))"
  shows "Pair lb io t1 t2 m s = (Fail CodePermissionDenied (Msg ''no open pairing window for that secret''), s)"
  using assms Redeem_pairs [of "pq_PairingSecret m" t1 "s_pairs s"]
  by (cases "Redeem (pq_PairingSecret m) t1 (s_pairs s)") (auto simp: Pair_def pair_verified_def Let_def)

lemma Pair_admitted:
  assumes "pair_verified lb m s" and "OpenNow t1 (s_pairs s) \<and> pq_PairingSecret m = pm_secret (s_pairs s)"
    and "Registry_Add (lb_json lb) io (requested_device lb m t2) (s_reg s) (s_disk s) = (e, r, d)"
  shows "snd (Pair lb io t1 t2 m s) =
      (let s2 = s\<lparr>s_pairs := (s_pairs s)\<lparr>pm_secret := []\<rparr>, s_reg := r, s_disk := d\<rparr>
       in if e = None then drop_sessions (DeviceIDFor (lb_crypto lb) (pq_DevicePublicKey m)) s2 else s2)"
    and "(\<exists>x. fst (Pair lb io t1 t2 m s) = Reply x) \<longleftrightarrow> e = None"
    and "fst (Pair lb io t1 t2 m s) = Reply x \<Longrightarrow>
      px_DeviceId x = DeviceIDFor (lb_crypto lb) (pq_DevicePublicKey m)
      \<and> px_GrantedCapabilities x = (case Registry_Get (px_DeviceId x) r of None \<Rightarrow> [] | Some g \<Rightarrow> dv_Capabilities g)"
proof -
  have rd: "Redeem (pq_PairingSecret m) t1 (s_pairs s) = (True, (s_pairs s)\<lparr>pm_secret := []\<rparr>)"
    using assms(2) by (auto simp: Redeem_def OpenNow_def Let_def)
  have id: "dv_ID (requested_device lb m t2) = DeviceIDFor (lb_crypto lb) (pq_DevicePublicKey m)"
    by (simp add: requested_device_def)
  note v = assms(1) [unfolded pair_verified_def]
  show "snd (Pair lb io t1 t2 m s) =
      (let s2 = s\<lparr>s_pairs := (s_pairs s)\<lparr>pm_secret := []\<rparr>, s_reg := r, s_disk := d\<rparr>
       in if e = None then drop_sessions (DeviceIDFor (lb_crypto lb) (pq_DevicePublicKey m)) s2 else s2)"
    using v rd assms(3) id by (simp add: Pair_def Let_def split: option.split)
  show "(\<exists>x. fst (Pair lb io t1 t2 m s) = Reply x) \<longleftrightarrow> e = None"
    using v rd assms(3) by (simp add: Pair_def Let_def split: option.split)
  show "fst (Pair lb io t1 t2 m s) = Reply x \<Longrightarrow>
      px_DeviceId x = DeviceIDFor (lb_crypto lb) (pq_DevicePublicKey m)
      \<and> px_GrantedCapabilities x = (case Registry_Get (px_DeviceId x) r of None \<Rightarrow> [] | Some g \<Rightarrow> dv_Capabilities g)"
    using v rd assms(3) id by (auto simp: Pair_def Let_def split: option.split_asm)
qed

lemma Add_done:
  "Registry_Add rj io dev r d = (None, r', d') \<Longrightarrow>
   Registry_Get (dv_ID dev) r' = Some (dev\<lparr>dv_Capabilities := keep_known (dv_Capabilities dev)\<rparr>)
   \<and> (\<forall>i. i \<noteq> dv_ID dev \<longrightarrow> Registry_Get i r' = Registry_Get i r) \<and> length (dv_PublicKey dev) = PublicKeySize"
  by (auto simp: Registry_Add_def Registry_Get_def Let_def split: prod.split_asm if_split_asm)

text \<open>What an answered challenge proves and leaves behind.\<close>

lemma Authenticate_Reply:
  assumes "Authenticate lb io rnd t1 t2 t3 m s = (Reply x, s')"
  obtains d v raw where "live_device (aq_DeviceId m) s = Some d" and "auth_verified lb m d s"
    and "map_of (ns_issued (s_nonces s)) (RawURLEncoding_EncodeToString (aq_Nonce m)) = Some v"
    and "t1 < nn_expires v" and "nn_deviceID v = dv_ID d" and "rnd = Some raw"
    and "ax_SessionToken x = RawURLEncoding_EncodeToString raw"
    and "ax_Capabilities x = dv_Capabilities d"
proof -
  obtain d where d: "live_device (aq_DeviceId m) s = Some d"
    using assms by (auto simp: Authenticate_def unknown_device_def split: option.split_asm)
  obtain ok n where c: "consume (aq_Nonce m) (dv_ID d) t1 (s_nonces s) = (ok, n)" by fastforce
  have ok: "ok" using assms d c by (auto simp: Authenticate_def Let_def split: if_split_asm)
  have av: "auth_verified lb m d s"
    using assms d c ok by (auto simp: Authenticate_def auth_verified_def Let_def split: option.split_asm bool.split_asm)
  obtain raw where r: "rnd = Some raw"
    using assms d c ok av by (cases rnd) (auto simp: Authenticate_def auth_verified_def Let_def tokens_mint_def)
  have x: "ax_SessionToken x = RawURLEncoding_EncodeToString raw" "ax_Capabilities x = dv_Capabilities d"
    using assms d c ok av r
    by (auto simp: Authenticate_def auth_verified_def Let_def tokens_mint_def split: prod.split_asm)
  obtain v where "map_of (ns_issued (s_nonces s)) (RawURLEncoding_EncodeToString (aq_Nonce m)) = Some v"
    "t1 < nn_expires v" "nn_deviceID v = dv_ID d"
    using c ok by (auto simp: consume_def Let_def split: option.split_asm)
  then show ?thesis using that d av r x by blast
qed

lemma Authenticate_burns:
  "live_device (aq_DeviceId m) s \<noteq> None \<Longrightarrow>
   \<not> nonce_live (s_nonces (snd (Authenticate lb io rnd t1 t2 t3 m s))) (aq_Nonce m)"
proof -
  assume "live_device (aq_DeviceId m) s \<noteq> None"
  then obtain d where d: "live_device (aq_DeviceId m) s = Some d" by auto
  obtain ok n where c: "consume (aq_Nonce m) (dv_ID d) t1 (s_nonces s) = (ok, n)" by fastforce
  have "\<not> nonce_live n (aq_Nonce m)" using c by (auto simp: consume_def Let_def nonce_live_def split: option.split_asm)
  then show ?thesis using d c by (simp add: Authenticate_snd Let_def)
qed

lemma live_device_Allowed:
  "live_device i s = Some d \<Longrightarrow> Allowed i c (s_reg s) = None \<longleftrightarrow> c \<in> set (dv_Capabilities d)"
  by (auto simp: live_device_def Allowed_def Registry_Get_def split: option.split_asm if_split_asm)

end
