(* ===== verification/Enrolment.thy ===== *)
theory Enrolment
  imports LinkMachine
begin

text \<open>
  The path of a device into the host, handler by handler: what \<^verbatim>\<open>Pair\<close>, \<^verbatim>\<open>Challenge\<close> and
  \<^verbatim>\<open>Authenticate\<close> of \<^verbatim>\<open>src/link/server.go\<close> answer to a device that follows the protocol, and what
  \<^verbatim>\<open>authorize\<close> makes of the session token it ends up with.
\<close>

section \<open>The book under a session\<close>

lemma Touch_Allowed: "Allowed j c (fst (Touch rj io i at r d)) = Allowed j c r"
  by (auto simp: Touch_def Allowed_def Let_def Revoked_def split: option.split)

text \<open>A token just minted is the device's until it expires.\<close>

lemma minted_resolves:
  "fst (resolve (RawURLEncoding_EncodeToString raw) u (snd (tokens_mint dev now (Some raw) t)))
   = (if u < now + tokenTTL then dev else [])"
  by (simp add: tokens_mint_def resolve_def Let_def)

lemma authorize_bearer:
  "fst (authorize (bearerPrefix @ tok) c u s) = Reply i \<longleftrightarrow>
   fst (resolve tok u (s_tokens s)) = i \<and> i \<noteq> [] \<and> Allowed i c (s_reg s) = None"
  by (auto simp: authorize_Reply)

lemma Authenticate_state:
  assumes "Authenticate lb io (Some raw) t1 t2 t3 m s = (Reply x, s')" and "live_device (aq_DeviceId m) s = Some d"
  shows "s_tokens s' = snd (tokens_mint (dv_ID d) t2 (Some raw) (s_tokens s))"
    and "Allowed j c (s_reg s') = Allowed j c (s_reg s)"
proof -
  obtain ok n where c: "consume (aq_Nonce m) (dv_ID d) t1 (s_nonces s) = (ok, n)" by fastforce
  obtain r dsk where t: "Touch (lb_json lb) io (dv_ID d) t3 (s_reg s) (s_disk s) = (r, dsk)" by fastforce
  have s': "s' = s\<lparr>s_nonces := n, s_tokens := snd (tokens_mint (dv_ID d) t2 (Some raw) (s_tokens s)),
      s_reg := r, s_disk := dsk\<rparr>"
    using assms c t
    by (auto simp: Authenticate_def tokens_mint_def Let_def split: if_split_asm option.split_asm bool.split_asm)
  then show "s_tokens s' = snd (tokens_mint (dv_ID d) t2 (Some raw) (s_tokens s))" by simp
  show "Allowed j c (s_reg s') = Allowed j c (s_reg s)"
    using s' t Touch_Allowed [of j c "lb_json lb" io "dv_ID d" t3 "s_reg s" "s_disk s"] by simp
qed

lemma Authenticate_refused:
  assumes "Authenticate lb io rnd t1 t2 t3 m s = (r, s')" and "\<And>x. r \<noteq> Reply x"
  shows "s_tokens s' = s_tokens s \<and> s_reg s' = s_reg s \<and> s_disk s' = s_disk s"
proof (cases "live_device (aq_DeviceId m) s")
  case (Some d)
  obtain ok n where "consume (aq_Nonce m) (dv_ID d) t1 (s_nonces s) = (ok, n)" by fastforce
  then show ?thesis using assms Some
    by (auto simp: Authenticate_def tokens_mint_def Let_def
        split: if_split_asm option.split_asm bool.split_asm prod.split_asm)
qed (use assms in \<open>simp add: Authenticate_def\<close>)

section \<open>A device that follows the protocol\<close>

definition honest_pair_request :: "'ts libs \<Rightarrow> bytes \<Rightarrow> string \<Rightarrow> string list \<Rightarrow> Server \<Rightarrow> bytes \<Rightarrow> PairRequest" where
  "honest_pair_request lb pub name caps s sig =
     \<lparr>pq_ProtocolVersion = ProtocolVersion, pq_PairingSecret = pm_secret (s_pairs s),
      pq_DevicePublicKey = pub, pq_DeviceName = name, pq_DeviceModel = [],
      pq_RequestedCapabilities = caps, pq_Proof = sig\<rparr>"

lemma honest_pair:
  assumes "ed25519_correct (lb_crypto lb)" and "length seed = 32" and "OpenNow t1 (s_pairs s)"
    and sig: "SignPairProof (lb_crypto lb) (NewKeyFromSeed (lb_crypto lb) seed) (HostID (lb_crypto lb) (s_id s))
      (pm_secret (s_pairs s)) (ed_pub_of_seed (lb_crypto lb) seed) = Some sig"
    and m: "m = honest_pair_request lb (ed_pub_of_seed (lb_crypto lb) seed) name caps s sig"
    and add: "Registry_Add (lb_json lb) io (requested_device lb m t2) (s_reg s) (s_disk s) = (None, g, d)"
  obtains x s' where "Pair lb io t1 t2 m s = (Reply x, s')" and "s_reg s' = g" and "s_id s' = s_id s"
    and "px_DeviceId x = DeviceIDFor (lb_crypto lb) (ed_pub_of_seed (lb_crypto lb) seed)"
    and "px_GrantedCapabilities x = keep_known (dv_Capabilities (requested_device lb m t2))"
proof -
  have len: "length (ed_pub_of_seed (lb_crypto lb) seed) = PublicKeySize"
    using assms(1,2) by (simp add: ed25519_correct_def PublicKeySize_def)
  have "VerifyPairProof (lb_crypto lb) (ed_pub_of_seed (lb_crypto lb) seed) (HostID (lb_crypto lb) (s_id s))
      (pm_secret (s_pairs s)) sig = Some True"
    using sign_then_verify [OF assms(1,2)] sig
    unfolding SignPairProof_def VerifyPairProof_def by (metis length_greater_0_conv option.inject)
  then have v: "pair_verified lb m s"
    using len by (simp add: pair_verified_def m honest_pair_request_def)
  have w: "OpenNow t1 (s_pairs s) \<and> pq_PairingSecret m = pm_secret (s_pairs s)"
    using assms(3) by (simp add: m honest_pair_request_def)
  note p = Pair_admitted [OF v w add]
  obtain x where x: "fst (Pair lb io t1 t2 m s) = Reply x" using p(2) by auto
  show thesis
  proof (rule that)
    show "Pair lb io t1 t2 m s = (Reply x, snd (Pair lb io t1 t2 m s))" using x by (simp add: prod_eq_iff)
    show "s_reg (snd (Pair lb io t1 t2 m s)) = g" using p(1) by (simp add: Let_def)
    show "s_id (snd (Pair lb io t1 t2 m s)) = s_id s" using p(1) by (simp add: Let_def)
    show "px_DeviceId x = DeviceIDFor (lb_crypto lb) (ed_pub_of_seed (lb_crypto lb) seed)"
      using p(3) [OF x] by (simp add: m honest_pair_request_def)
    have "Registry_Get (px_DeviceId x) g = Some ((requested_device lb m t2)
        \<lparr>dv_Capabilities := keep_known (dv_Capabilities (requested_device lb m t2))\<rparr>)"
      using p(3) [OF x] Add_done [OF add] by (simp add: requested_device_def)
    then show "px_GrantedCapabilities x = keep_known (dv_Capabilities (requested_device lb m t2))"
      using p(3) [OF x] by simp
  qed
qed

lemma honest_challenge:
  assumes "live_device i s = Some d"
  obtains x s' where "Challenge lb (Some raw) t i s = (Reply x, s')" and "cx_Nonce x = raw"
    and "map_of (ns_issued (s_nonces s')) (RawURLEncoding_EncodeToString raw)
      = Some \<lparr>nn_deviceID = dv_ID d, nn_expires = t + nonceTTL\<rparr>"
    and "s_reg s' = s_reg s" and "s_id s' = s_id s"
  using assms by (simp add: Challenge_def nonces_mint_def Let_def)

definition auth_request :: "string \<Rightarrow> bytes \<Rightarrow> bytes \<Rightarrow> AuthenticateRequest" where
  "auth_request i raw sig =
     \<lparr>aq_ProtocolVersion = ProtocolVersion, aq_DeviceId = i, aq_Nonce = raw, aq_Signature = sig\<rparr>"

lemma honest_authenticate:
  assumes "ed25519_correct (lb_crypto lb)" and "length seed = 32"
    and live: "live_device i s = Some d" and "dv_ID d = i"
    and key: "dv_PublicKey d = ed_pub_of_seed (lb_crypto lb) seed"
    and issued: "map_of (ns_issued (s_nonces s)) (RawURLEncoding_EncodeToString raw)
      = Some \<lparr>nn_deviceID = i, nn_expires = e\<rparr>" and "t1 < e"
    and sig: "SignAuth (lb_crypto lb) (NewKeyFromSeed (lb_crypto lb) seed) (HostID (lb_crypto lb) (s_id s)) i raw = Some sig"
  obtains x s' where "Authenticate lb io (Some tok) t1 t2 t3 (auth_request i raw sig) s = (Reply x, s')"
    and "ax_SessionToken x = RawURLEncoding_EncodeToString tok"
proof -
  have c: "consume raw i t1 (s_nonces s) = (True, (s_nonces s)\<lparr>ns_issued :=
      AList.delete (RawURLEncoding_EncodeToString raw) (ns_issued (s_nonces s))\<rparr>)"
    using issued \<open>t1 < e\<close> by (simp add: consume_def Let_def)
  have v: "VerifyAuth (lb_crypto lb) (Device_Key d) (HostID (lb_crypto lb) (s_id s)) i raw sig = Some True"
    using sign_then_verify [OF assms(1,2)] sig key
    unfolding SignAuth_def VerifyAuth_def Device_Key_def by (metis length_greater_0_conv option.inject)
  show thesis
    by (cases "Touch (lb_json lb) io i t3 (s_reg s) (s_disk s)")
      (rule that, use live \<open>dv_ID d = i\<close> c v in
        \<open>simp add: Authenticate_def auth_request_def tokens_mint_def Let_def\<close>, simp)
qed

section \<open>A concrete server for the witnesses\<close>

definition demo_libs :: "gotime libs" where
  "demo_libs = \<lparr>lb_crypto = demo_crypto,
     lb_json = \<lparr>rj_MarshalIndent = (\<lambda>f. Some ''book''), rj_Unmarshal = (\<lambda>raw. None)\<rparr>, lb_new = id\<rparr>"

definition demo_server :: Server where
  "demo_server = \<lparr>s_id = demo_identity, s_reg = \<lparr>r_path = ''dev.json'', r_devices = []\<rparr>,
     s_disk = Map.empty, s_pairs = \<lparr>pm_secret = ''sec'', pm_expires = 100\<rparr>, s_hostName = ''Mac'',
     s_heartbeat = 25 * Second, s_hub = newHub, s_paneHub = newPaneHub True, s_digests = None,
     s_tokens = newTokens, s_nonces = newNonces, s_exec = []\<rparr>"

definition demo_devseed :: bytes where
  "demo_devseed = replicate 32 (CHR ''d'')"

definition demo_pair_request :: "string list \<Rightarrow> PairRequest" where
  "demo_pair_request caps = \<lparr>pq_ProtocolVersion = ProtocolVersion, pq_PairingSecret = ''sec'',
     pq_DevicePublicKey = demo_devseed, pq_DeviceName = ''Phone'', pq_DeviceModel = [],
     pq_RequestedCapabilities = caps,
     pq_Proof = demo_devseed @ pairBytes (HostID demo_crypto demo_identity) ''sec'' demo_devseed\<rparr>"

lemma demo_server_wf: "srv_wf demo_server"
  by (simp add: demo_server_def srv_wf_def book_wf_def book_all_def hub_wf_new pane_wf_new wf_intros)

lemma demo_pair_verified: "pair_verified demo_libs (demo_pair_request caps) demo_server"
proof -
  have l: "length demo_devseed = 32" by (simp add: demo_devseed_def)
  then have "demo_devseed \<noteq> []" by auto
  then show ?thesis using l
    by (simp add: pair_verified_def demo_pair_request_def demo_libs_def demo_server_def PublicKeySize_def
        VerifyPairProof_def ed25519_Verify_def) (simp add: demo_crypto_def)
qed

lemma demo_Add:
  "Registry_Add (lb_json demo_libs) io_ok dev \<lparr>r_path = ''dev.json'', r_devices = []\<rparr> Map.empty
     = (None, snd (Registry_Add (lb_json demo_libs) io_ok dev \<lparr>r_path = ''dev.json'', r_devices = []\<rparr> Map.empty))"
  if "length (dv_PublicKey dev) = 32" "keep_known (dv_Capabilities dev) \<noteq> []"
  using that by (simp add: Registry_Add_def PublicKeySize_def Let_def persistLocked_def demo_libs_def
      write_rename_def io_ok_def)

text \<open>The same server after a device with every capability was paired and has a session.\<close>

definition demo_paired :: Server where
  "demo_paired = demo_server\<lparr>
     s_reg := \<lparr>r_path = ''dev.json'', r_devices = [(''phone'', demo_stored\<lparr>dv_Capabilities := DefaultCapabilities\<rparr>)]\<rparr>,
     s_tokens := \<lparr>tk_sessions = [(''tok'', \<lparr>ss_deviceID = ''phone'', ss_expires = 99\<rparr>)]\<rparr>\<rparr>"

lemma demo_paired_wf: "srv_wf demo_paired"
  using demo_server_wf
  by (simp add: demo_paired_def srv_wf_def book_wf_def book_all_def tokens_wf_def demo_stored_def demo_device_def)

lemma demo_authorize:
  "now < 99 \<Longrightarrow> c \<in> set DefaultCapabilities \<Longrightarrow> fst (authorize (bearerPrefix @ ''tok'') c now demo_paired) = Reply ''phone''"
  by (auto simp: authorize_bearer demo_paired_def resolve_def Allowed_def Revoked_def demo_stored_def demo_device_def)

end
