(* ===== verification/Handlers.thy ===== *)
theory Handlers
  imports Enrolment
begin

text \<open>
  The unary handlers of \<^verbatim>\<open>src/link/server.go\<close> taken apart into the steps between two locks. A call is a
  thread: which handler it runs, with its request and everything it reads from outside, and a program
  counter that keeps its local variables. Each step makes at most one access to the shared state. Left
  alone, a thread does what the handler of \<open>LinkServer\<close> does; how threads interleave with each other,
  with streams and with revocations is the subject of \<open>Streams\<close> and \<open>Crowd\<close>.
\<close>

section \<open>Calls\<close>

datatype call =
    CallPair io gotime gotime PairRequest
  | CallChallenge "bytes option" gotime string
  | CallAuthenticate io "bytes option" gotime gotime gotime AuthenticateRequest
  | CallStatus gotime string
  | CallDigest gotime string string
  | CallSubmitAnswer io Outcome gotime gotime gotime string SubmitAnswerRequest
  | CallSubmitCommand io Outcome gotime gotime gotime string SubmitCommandRequest

datatype 'ts answer =
    Paired PairResponse
  | Challenged "'ts ChallengeResponse"
  | LoggedIn "'ts AuthenticateResponse"
  | StatusRead "'ts GetStatusResponse"
  | DigestRead "'ts linkv1_Digest"
  | Answered SubmitAnswerResponse
  | Commanded SubmitCommandResponse

text \<open>Pairing goes from \<open>Begin\<close> over \<open>Redeemed\<close> to \<open>PanesGone\<close>, a challenge and a login over \<open>Known\<close>, a
  session call over \<open>Resolved\<close> (the token) and \<open>Cleared\<close> (the registry).\<close>

datatype 'ts pc =
    Begin
  | Redeemed | Added | TokensGone | StreamsGone | PanesGone
  | Known Device | Consumed Device | Minted Device string gotime
  | Resolved string | Cleared string | Handed string "'ts answer"
  | Finished "'ts answer" | Refused connect_code cause | Panicked

section \<open>Their steps\<close>

fun pair_next :: "'ts libs \<Rightarrow> io \<Rightarrow> gotime \<Rightarrow> gotime \<Rightarrow> PairRequest \<Rightarrow> 'ts pc \<Rightarrow> Server \<Rightarrow> 'ts pc \<times> Server" where
  "pair_next lb io now1 now2 m Begin s =
    (if pq_ProtocolVersion m \<noteq> ProtocolVersion
     then (Refused CodeFailedPrecondition (Msg ''host speaks another version''), s)
     else if length (pq_DevicePublicKey m) \<noteq> PublicKeySize
     then (Refused CodeInvalidArgument (Msg ''device key must be 32 bytes of Ed25519''), s)
     else case VerifyPairProof (lb_crypto lb) (pq_DevicePublicKey m) (HostID (lb_crypto lb) (s_id s))
            (pq_PairingSecret m) (pq_Proof m) of
       None \<Rightarrow> (Panicked, s)
     | Some False \<Rightarrow> (Refused CodePermissionDenied (Msg ''pairing proof does not verify''), s)
     | Some True \<Rightarrow>
         (let (ok, p) = Redeem (pq_PairingSecret m) now1 (s_pairs s)
          in (if ok then Redeemed
              else Refused CodePermissionDenied (Msg ''no open pairing window for that secret''),
              s\<lparr>s_pairs := p\<rparr>)))"
| "pair_next lb io now1 now2 m Redeemed s =
    (let (e, r, dsk) = Registry_Add (lb_json lb) io (requested_device lb m now2) (s_reg s) (s_disk s)
     in (case e of None \<Rightarrow> Added | Some err \<Rightarrow> Refused CodeInvalidArgument (RegCause err),
         s\<lparr>s_reg := r, s_disk := dsk\<rparr>))"
| "pair_next lb io now1 now2 m Added s =
    (TokensGone, s\<lparr>s_tokens := dropDevice (DeviceIDFor (lb_crypto lb) (pq_DevicePublicKey m)) (s_tokens s)\<rparr>)"
| "pair_next lb io now1 now2 m TokensGone s =
    (StreamsGone, s\<lparr>s_hub := hub_dropDevice (DeviceIDFor (lb_crypto lb) (pq_DevicePublicKey m)) (s_hub s)\<rparr>)"
| "pair_next lb io now1 now2 m StreamsGone s =
    (PanesGone, s\<lparr>s_paneHub := pane_dropDevice (DeviceIDFor (lb_crypto lb) (pq_DevicePublicKey m)) (s_paneHub s)\<rparr>)"
| "pair_next lb io now1 now2 m PanesGone s =
    (let i = DeviceIDFor (lb_crypto lb) (pq_DevicePublicKey m)
     in (Finished (Paired \<lparr>px_DeviceId = i, px_HostId = HostID (lb_crypto lb) (s_id s),
            px_TrustDomainId = id_TrustDomainID (s_id s), px_HostPublicKey = Identity_PublicKey (s_id s),
            px_GrantedCapabilities = (case Registry_Get i (s_reg s) of None \<Rightarrow> [] | Some g \<Rightarrow> dv_Capabilities g)\<rparr>),
         s))"
| "pair_next lb io now1 now2 m p s = (p, s)"

definition find_device :: "string \<Rightarrow> Server \<Rightarrow> 'ts pc" where
  "find_device i s = (case live_device i s of
     None \<Rightarrow> Refused CodePermissionDenied (Msg ''unknown or revoked device'') | Some d \<Rightarrow> Known d)"

fun challenge_next :: "'ts libs \<Rightarrow> bytes option \<Rightarrow> gotime \<Rightarrow> string \<Rightarrow> 'ts pc \<Rightarrow> Server \<Rightarrow> 'ts pc \<times> Server" where
  "challenge_next lb rnd now deviceId Begin s = (find_device deviceId s, s)"
| "challenge_next lb rnd now deviceId (Known d) s =
    (case nonces_mint (dv_ID d) now rnd (s_nonces s) of
       (None, n) \<Rightarrow> (Refused CodeInternal RandCause, s\<lparr>s_nonces := n\<rparr>)
     | (Some (raw, exp), n) \<Rightarrow> (Finished (Challenged \<lparr>cx_Nonce = raw, cx_ExpiresAt = lb_new lb exp\<rparr>), s\<lparr>s_nonces := n\<rparr>))"
| "challenge_next lb rnd now deviceId p s = (p, s)"

fun authenticate_next ::
    "'ts libs \<Rightarrow> io \<Rightarrow> bytes option \<Rightarrow> gotime \<Rightarrow> gotime \<Rightarrow> gotime \<Rightarrow> AuthenticateRequest \<Rightarrow> 'ts pc \<Rightarrow> Server
     \<Rightarrow> 'ts pc \<times> Server" where
  "authenticate_next lb io rnd now1 now2 now3 m Begin s = (find_device (aq_DeviceId m) s, s)"
| "authenticate_next lb io rnd now1 now2 now3 m (Known d) s =
    (let (ok, n) = consume (aq_Nonce m) (dv_ID d) now1 (s_nonces s)
     in (if \<not> ok then Refused CodePermissionDenied (Msg ''challenge is unknown, expired, or not yours'')
         else case VerifyAuth (lb_crypto lb) (Device_Key d) (HostID (lb_crypto lb) (s_id s)) (dv_ID d)
                (aq_Nonce m) (aq_Signature m) of
           None \<Rightarrow> Panicked
         | Some False \<Rightarrow> Refused CodePermissionDenied (Msg ''challenge signature does not verify'')
         | Some True \<Rightarrow> Consumed d,
         s\<lparr>s_nonces := n\<rparr>))"
| "authenticate_next lb io rnd now1 now2 now3 m (Consumed d) s =
    (case tokens_mint (dv_ID d) now2 rnd (s_tokens s) of
       (None, t) \<Rightarrow> (Refused CodeInternal RandCause, s\<lparr>s_tokens := t\<rparr>)
     | (Some (tok, exp), t) \<Rightarrow> (Minted d tok exp, s\<lparr>s_tokens := t\<rparr>))"
| "authenticate_next lb io rnd now1 now2 now3 m (Minted d tok exp) s =
    (let (r, dsk) = Touch (lb_json lb) io (dv_ID d) now3 (s_reg s) (s_disk s)
     in (Finished (LoggedIn \<lparr>ax_SessionToken = tok, ax_ExpiresAt = lb_new lb exp,
         ax_Capabilities = dv_Capabilities d, ax_TrustDomainId = id_TrustDomainID (s_id s)\<rparr>), s\<lparr>s_reg := r, s_disk := dsk\<rparr>))"
| "authenticate_next lb io rnd now1 now2 now3 m p s = (p, s)"

text \<open>The two locks of \<^verbatim>\<open>authorize\<close>: the sessions, then the registry.\<close>

fun authorize_next :: "string \<Rightarrow> string \<Rightarrow> gotime \<Rightarrow> 'ts pc \<Rightarrow> Server \<Rightarrow> 'ts pc \<times> Server" where
  "authorize_next auth capability now Begin s =
    (if \<not> prefix bearerPrefix auth then (Refused CodeUnauthenticated (Msg ''no link session token''), s)
     else
      (let (deviceID, t) = resolve (drop (length bearerPrefix) auth) now (s_tokens s)
       in (if deviceID = [] then Refused CodeUnauthenticated (Msg ''session token is unknown or expired'')
           else Resolved deviceID, s\<lparr>s_tokens := t\<rparr>)))"
| "authorize_next auth capability now (Resolved deviceID) s =
    (case Allowed deviceID capability (s_reg s) of
       Some e \<Rightarrow> Refused CodePermissionDenied (RegCause e) | None \<Rightarrow> Cleared deviceID, s)"
| "authorize_next auth capability now p s = (p, s)"

fun status_next :: "'ts libs \<Rightarrow> gotime \<Rightarrow> string \<Rightarrow> 'ts pc \<Rightarrow> Server \<Rightarrow> 'ts pc \<times> Server" where
  "status_next lb now auth (Cleared deviceID) s =
    (let (cur, at, q) = hub_snapshot (s_hub s) in (Finished (StatusRead \<lparr>gx_Status = statusToProto (lb_new lb) cur at, gx_Seq = q\<rparr>), s))"
| "status_next lb now auth p s = authorize_next auth CapStatusRead now p s"

fun digest_next :: "'ts libs \<Rightarrow> gotime \<Rightarrow> string \<Rightarrow> string \<Rightarrow> 'ts pc \<Rightarrow> Server \<Rightarrow> 'ts pc \<times> Server" where
  "digest_next lb now auth sessionID (Cleared deviceID) s =
    (case s_digests s of
       None \<Rightarrow> Refused CodeUnimplemented (Msg ''this host does not serve digests'')
     | Some source \<Rightarrow>
         (if sessionID = [] \<or> length sessionID > MaxAskIDLen
          then Refused CodeInvalidArgument (Msg ''session_id required'')
          else case source sessionID of
            None \<Rightarrow> Refused CodeNotFound (Msg ''no digest for that session'')
          | Some d \<Rightarrow> Finished (DigestRead (digestToProto (lb_new lb) (Digest_Clamp d)))), s)"
| "digest_next lb now auth sessionID p s = authorize_next auth CapSessionRead now p s"

text \<open>The last step of both submissions.\<close>

fun touch_next :: "'ts libs \<Rightarrow> io \<Rightarrow> gotime \<Rightarrow> string \<Rightarrow> 'ts answer \<Rightarrow> Server \<Rightarrow> 'ts pc \<times> Server" where
  "touch_next lb io now deviceID a s =
    (let (r, d) = Touch (lb_json lb) io deviceID now (s_reg s) (s_disk s)
     in (Finished a, s\<lparr>s_reg := r, s_disk := d\<rparr>))"

fun answer_next ::
    "'ts libs \<Rightarrow> io \<Rightarrow> Outcome \<Rightarrow> gotime \<Rightarrow> gotime \<Rightarrow> gotime \<Rightarrow> string \<Rightarrow> SubmitAnswerRequest \<Rightarrow> 'ts pc \<Rightarrow> Server
     \<Rightarrow> 'ts pc \<times> Server" where
  "answer_next lb io out now1 at now2 auth m (Cleared deviceID) s =
    (case ValidAnswer (nq_AskId m) (nq_Text m) at of
       Inl e \<Rightarrow> (Refused CodeInvalidArgument (ProjCause e), s)
     | Inr a \<Rightarrow>
         (Handed deviceID (Answered \<lparr>nx_Disposition = dispositionToProto (oc_Disposition out), nx_Note = oc_Note out\<rparr>),
          s\<lparr>s_exec := s_exec s @ [CallAnswer a]\<rparr>))"
| "answer_next lb io out now1 at now2 auth m (Handed deviceID a) s = touch_next lb io now2 deviceID a s"
| "answer_next lb io out now1 at now2 auth m p s = authorize_next auth CapAgentAnswer now1 p s"

fun command_next ::
    "'ts libs \<Rightarrow> io \<Rightarrow> Outcome \<Rightarrow> gotime \<Rightarrow> gotime \<Rightarrow> gotime \<Rightarrow> string \<Rightarrow> SubmitCommandRequest \<Rightarrow> 'ts pc \<Rightarrow> Server
     \<Rightarrow> 'ts pc \<times> Server" where
  "command_next lb io out now1 at now2 auth m (Cleared deviceID) s =
    (case ValidCommand (kindFromProto (cq_Kind m)) (cq_SessionId m) (cq_Workspace m) (cq_Prompt m) at of
       Inl e \<Rightarrow> (Refused CodeInvalidArgument (ProjCause e), s)
     | Inr c \<Rightarrow>
         (Handed deviceID (Commanded \<lparr>sx_CommandId = cmd_ID c,
            sx_Disposition = dispositionToProto (oc_Disposition out), sx_Note = oc_Note out\<rparr>),
          s\<lparr>s_exec := s_exec s @ [CallExecute c]\<rparr>))"
| "command_next lb io out now1 at now2 auth m (Handed deviceID a) s = touch_next lb io now2 deviceID a s"
| "command_next lb io out now1 at now2 auth m p s = authorize_next auth CapAgentCommand now1 p s"

fun call_next :: "'ts libs \<Rightarrow> call \<Rightarrow> 'ts pc \<Rightarrow> Server \<Rightarrow> 'ts pc \<times> Server" where
  "call_next lb (CallPair io t1 t2 m) p s = pair_next lb io t1 t2 m p s"
| "call_next lb (CallChallenge rnd now i) p s = challenge_next lb rnd now i p s"
| "call_next lb (CallAuthenticate io rnd t1 t2 t3 m) p s = authenticate_next lb io rnd t1 t2 t3 m p s"
| "call_next lb (CallStatus now auth) p s = status_next lb now auth p s"
| "call_next lb (CallDigest now auth sid) p s = digest_next lb now auth sid p s"
| "call_next lb (CallSubmitAnswer io out t1 at t2 auth m) p s = answer_next lb io out t1 at t2 auth m p s"
| "call_next lb (CallSubmitCommand io out t1 at t2 auth m) p s = command_next lb io out t1 at t2 auth m p s"

fun call_run :: "'ts libs \<Rightarrow> call \<Rightarrow> nat \<Rightarrow> 'ts pc \<times> Server \<Rightarrow> 'ts pc \<times> Server" where
  "call_run lb c 0 ps = ps"
| "call_run lb c (Suc n) (p, s) = call_run lb c n (call_next lb c p s)"

section \<open>How far a call has to go\<close>

text \<open>The program counters a call can be at, and how many steps it has left at most.\<close>

fun settled :: "'ts pc \<Rightarrow> bool" where
  "settled (Finished a) = True"
| "settled (Refused c e) = True"
| "settled Panicked = True"
| "settled p = False"

fun at_home :: "call \<Rightarrow> 'ts pc \<Rightarrow> bool" where
  "at_home (CallPair io t1 t2 m) p = (p \<in> {Redeemed, Added, TokensGone, StreamsGone, PanesGone})"
| "at_home (CallChallenge rnd now i) p = (case p of Known d \<Rightarrow> True | _ \<Rightarrow> False)"
| "at_home (CallAuthenticate io rnd t1 t2 t3 m) p =
     (case p of Known d \<Rightarrow> True | Consumed d \<Rightarrow> True | Minted d tok e \<Rightarrow> True | _ \<Rightarrow> False)"
| "at_home (CallSubmitAnswer io out t1 at t2 auth m) p =
     (case p of Resolved i \<Rightarrow> True | Cleared i \<Rightarrow> True | Handed i a \<Rightarrow> True | _ \<Rightarrow> False)"
| "at_home (CallSubmitCommand io out t1 at t2 auth m) p =
     (case p of Resolved i \<Rightarrow> True | Cleared i \<Rightarrow> True | Handed i a \<Rightarrow> True | _ \<Rightarrow> False)"
| "at_home c p = (case p of Resolved i \<Rightarrow> True | Cleared i \<Rightarrow> True | _ \<Rightarrow> False)"

definition on_course :: "call \<Rightarrow> 'ts pc \<Rightarrow> bool" where
  "on_course c p \<longleftrightarrow> p = Begin \<or> settled p \<or> at_home c p"

fun steps_left :: "'ts pc \<Rightarrow> nat" where
  "steps_left Begin = 6"
| "steps_left Redeemed = 5"
| "steps_left Added = 4"
| "steps_left TokensGone = 3"
| "steps_left StreamsGone = 2"
| "steps_left PanesGone = 1"
| "steps_left (Known d) = 3"
| "steps_left (Consumed d) = 2"
| "steps_left (Minted d tok e) = 1"
| "steps_left (Resolved i) = 3"
| "steps_left (Cleared i) = 2"
| "steps_left (Handed i a) = 1"
| "steps_left p = 0"

lemma steps_left_settled: "steps_left p = 0 \<longleftrightarrow> settled p"
  by (cases p) simp_all

lemma call_next_settled [simp]: "settled p \<Longrightarrow> call_next lb c p s = (p, s)"
  by (cases p; cases c) simp_all

lemma call_next_course:
  "on_course c p \<Longrightarrow> on_course c (fst (call_next lb c p s))
    \<and> (\<not> settled p \<longrightarrow> steps_left (fst (call_next lb c p s)) < steps_left p)"
  by (cases c; cases p) (auto simp: on_course_def find_device_def Let_def
      split: option.split bool.split prod.split sum.split)

section \<open>A call left alone\<close>

text \<open>The handlers of \<open>LinkServer\<close> by the same names, with their reply as the place a call ends at.\<close>

fun settle :: "('a \<Rightarrow> 'ts answer) \<Rightarrow> 'a reply \<times> Server \<Rightarrow> 'ts pc \<times> Server" where
  "settle f (Reply x, s) = (Finished (f x), s)"
| "settle f (Fail c e, s) = (Refused c e, s)"
| "settle f (Panics, s) = (Panicked, s)"

fun handled :: "'ts libs \<Rightarrow> call \<Rightarrow> Server \<Rightarrow> 'ts pc \<times> Server" where
  "handled lb (CallPair io t1 t2 m) s = settle Paired (Pair lb io t1 t2 m s)"
| "handled lb (CallChallenge rnd now i) s = settle Challenged (Challenge lb rnd now i s)"
| "handled lb (CallAuthenticate io rnd t1 t2 t3 m) s = settle LoggedIn (Authenticate lb io rnd t1 t2 t3 m s)"
| "handled lb (CallStatus now auth) s = settle StatusRead (GetStatus lb now auth s)"
| "handled lb (CallDigest now auth sid) s = settle DigestRead (GetDigest lb now auth sid s)"
| "handled lb (CallSubmitAnswer io out t1 at t2 auth m) s = settle Answered (SubmitAnswer lb io out t1 at t2 auth m s)"
| "handled lb (CallSubmitCommand io out t1 at t2 auth m) s = settle Commanded (SubmitCommand lb io out t1 at t2 auth m s)"

lemma call_run_settled [simp]: "settled p \<Longrightarrow> call_run lb c n (p, s) = (p, s)"
  by (induction n) simp_all

lemma call_run_add: "call_run lb c (m + n) ps = call_run lb c n (call_run lb c m ps)"
proof (induction m arbitrary: ps)
  case (Suc m)
  then show ?case by (cases ps) simp
qed simp

lemma settle_settled: "settled (fst (settle f r))"
  by (cases "(f, r)" rule: settle.cases) simp_all

text \<open>Each handler for itself.\<close>

lemma pair_alone: "call_run lb (CallPair io t1 t2 m) 6 (Begin, s) = settle Paired (Pair lb io t1 t2 m s)"
  by (auto simp: eval_nat_numeral Pair_def drop_sessions_def requested_device_def Let_def
      split: prod.split option.split bool.split)

lemma challenge_alone: "call_run lb (CallChallenge rnd now i) 6 (Begin, s) = settle Challenged (Challenge lb rnd now i s)"
  by (auto simp: eval_nat_numeral Challenge_def find_device_def unknown_device_def split: prod.split option.split)

lemma authenticate_alone:
  "call_run lb (CallAuthenticate io rnd t1 t2 t3 m) 6 (Begin, s) = settle LoggedIn (Authenticate lb io rnd t1 t2 t3 m s)"
  by (auto simp: eval_nat_numeral Authenticate_def find_device_def unknown_device_def Let_def
      split: prod.split option.split bool.split)

lemma status_alone: "call_run lb (CallStatus now auth) 6 (Begin, s) = settle StatusRead (GetStatus lb now auth s)"
  by (auto simp: eval_nat_numeral GetStatus_def authorize_def Let_def split: prod.split option.split)

lemma digest_alone: "call_run lb (CallDigest now auth sid) 6 (Begin, s) = settle DigestRead (GetDigest lb now auth sid s)"
  by (auto simp: eval_nat_numeral GetDigest_def authorize_def Let_def split: prod.split option.split)

lemma answer_alone:
  "call_run lb (CallSubmitAnswer io out t1 at t2 auth m) 6 (Begin, s) = settle Answered (SubmitAnswer lb io out t1 at t2 auth m s)"
  by (auto simp: eval_nat_numeral SubmitAnswer_def authorize_def Let_def split: prod.split option.split sum.split)

lemma command_alone:
  "call_run lb (CallSubmitCommand io out t1 at t2 auth m) 6 (Begin, s) = settle Commanded (SubmitCommand lb io out t1 at t2 auth m s)"
  by (auto simp: eval_nat_numeral SubmitCommand_def authorize_def Let_def split: prod.split option.split sum.split)

lemma call_run_handled: "call_run lb c 6 (Begin, s) = handled lb c s"
  by (cases c) (simp_all only: handled.simps pair_alone challenge_alone authenticate_alone status_alone
      digest_alone answer_alone command_alone)

section \<open>A step and the components\<close>

fun pairs_as :: "'ts libs \<Rightarrow> string \<Rightarrow> call \<Rightarrow> bool" where
  "pairs_as lb i (CallPair io t1 t2 m) = (DeviceIDFor (lb_crypto lb) (pq_DevicePublicKey m) = i)"
| "pairs_as lb i c = False"

text \<open>What a step does to each component: one operation of it at most.\<close>

lemma call_next_hub:
  "s_hub (snd (call_next lb c p s)) = s_hub s \<or> (\<exists>i. s_hub (snd (call_next lb c p s)) = hub_dropDevice i (s_hub s))"
  by (cases c; cases p) (auto simp: Let_def split: prod.split option.split bool.split sum.split)

lemma call_next_pane:
  "s_paneHub (snd (call_next lb c p s)) = s_paneHub s
   \<or> (\<exists>i. s_paneHub (snd (call_next lb c p s)) = pane_dropDevice i (s_paneHub s))"
  by (cases c; cases p) (auto simp: Let_def split: prod.split option.split bool.split sum.split)

lemma call_next_book:
  "book_of (snd (call_next lb c p s)) = book_of s
   \<or> (\<exists>rop. book_of (snd (call_next lb c p s)) = reg_step (lb_json lb) rop (book_of s)
        \<and> (\<forall>i. op_enrols rop i \<longrightarrow> p = Redeemed \<and> pairs_as lb i c))"
proof -
  consider (same) "s_reg (snd (call_next lb c p s)) = s_reg s" "s_disk (snd (call_next lb c p s)) = s_disk s"
    | (adds) io t1 t2 m where "c = CallPair io t1 t2 m" "p = Redeemed"
    | (touches) io i at where "book_of (snd (call_next lb c p s)) = reg_step (lb_json lb) (OpTouch io i at) (book_of s)"
    by (cases c; cases p) (simp_all add: Let_def split_def book_of_def split: option.split bool.split sum.split)
  then show ?thesis
  proof cases
    case same
    then show ?thesis by (simp add: book_of_def)
  next
    case adds
    then have "book_of (snd (call_next lb c p s)) = reg_step (lb_json lb) (OpAdd io (requested_device lb m t2)) (book_of s)"
      by (simp add: book_of_def split_def Let_def)
    then show ?thesis using adds by (intro disjI2 exI conjI) (auto simp: requested_device_def)
  next
    case touches
    then show ?thesis by (metis op_enrols.simps(3))
  qed
qed

lemma call_next_tokens: "\<exists>tc. s_tokens (snd (call_next lb c p s)) = tokens_do tc (s_tokens s)"
proof -
  have "s_tokens (snd (call_next lb c p s)) = tokens_do TkSame (s_tokens s)
    \<or> (\<exists>tok now. s_tokens (snd (call_next lb c p s)) = tokens_do (TkResolve tok now) (s_tokens s))
    \<or> (\<exists>i. s_tokens (snd (call_next lb c p s)) = tokens_do (TkDrop i) (s_tokens s))
    \<or> (\<exists>i now rnd. s_tokens (snd (call_next lb c p s)) = tokens_do (TkMint i now rnd) (s_tokens s))"
    by (cases c; cases p; (simp add: Let_def split_def split: option.split bool.split sum.split)?; blast?)
  then show ?thesis by blast
qed

lemma call_next_nonces:
  "s_nonces (snd (call_next lb c p s)) = s_nonces s
   \<or> (\<exists>i now rnd. s_nonces (snd (call_next lb c p s)) = snd (nonces_mint i now rnd (s_nonces s)))
   \<or> (\<exists>raw i now. s_nonces (snd (call_next lb c p s)) = snd (consume raw i now (s_nonces s)))"
  by (cases c; cases p; (simp add: Let_def split_def split: option.split bool.split sum.split)?; blast?)

lemma call_next_wf: "srv_wf s \<Longrightarrow> srv_wf (snd (call_next lb c p s))"
proof -
  assume wf: "srv_wf s"
  have "book_wf (s_reg (snd (call_next lb c p s)))"
  proof -
    obtain rop where "s_reg (snd (call_next lb c p s)) = s_reg s
        \<or> s_reg (snd (call_next lb c p s)) = fst (reg_step (lb_json lb) rop (s_reg s, s_disk s))"
      using call_next_book [of lb c p s] unfolding book_of_def by (metis fst_conv)
    then show ?thesis using wf reg_step_book [of "lb_json lb" rop "s_reg s" "s_disk s"] changes_book(2)
      by (auto simp: srv_wf_def)
  qed
  moreover have "tokens_wf (s_tokens (snd (call_next lb c p s)))"
  proof -
    obtain tc where "s_tokens (snd (call_next lb c p s)) = tokens_do tc (s_tokens s)"
      using call_next_tokens by blast
    then show ?thesis using wf by (cases tc) (simp_all add: srv_wf_def wf_intros)
  qed
  moreover have "nonces_wf (s_nonces (snd (call_next lb c p s)))"
    using call_next_nonces [of lb c p s] wf by (auto simp: srv_wf_def wf_intros)
  moreover have "hub_wf (s_hub (snd (call_next lb c p s)))"
    using call_next_hub [of lb c p s] wf hub_wf_next [of "s_hub s" "HDropDevice i" for i] by (auto simp: srv_wf_def)
  moreover have "pane_wf (s_paneHub (snd (call_next lb c p s)))"
    using call_next_pane [of lb c p s] wf pane_wf_act [of "s_paneHub s" "PDropDevice i" for i]
    by (auto simp: srv_wf_def pane_act_def)
  ultimately show ?thesis by (simp add: srv_wf_def)
qed

section \<open>Property\<close>


end
