(* ===== verification/Streams.thy ===== *)
theory Streams
  imports Handlers
begin

text \<open>
  \<^verbatim>\<open>WatchStatus\<close> and \<^verbatim>\<open>WatchPane\<close> of \<^verbatim>\<open>src/link/server.go\<close> as threads, and \<^verbatim>\<open>RevokeDevice\<close> taken apart into
  the four critical sections it consists of. A stream is a program counter next to the messages it
  has sent; the streams, the unary calls of \<open>Handlers\<close>, the running revocations and the entry points
  that take one lock only take turns on the shared server. \<^verbatim>\<open>stream_step\<close> has one rule per way a thread can go on: which case of the
  \<^verbatim>\<open>select\<close> is taken and whether a send fails is not determined.
\<close>

section \<open>Stream threads\<close>

datatype stream_req = StatusReq string | PaneReq string string

datatype sent = SentStatus frame | SentPane paneFrameMsg | SentHeartbeat

text \<open>How the handler returns: nil, the error on revocation, a send error, or an error before subscribing.\<close>

datatype stream_end = EndNil | EndRevoked | EndSendErr | EndFailed connect_code

text \<open>\<open>Opened\<close> is between \<^verbatim>\<open>subscribe\<close> and the opening message, \<open>Watching\<close> at the \<^verbatim>\<open>select\<close>, \<open>Returning\<close>
  before the deferred \<^verbatim>\<open>unsubscribe\<close>. The device and the subscriber are local variables.\<close>

datatype phase =
    Arrived
  | Authorized string
  | Opened string nat "sent option"
  | Watching string nat
  | Returning string nat stream_end
  | Ended stream_end

record stream =
  sr_req :: stream_req
  sr_phase :: phase
  sr_sent :: "sent list"

fun req_auth :: "stream_req \<Rightarrow> string" where
  "req_auth (StatusReq auth) = auth"
| "req_auth (PaneReq auth sid) = auth"

fun req_cap :: "stream_req \<Rightarrow> string" where
  "req_cap (StatusReq auth) = CapStatusRead"
| "req_cap (PaneReq auth sid) = CapSessionRead"

fun stream_subscribe ::
    "stream_req \<Rightarrow> string \<Rightarrow> bool \<Rightarrow> Server \<Rightarrow> (nat \<times> sent option) reply \<times> Server" where
  "stream_subscribe (StatusReq auth) dev open_fails s =
     (let ((a, f), h) = hub_subscribe dev (s_hub s) in (Reply (a, Some (SentStatus f)), s\<lparr>s_hub := h\<rparr>))"
| "stream_subscribe (PaneReq auth sid) dev open_fails s =
     (if \<not> ph_source (s_paneHub s)
      then (Fail CodeUnimplemented (Msg ''this host does not stream panes''), s)
      else if TrimSpace sid = [] \<or> length (TrimSpace sid) > MaxAskIDLen
      then (Fail CodeInvalidArgument (Msg ''watch needs a session id''), s)
      else case pane_subscribe dev (TrimSpace sid) open_fails (s_paneHub s) of
        (None, h) \<Rightarrow> (Fail CodeUnavailable SourceCause, s\<lparr>s_paneHub := h\<rparr>)
      | (Some (a, opening), h) \<Rightarrow> (Reply (a, map_option SentPane opening), s\<lparr>s_paneHub := h\<rparr>))"

fun stream_unsubscribe :: "stream_req \<Rightarrow> nat \<Rightarrow> Server \<Rightarrow> Server" where
  "stream_unsubscribe (StatusReq auth) a s = s\<lparr>s_hub := hub_unsubscribe a (s_hub s)\<rparr>"
| "stream_unsubscribe (PaneReq auth sid) a s =
     s\<lparr>s_paneHub := pane_unsubscribe (TrimSpace sid) a (s_paneHub s)\<rparr>"

fun stream_recv :: "stream_req \<Rightarrow> nat \<Rightarrow> Server \<Rightarrow> sent option \<times> Server" where
  "stream_recv (StatusReq auth) a s =
     (let (f, h) = hub_recv a (s_hub s) in (map_option SentStatus f, s\<lparr>s_hub := h\<rparr>))"
| "stream_recv (PaneReq auth sid) a s =
     (let (m, h) = pane_recv a (s_paneHub s) in (map_option SentPane m, s\<lparr>s_paneHub := h\<rparr>))"

text \<open>A subscriber as a stream sees it: its device, whether it was closed, and how much is pending.\<close>

definition sub_view :: "'f subscriber \<Rightarrow> string \<times> bool \<times> nat" where
  "sub_view u = (su_deviceID u, 0 < su_gone u, length (su_updates u))"

fun sub_at :: "stream_req \<Rightarrow> Server \<Rightarrow> nat \<Rightarrow> (string \<times> bool \<times> nat) option" where
  "sub_at (StatusReq auth) s a = map_option sub_view (map_of (h_heap (s_hub s)) a)"
| "sub_at (PaneReq auth sid) s a = map_option sub_view (map_of (ph_heap (s_paneHub s)) a)"

definition is_gone :: "stream_req \<Rightarrow> Server \<Rightarrow> nat \<Rightarrow> bool" where
  "is_gone r s a \<longleftrightarrow> (\<exists>d n. sub_at r s a = Some (d, True, n))"

abbreviation goes :: "stream \<Rightarrow> phase \<Rightarrow> stream" where
  "goes t p \<equiv> t\<lparr>sr_phase := p\<rparr>"

abbreviation sends :: "stream \<Rightarrow> sent list \<Rightarrow> phase \<Rightarrow> stream" where
  "sends t ms p \<equiv> t\<lparr>sr_phase := p, sr_sent := sr_sent t @ ms\<rparr>"

inductive stream_step :: "Server \<times> stream \<Rightarrow> Server \<times> stream \<Rightarrow> bool" where
  refused: "sr_phase t = Arrived \<Longrightarrow> authorize (req_auth (sr_req t)) (req_cap (sr_req t)) now s = (Fail c e, s') \<Longrightarrow>
    stream_step (s, t) (s', goes t (Ended (EndFailed c)))"
| admitted: "sr_phase t = Arrived \<Longrightarrow> authorize (req_auth (sr_req t)) (req_cap (sr_req t)) now s = (Reply dev, s') \<Longrightarrow>
    stream_step (s, t) (s', goes t (Authorized dev))"
| unserved: "sr_phase t = Authorized dev \<Longrightarrow> stream_subscribe (sr_req t) dev open_fails s = (Fail c e, s') \<Longrightarrow>
    stream_step (s, t) (s', goes t (Ended (EndFailed c)))"
| subscribed: "sr_phase t = Authorized dev \<Longrightarrow> stream_subscribe (sr_req t) dev open_fails s = (Reply (a, m), s') \<Longrightarrow>
    stream_step (s, t) (s', goes t (Opened dev a m))"
| opens: "sr_phase t = Opened dev a m \<Longrightarrow>
    stream_step (s, t) (s, sends t (case m of None \<Rightarrow> [] | Some x \<Rightarrow> [x]) (Watching dev a))"
| open_breaks: "sr_phase t = Opened dev a (Some x) \<Longrightarrow>
    stream_step (s, t) (s, goes t (Returning dev a EndSendErr))"
| hung_up: "sr_phase t = Watching dev a \<Longrightarrow> stream_step (s, t) (s, goes t (Returning dev a EndNil))"
| revoked: "sr_phase t = Watching dev a \<Longrightarrow> is_gone (sr_req t) s a \<Longrightarrow>
    stream_step (s, t) (s, goes t (Returning dev a EndRevoked))"
| update: "sr_phase t = Watching dev a \<Longrightarrow> stream_recv (sr_req t) a s = (Some x, s') \<Longrightarrow>
    stream_step (s, t) (s', sends t [x] (Watching dev a))"
| update_breaks: "sr_phase t = Watching dev a \<Longrightarrow> stream_recv (sr_req t) a s = (Some x, s') \<Longrightarrow>
    stream_step (s, t) (s', goes t (Returning dev a EndSendErr))"
| heartbeat: "sr_phase t = Watching dev a \<Longrightarrow> stream_step (s, t) (s, sends t [SentHeartbeat] (Watching dev a))"
| heartbeat_breaks: "sr_phase t = Watching dev a \<Longrightarrow> stream_step (s, t) (s, goes t (Returning dev a EndSendErr))"
| returns: "sr_phase t = Returning dev a e \<Longrightarrow>
    stream_step (s, t) (stream_unsubscribe (sr_req t) a s, goes t (Ended e))"

inductive_cases stream_stepE: "stream_step (s, t) (s', t')"

lemmas stream_step_split = stream_stepE [consumes 1, case_names refused admitted unserved subscribed opens
  open_breaks hung_up revoked update update_breaks heartbeat heartbeat_breaks returns]

section \<open>Revocations and the host\<close>

datatype rev_phase = RvTombstone io gotime | RvTokens | RvStatus | RvPanes | RvReturned "reg_error option"

record revocation =
  rv_dev :: string
  rv_phase :: rev_phase

fun revoke_next :: "'ts libs \<Rightarrow> string \<Rightarrow> rev_phase \<Rightarrow> Server \<Rightarrow> rev_phase \<times> Server" where
  "revoke_next lb i (RvTombstone io now) s =
     (let (e, r, d) = Revoke (lb_json lb) io i now (s_reg s) (s_disk s)
      in (if e = None then RvTokens else RvReturned e, s\<lparr>s_reg := r, s_disk := d\<rparr>))"
| "revoke_next lb i RvTokens s = (RvStatus, s\<lparr>s_tokens := dropDevice i (s_tokens s)\<rparr>)"
| "revoke_next lb i RvStatus s = (RvPanes, s\<lparr>s_hub := hub_dropDevice i (s_hub s)\<rparr>)"
| "revoke_next lb i RvPanes s = (RvReturned None, s\<lparr>s_paneHub := pane_dropDevice i (s_paneHub s)\<rparr>)"
| "revoke_next lb i (RvReturned e) s = (RvReturned e, s)"

fun revoke_run :: "'ts libs \<Rightarrow> string \<Rightarrow> nat \<Rightarrow> rev_phase \<times> Server \<Rightarrow> rev_phase \<times> Server" where
  "revoke_run lb i 0 ps = ps"
| "revoke_run lb i (Suc n) (p, s) = revoke_run lb i n (revoke_next lb i p s)"

record 'ts host =
  ho_srv :: Server
  ho_streams :: "stream list"
  ho_calls :: "(call \<times> 'ts pc) list"
  ho_revs :: "revocation list"

text \<open>The entry points that run as one step, since they take one lock: publications, the pairing window
  and \<^verbatim>\<open>SetCapabilities\<close>. The unary handlers, the streams and \<^verbatim>\<open>RevokeDevice\<close> are threads.\<close>

fun one_step :: "srv_op \<Rightarrow> bool" where
  "one_step (SPublish st now) = True"
| "one_step (SPublishPane sid f) = True"
| "one_step (SSetCapabilities io i caps) = True"
| "one_step (SOpenWindow rnd now) = True"
| "one_step SCloseWindow = True"
| "one_step op = False"

inductive host_step :: "'ts libs \<Rightarrow> 'ts host \<Rightarrow> 'ts host \<Rightarrow> bool" for lb where
  arrives: "host_step lb c (c\<lparr>ho_streams := ho_streams c @ [\<lparr>sr_req = r, sr_phase = Arrived, sr_sent = []\<rparr>]\<rparr>)"
| goes_on: "k < length (ho_streams c) \<Longrightarrow> stream_step (ho_srv c, ho_streams c ! k) (s', t') \<Longrightarrow>
    host_step lb c (c\<lparr>ho_srv := s', ho_streams := (ho_streams c)[k := t']\<rparr>)"
| calls: "host_step lb c (c\<lparr>ho_calls := ho_calls c @ [(q, Begin)]\<rparr>)"
| proceeds: "k < length (ho_calls c) \<Longrightarrow> call_next lb (fst (ho_calls c ! k)) (snd (ho_calls c ! k)) (ho_srv c) = (p, s') \<Longrightarrow>
    host_step lb c (c\<lparr>ho_srv := s', ho_calls := (ho_calls c)[k := (fst (ho_calls c ! k), p)]\<rparr>)"
| revoke: "host_step lb c (c\<lparr>ho_revs := ho_revs c @ [\<lparr>rv_dev = i, rv_phase = RvTombstone io now\<rparr>]\<rparr>)"
| revokes: "j < length (ho_revs c) \<Longrightarrow> revoke_next lb (rv_dev (ho_revs c ! j)) (rv_phase (ho_revs c ! j)) (ho_srv c) = (p, s') \<Longrightarrow>
    host_step lb c (c\<lparr>ho_srv := s', ho_revs := (ho_revs c)[j := (ho_revs c ! j)\<lparr>rv_phase := p\<rparr>]\<rparr>)"
| other: "one_step op \<Longrightarrow> host_step lb c (c\<lparr>ho_srv := srv_step lb op (ho_srv c)\<rparr>)"

definition fresh_host :: "Server \<Rightarrow> 'ts host" where
  "fresh_host s = \<lparr>ho_srv = s, ho_streams = [], ho_calls = [], ho_revs = []\<rparr>"

text \<open>Any number of steps.\<close>

inductive host_runs :: "'ts libs \<Rightarrow> 'ts host \<Rightarrow> 'ts host \<Rightarrow> bool" for lb where
  stay: "host_runs lb c c"
| more: "host_runs lb c c' \<Longrightarrow> host_step lb c' c'' \<Longrightarrow> host_runs lb c c''"

section \<open>How the shared heaps evolve\<close>

text \<open>A subscriber keeps its address and its device for ever; once closed it stays closed and nothing
  is added to what it still has pending.\<close>

definition heap_on :: "'f heap \<Rightarrow> 'f heap \<Rightarrow> bool" where
  "heap_on hp hp' \<longleftrightarrow> (\<forall>a u. map_of hp a = Some u \<longrightarrow>
     (\<exists>u'. map_of hp' a = Some u' \<and> su_deviceID u' = su_deviceID u
        \<and> (0 < su_gone u \<longrightarrow> 0 < su_gone u' \<and> length (su_updates u') \<le> length (su_updates u))))"

lemma heap_on_refl [simp]: "heap_on hp hp"
  by (simp add: heap_on_def)

lemma heap_on_alloc: "fan_wf A hp nxt \<Longrightarrow> heap_on hp (AList.update nxt u hp)"
  by (auto simp: heap_on_def fan_wf_def)

lemma heap_on_close: "heap_on hp (heap_mod B subscriber_close hp)"
  by (simp add: heap_on_def subscriber_close_def)

lemma heap_on_buffer:
  assumes "fan_wf A hp nxt" and "\<And>a u. map_of hp a = Some u \<Longrightarrow> a \<in> B \<Longrightarrow> a \<in> A \<or> length (g (su_updates u)) \<le> length (su_updates u)"
  shows "heap_on hp (heap_mod B (\<lambda>u. u\<lparr>su_updates := g (su_updates u)\<rparr>) hp)"
proof -
  have "su_gone u = 0" if "map_of hp a = Some u" "a \<in> A" for a u
    using assms(1) that by (auto simp: fan_wf_def closed_once_def)
  then show ?thesis using assms(2) by (fastforce simp: heap_on_def)
qed

lemma hub_heap_on:
  assumes "hub_wf h"
  shows "heap_on (h_heap h) (h_heap (hub_next op h))"
proof -
  have f: "fan_wf (set (h_subs h)) (h_heap h) (h_next h)" using assms by (simp add: hub_wf_def)
  have recv: "heap_on (h_heap h) (heap_mod {a} (\<lambda>u. u\<lparr>su_updates := g\<rparr>) (h_heap h))"
    if "map_of (h_heap h) a = Some u" "length g \<le> length (su_updates u)" for a u g
    using heap_on_buffer [OF f, of "{a}" "\<lambda>_. g"] that by fastforce
  show ?thesis
  proof (cases op)
    case (HRecv a)
    then show ?thesis
      by (cases "map_of (h_heap h) a") (auto simp: hub_recv_eq try_recv_def intro!: recv split: list.split)
  qed (auto simp: hub_publish_def hub_subscribe_def hub_unsubscribe_def hub_dropDevice_def Let_def
      heap_on_close intro: heap_on_alloc [OF f] heap_on_buffer [OF f])
qed

lemma pane_heap_on:
  assumes "pane_wf h"
  shows "heap_on (ph_heap h) (ph_heap (pane_next op h))"
proof -
  note f = pane_wf_parts(5) [OF assms]
  have recv: "heap_on (ph_heap h) (heap_mod {a} (\<lambda>u. u\<lparr>su_updates := g\<rparr>) (ph_heap h))"
    if "map_of (ph_heap h) a = Some u" "length g \<le> length (su_updates u)" for a u g
    using heap_on_buffer [OF f, of "{a}" "\<lambda>_. g"] that by fastforce
  show ?thesis
  proof (cases op)
    case (PPublish sid x)
    then show ?thesis by (auto simp: pane_publish_eq Let_def intro!: heap_on_buffer [OF f])
  next
    case (PSubscribe dev sid fails)
    then show ?thesis by (auto simp: pane_subscribe_def Let_def intro: heap_on_alloc [OF f])
  next
    case (PRecv a)
    then show ?thesis
      by (cases "map_of (ph_heap h) a") (auto simp: pane_recv_eq try_recv_def intro!: recv split: list.split)
  qed (auto simp: pane_unsubscribe_def pane_dropDevice_def Let_def heap_on_close split: option.split prod.split)
qed

lemma watchers_next:
  assumes "pane_wf h" and "map_of (ph_heap h) a \<noteq> None" and "a \<in> watchers (pane_next op h) x"
  shows "a \<in> watchers h x"
proof -
  have old: "a < ph_next h" using pane_wf_parts(5) [OF assms(1)] assms(2) by (auto simp: fan_wf_def)
  show ?thesis
  proof (cases op)
    case (PPublish sid f)
    then show ?thesis using assms(3) by (simp add: pane_publish_same)
  next
    case (PSubscribe dev sid fails)
    obtain r h' where s: "pane_subscribe dev sid fails h = (r, h')" by fastforce
    show ?thesis
    proof (cases r)
      case None
      then show ?thesis using PSubscribe s assms(3) pane_subscribe_refused(1) by fastforce
    next
      case (Some p)
      then obtain w q where "pane_subscribe dev sid fails h = (Some (w, q), h')" using s by (cases p) simp
      note v = pane_subscribe_done(1,7) [OF this]
      then show ?thesis using PSubscribe s assms(3) old by (auto split: if_split_asm)
    qed
  next
    case (PUnsubscribe sid w)
    then show ?thesis using assms(3) pane_unsubscribe_parts(4) by simp
  next
    case (PDropDevice dev)
    then show ?thesis using assms(3) pane_dropDevice_parts(4) by simp
  qed (use assms(3) in simp)
qed

text \<open>From one server state to the next, as far as subscribers are concerned.\<close>

definition srv_on :: "Server \<Rightarrow> Server \<Rightarrow> bool" where
  "srv_on s s' \<longleftrightarrow> heap_on (h_heap (s_hub s)) (h_heap (s_hub s')) \<and> heap_on (ph_heap (s_paneHub s)) (ph_heap (s_paneHub s'))
     \<and> (\<forall>a x. map_of (ph_heap (s_paneHub s)) a \<noteq> None \<longrightarrow> a \<in> watchers (s_paneHub s') x \<longrightarrow> a \<in> watchers (s_paneHub s) x)"

lemma srv_onI:
  assumes "srv_wf s"
    and "s_hub s' = s_hub s \<or> (\<exists>op. s_hub s' = hub_next op (s_hub s))"
    and "s_paneHub s' = s_paneHub s \<or> (\<exists>op. s_paneHub s' = pane_next op (s_paneHub s))"
  shows "srv_on s s'"
proof -
  have wf: "hub_wf (s_hub s)" "pane_wf (s_paneHub s)" using assms(1) by (simp_all add: srv_wf_def)
  have "heap_on (h_heap (s_hub s)) (h_heap (s_hub s'))"
    using assms(2) hub_heap_on [OF wf(1)] by (elim disjE exE) simp_all
  moreover have "heap_on (ph_heap (s_paneHub s)) (ph_heap (s_paneHub s'))"
    using assms(3) pane_heap_on [OF wf(2)] by (elim disjE exE) simp_all
  moreover have "a \<in> watchers (s_paneHub s) x"
    if "map_of (ph_heap (s_paneHub s)) a \<noteq> None" "a \<in> watchers (s_paneHub s') x" for a x
    using assms(3) that watchers_next [OF wf(2) that(1)] by (elim disjE exE) simp_all
  ultimately show ?thesis unfolding srv_on_def by blast
qed

lemma heap_on_view:
  assumes "heap_on hp hp'" and "map_option sub_view (map_of hp a) = Some (d, g, n)"
  shows "\<exists>g' n'. map_option sub_view (map_of hp' a) = Some (d, g', n') \<and> (g \<longrightarrow> g' \<and> n' \<le> n)"
proof -
  obtain u where u: "map_of hp a = Some u" "su_deviceID u = d" "g = (0 < su_gone u)" "n = length (su_updates u)"
    using assms(2) by (auto simp: sub_view_def)
  then obtain u' where "map_of hp' a = Some u'" "su_deviceID u' = d"
    "0 < su_gone u \<longrightarrow> 0 < su_gone u' \<and> length (su_updates u') \<le> length (su_updates u)"
    using assms(1) unfolding heap_on_def by metis
  then show ?thesis using u by (simp add: sub_view_def)
qed

lemma srv_on_sub:
  assumes "srv_on s s'" and "sub_at r s a = Some (d, g, n)"
  shows "\<exists>g' n'. sub_at r s' a = Some (d, g', n') \<and> (g \<longrightarrow> g' \<and> n' \<le> n)"
proof (cases r)
  case (StatusReq auth)
  have "heap_on (h_heap (s_hub s)) (h_heap (s_hub s'))" using assms(1) by (simp add: srv_on_def)
  from heap_on_view [OF this] show ?thesis using assms(2) StatusReq by simp
next
  case (PaneReq auth sid)
  have "heap_on (ph_heap (s_paneHub s)) (ph_heap (s_paneHub s'))" using assms(1) by (simp add: srv_on_def)
  from heap_on_view [OF this] show ?thesis using assms(2) PaneReq by simp
qed

section \<open>What a stream's own steps do\<close>

text \<open>The device and the subscriber a stream holds, from \<^verbatim>\<open>subscribe\<close> to the deferred \<^verbatim>\<open>unsubscribe\<close>.\<close>

fun held :: "phase \<Rightarrow> (string \<times> nat) option" where
  "held (Opened d a m) = Some (d, a)"
| "held (Watching d a) = Some (d, a)"
| "held (Returning d a e) = Some (d, a)"
| "held p = None"

fun in_session :: "stream_req \<Rightarrow> Server \<Rightarrow> nat \<Rightarrow> bool" where
  "in_session (StatusReq auth) s a = True"
| "in_session (PaneReq auth sid) s a = (\<forall>x. a \<in> watchers (s_paneHub s) x \<longrightarrow> x = TrimSpace sid)"

definition stream_inv :: "Server \<Rightarrow> stream \<Rightarrow> bool" where
  "stream_inv s t \<longleftrightarrow> (case held (sr_phase t) of None \<Rightarrow> True
     | Some (d, a) \<Rightarrow> (\<exists>g n. sub_at (sr_req t) s a = Some (d, g, n)) \<and> in_session (sr_req t) s a)"

lemma subscribe_effect:
  assumes "stream_subscribe r dev fails s = (x, s')"
  shows "s' = s \<or> s' = s\<lparr>s_hub := hub_next (HSubscribe dev) (s_hub s)\<rparr>
    \<or> (\<exists>sid. s' = s\<lparr>s_paneHub := pane_next (PSubscribe dev sid fails) (s_paneHub s)\<rparr>)"
proof (cases r)
  case (StatusReq auth)
  then show ?thesis using assms by (auto simp: Let_def split: prod.split_asm)
next
  case (PaneReq auth sid)
  obtain q h where "pane_subscribe dev (TrimSpace sid) fails (s_paneHub s) = (q, h)" by fastforce
  then show ?thesis using assms PaneReq
    by (auto split: if_split_asm option.split_asm intro!: exI [of _ "TrimSpace sid"])
qed

lemma recv_effect:
  "stream_recv r a s = (x, s') \<Longrightarrow> s' = s\<lparr>s_hub := hub_next (HRecv a) (s_hub s)\<rparr>
    \<or> s' = s\<lparr>s_paneHub := pane_next (PRecv a) (s_paneHub s)\<rparr>"
  by (cases r) (auto simp: Let_def split: prod.split_asm)

lemma pane_ok_in_session:
  assumes "pane_wf h" and "\<And>x. a \<in> watchers h x \<Longrightarrow> x = sid"
  shows "pane_ok (PUnsubscribe sid a) h"
proof -
  have "(x, u) \<in> set (ph_sessions h) \<Longrightarrow> a \<in> set (ps_subs u) \<Longrightarrow> x = sid" for x u
    using assms(2) [of x] pane_wf_parts(1) [OF assms(1)] by (simp add: watchers_def session_at_def)
  then show ?thesis by (auto simp: list_all_iff)
qed

lemma srv_wf_hub: "srv_wf s \<Longrightarrow> srv_wf (s\<lparr>s_hub := hub_next op (s_hub s)\<rparr>)"
  by (simp add: srv_wf_def wf_intros)

lemma srv_wf_pane: "srv_wf s \<Longrightarrow> pane_ok op (s_paneHub s) \<Longrightarrow> srv_wf (s\<lparr>s_paneHub := pane_next op (s_paneHub s)\<rparr>)"
  using pane_wf_act [of "s_paneHub s" op] by (simp add: srv_wf_def pane_act_def)

lemma srv_wf_authorize: "srv_wf s \<Longrightarrow> srv_wf (snd (authorize auth c now s))"
  by (simp add: srv_wf_def authorize_snd wf_intros)

text \<open>A stream's step moves the server by one hub operation at most.\<close>

lemma stream_step_effect:
  assumes "stream_step (s, t) (s', t')"
  obtains (same) "s_hub s' = s_hub s" and "s_paneHub s' = s_paneHub s" and "srv_wf s \<Longrightarrow> srv_wf s'"
  | (hub) op where "s' = s\<lparr>s_hub := hub_next op (s_hub s)\<rparr>"
  | (pane) op where "s' = s\<lparr>s_paneHub := pane_next op (s_paneHub s)\<rparr>"
      and "srv_wf s \<Longrightarrow> stream_inv s t \<Longrightarrow> pane_ok op (s_paneHub s)"
  using assms
proof (cases rule: stream_step_split)
  case (refused now c e)
  then show thesis using same srv_wf_authorize by (metis authorize_keeps(5,6) snd_conv)
next
  case (admitted now dev)
  then show thesis using same srv_wf_authorize by (metis authorize_keeps(5,6) snd_conv)
next
  case (unserved dev fails c e)
  then show thesis using subscribe_effect same hub pane by (metis pane_ok.simps(3))
next
  case (subscribed dev fails a m)
  then show thesis using subscribe_effect same hub pane by (metis pane_ok.simps(3))
next
  case (update dev a x)
  then show thesis using recv_effect hub pane by (metis pane_ok.simps(5))
next
  case (update_breaks dev a x)
  then show thesis using recv_effect hub pane by (metis pane_ok.simps(5))
next
  case (returns dev a e)
  show thesis
  proof (cases "sr_req t")
    case (StatusReq auth)
    then show thesis using returns hub [of "HUnsubscribe a"] by simp
  next
    case (PaneReq auth sid)
    then show thesis using returns pane [of "PUnsubscribe (TrimSpace sid) a"] pane_ok_in_session [of "s_paneHub s" a "TrimSpace sid"]
      by (simp add: stream_inv_def srv_wf_def del: pane_ok.simps)
  qed
next
  case (opens dev a m)
  then show thesis by (intro same) (simp_all only:)
next
  case (open_breaks dev a x)
  then show thesis by (intro same) (simp_all only:)
next
  case (hung_up dev a)
  then show thesis by (intro same) (simp_all only:)
next
  case (revoked dev a)
  then show thesis by (intro same) (simp_all only:)
next
  case (heartbeat dev a)
  then show thesis by (intro same) (simp_all only:)
next
  case (heartbeat_breaks dev a)
  then show thesis by (intro same) (simp_all only:)
qed

lemma stream_step_on: "stream_step (s, t) (s', t') \<Longrightarrow> srv_wf s \<Longrightarrow> srv_on s s'"
  by (erule stream_step_effect) (rule srv_onI; simp; blast)+

lemma stream_step_wf: "stream_step (s, t) (s', t') \<Longrightarrow> srv_wf s \<Longrightarrow> stream_inv s t \<Longrightarrow> srv_wf s'"
  by (erule stream_step_effect) (simp_all add: srv_wf_hub srv_wf_pane del: pane_ok.simps)

lemma stream_inv_on: "srv_on s s' \<Longrightarrow> stream_inv s t \<Longrightarrow> stream_inv s' t"
proof (cases "held (sr_phase t)")
  case (Some da)
  obtain d a where da: "da = (d, a)" by fastforce
  assume on: "srv_on s s'" and inv: "stream_inv s t"
  then obtain g n where sub: "sub_at (sr_req t) s a = Some (d, g, n)" and ses: "in_session (sr_req t) s a"
    using Some da by (auto simp: stream_inv_def)
  have "in_session (sr_req t) s' a"
    using on ses sub by (cases "sr_req t") (auto simp: srv_on_def)
  then show ?thesis using srv_on_sub [OF on sub] Some da by (auto simp: stream_inv_def)
qed (simp add: stream_inv_def)

lemma subscribe_fresh:
  assumes "stream_subscribe r dev fails s = (Reply (a, m), s')" and "srv_wf s"
  shows "sub_at r s' a = Some (dev, False, 0)" "in_session r s' a"
    "set (h_subs (s_hub s')) \<subseteq> set (h_subs (s_hub s)) \<union> (case r of StatusReq x \<Rightarrow> {a} | PaneReq x y \<Rightarrow> {})"
    "b \<in> watchers (s_paneHub s') x \<Longrightarrow> b \<in> watchers (s_paneHub s) x \<or> b = a \<and> (\<exists>u v. r = PaneReq u v)"
proof -
  have v: "sub_view (new_subscriber dev) = (dev, False, 0)" by (simp add: sub_view_def new_subscriber_def)
  have "sub_at r s' a = Some (dev, False, 0) \<and> in_session r s' a
    \<and> set (h_subs (s_hub s')) \<subseteq> set (h_subs (s_hub s)) \<union> (case r of StatusReq x \<Rightarrow> {a} | PaneReq x y \<Rightarrow> {})
    \<and> (\<forall>b x. b \<in> watchers (s_paneHub s') x \<longrightarrow> b \<in> watchers (s_paneHub s) x \<or> b = a \<and> (\<exists>u v. r = PaneReq u v))"
  proof (cases r)
    case (StatusReq auth)
    then show ?thesis using assms(1) v by (auto simp: hub_subscribe_def)
  next
    case (PaneReq auth sid)
    then obtain o' h where p: "pane_subscribe dev (TrimSpace sid) fails (s_paneHub s) = (Some (a, o'), h)"
      and s': "s' = s\<lparr>s_paneHub := h\<rparr>"
      using assms(1) by (auto split: if_split_asm option.split_asm prod.split_asm)
    note d = pane_subscribe_done [OF p]
    have "fan_wf (\<Union>x. watchers (s_paneHub s) x) (ph_heap (s_paneHub s)) (ph_next (s_paneHub s))"
      using assms(2) pane_wf_parts(5) by (simp add: srv_wf_def)
    then have "a \<notin> watchers (s_paneHub s) x" for x using d(7) by (force simp: fan_wf_def)
    then show ?thesis using d PaneReq s' v by (auto split: if_split_asm)
  qed
  then show "sub_at r s' a = Some (dev, False, 0)" "in_session r s' a"
    "set (h_subs (s_hub s')) \<subseteq> set (h_subs (s_hub s)) \<union> (case r of StatusReq x \<Rightarrow> {a} | PaneReq x y \<Rightarrow> {})"
    "b \<in> watchers (s_paneHub s') x \<Longrightarrow> b \<in> watchers (s_paneHub s) x \<or> b = a \<and> (\<exists>u v. r = PaneReq u v)"
    by blast+
qed

lemma stream_step_req: "stream_step (s, t) (s', t') \<Longrightarrow> sr_req t' = sr_req t"
  by (erule stream_stepE) simp_all

lemma stream_step_inv:
  assumes "stream_step (s, t) (s', t')" and "srv_wf s" and "stream_inv s t"
  shows "stream_inv s' t'"
proof (cases "held (sr_phase t') = None \<or> held (sr_phase t') = held (sr_phase t)")
  case True
  have "stream_inv s' t" by (rule stream_inv_on) (rule stream_step_on [OF assms(1,2)], rule assms(3))
  then show ?thesis using True stream_step_req [OF assms(1)]
    by (cases "held (sr_phase t)") (auto simp: stream_inv_def)
next
  case False
  with assms(1) obtain dev fails a m where "sr_phase t' = Opened dev a m"
    "stream_subscribe (sr_req t) dev fails s = (Reply (a, m), s')"
    by (cases rule: stream_step_split) auto
  then have "sub_at (sr_req t') s' a = Some (dev, False, 0)" "in_session (sr_req t') s' a"
    "held (sr_phase t') = Some (dev, a)"
    using subscribe_fresh(1,2) [OF _ assms(2)] stream_step_req [OF assms(1)] by simp_all
  then show ?thesis unfolding stream_inv_def by fastforce
qed

section \<open>No subscriber is left behind\<close>

text \<open>Whoever a hub serves is held by a stream that will still unsubscribe it.\<close>

definition holds :: "bool \<Rightarrow> nat \<Rightarrow> stream \<Rightarrow> bool" where
  "holds status a t \<longleftrightarrow> (\<exists>d. held (sr_phase t) = Some (d, a)) \<and> (status \<longleftrightarrow> (\<exists>auth. sr_req t = StatusReq auth))"

definition host_inv :: "'ts host \<Rightarrow> bool" where
  "host_inv c \<longleftrightarrow> srv_wf (ho_srv c) \<and> list_all (stream_inv (ho_srv c)) (ho_streams c)
     \<and> (\<forall>a \<in> set (h_subs (s_hub (ho_srv c))). \<exists>t \<in> set (ho_streams c). holds True a t)
     \<and> (\<forall>x. \<forall>a \<in> watchers (s_paneHub (ho_srv c)) x. \<exists>t \<in> set (ho_streams c). holds False a t)"

lemma hub_shrinks: "(\<And>d. op \<noteq> HSubscribe d) \<Longrightarrow> set (h_subs (hub_next op h)) \<subseteq> set (h_subs h)"
  by (cases op) (auto simp: hub_publish_def hub_unsubscribe_def hub_dropDevice_def hub_recv_eq Let_def)

lemma pane_shrinks:
  assumes "\<And>d y fails. op \<noteq> PSubscribe d y fails" and "a \<in> watchers (pane_next op h) x"
  shows "a \<in> watchers h x"
proof (cases op)
  case (PSubscribe d y fails)
  then show ?thesis using assms(1) by blast
next
  case (PUnsubscribe sid w)
  then show ?thesis using assms(2) pane_unsubscribe_parts(4) by simp
next
  case (PDropDevice dev)
  then show ?thesis using assms(2) pane_dropDevice_parts(4) by simp
qed (use assms(2) in \<open>simp_all add: pane_publish_same\<close>)

text \<open>One step of the server that subscribes nobody and receives nothing.\<close>

definition quiet_step :: "Server \<Rightarrow> Server \<Rightarrow> bool" where
  "quiet_step s s' \<longleftrightarrow> srv_wf s'
     \<and> (s_hub s' = s_hub s \<or> (\<exists>op. s_hub s' = hub_next op (s_hub s) \<and> (\<forall>d. op \<noteq> HSubscribe d) \<and> (\<forall>a. op \<noteq> HRecv a)))
     \<and> (s_paneHub s' = s_paneHub s \<or> (\<exists>op. s_paneHub s' = pane_next op (s_paneHub s)
          \<and> (\<forall>d y fails. op \<noteq> PSubscribe d y fails) \<and> (\<forall>a. op \<noteq> PRecv a)))"

lemma quiet_on: "srv_wf s \<Longrightarrow> quiet_step s s' \<Longrightarrow> srv_on s s'"
  by (rule srv_onI) (auto simp: quiet_step_def)

lemma quiet_shrinks:
  assumes "quiet_step s s'"
  shows "set (h_subs (s_hub s')) \<subseteq> set (h_subs (s_hub s))"
    and "a \<in> watchers (s_paneHub s') x \<Longrightarrow> a \<in> watchers (s_paneHub s) x"
proof -
  show "set (h_subs (s_hub s')) \<subseteq> set (h_subs (s_hub s))"
    using assms hub_shrinks unfolding quiet_step_def by (metis order_refl)
  show "a \<in> watchers (s_paneHub s') x \<Longrightarrow> a \<in> watchers (s_paneHub s) x"
    using assms pane_shrinks unfolding quiet_step_def by metis
qed

lemma one_step_quiet:
  assumes "one_step op" and "srv_wf s"
  shows "quiet_step s (srv_step lb op s)"
proof -
  have "stream_op op" using assms(1) by (cases op) simp_all
  then have wf: "srv_wf (srv_step lb op s)" using assms(2) by (rule srv_wf_step [rotated])
  show ?thesis
  proof (cases op)
    case (SPublish st now)
    then have "s_hub (srv_step lb op s) = hub_next (HPublish (st\<lparr>st_HostID := HostID (lb_crypto lb) (s_id s)\<rparr>) now) (s_hub s)"
      "s_paneHub (srv_step lb op s) = s_paneHub s"
      by (simp_all add: Publish_snd)
    then show ?thesis using wf unfolding quiet_step_def by blast
  next
    case (SPublishPane sid f)
    then have "s_paneHub (srv_step lb op s) = pane_next (PPublish sid f) (s_paneHub s)" "s_hub (srv_step lb op s) = s_hub s"
      by (simp_all add: PublishPane_def)
    then show ?thesis using wf unfolding quiet_step_def by blast
  qed (use assms(1) wf in \<open>simp_all add: quiet_step_def split_def Let_def\<close>)
qed

lemma call_next_quiet: "srv_wf s \<Longrightarrow> call_next lb q p s = (p', s') \<Longrightarrow> quiet_step s s'"
proof -
  assume wf: "srv_wf s" and n: "call_next lb q p s = (p', s')"
  have "s_hub s' = s_hub s \<or> (\<exists>i. s_hub s' = hub_next (HDropDevice i) (s_hub s))"
    using call_next_hub [of lb q p s] n by simp
  moreover have "s_paneHub s' = s_paneHub s \<or> (\<exists>i. s_paneHub s' = pane_next (PDropDevice i) (s_paneHub s))"
    using call_next_pane [of lb q p s] n by simp
  moreover have "srv_wf s'" using call_next_wf [OF wf, of lb q p] n by simp
  ultimately show ?thesis unfolding quiet_step_def by blast
qed

lemma holds_same:
  "held (sr_phase t') = held (sr_phase t) \<Longrightarrow> sr_req t' = sr_req t \<Longrightarrow> holds b a t' = holds b a t"
  by (simp add: holds_def)

lemma pane_unsubscribe_watchers: "w \<notin> watchers (pane_unsubscribe sid w h) sid"
proof (cases "map_of (ph_sessions h) sid")
  case None
  then show ?thesis by (simp add: watchers_def session_at_def pane_unsubscribe_def)
next
  case (Some sess)
  then show ?thesis
    by (simp add: pane_unsubscribe_eq [OF Some] Let_def watchers_def closeIfUnwatched_simps)
qed

lemma stream_step_served:
  assumes "stream_step (s, t) (s', t')" and "srv_wf s" and "stream_inv s t"
  shows "a \<in> set (h_subs (s_hub s')) \<Longrightarrow> holds True a t' \<or> (a \<in> set (h_subs (s_hub s)) \<and> \<not> holds True a t)"
    and "a \<in> watchers (s_paneHub s') x \<Longrightarrow> holds False a t' \<or> (a \<in> watchers (s_paneHub s) x \<and> \<not> holds False a t)"
proof -
  note req = stream_step_req [OF assms(1)]
  have "(a \<in> set (h_subs (s_hub s')) \<longrightarrow> holds True a t' \<or> (a \<in> set (h_subs (s_hub s)) \<and> \<not> holds True a t))
    \<and> (a \<in> watchers (s_paneHub s') x \<longrightarrow> holds False a t' \<or> (a \<in> watchers (s_paneHub s) x \<and> \<not> holds False a t))"
    (is "?served")
    using assms(1)
  proof (cases rule: stream_step_split)
    case (subscribed dev fails w m)
    note f = subscribe_fresh(3,4) [OF subscribed(3) assms(2)]
    have "holds True w t' \<longleftrightarrow> (\<exists>auth. sr_req t = StatusReq auth)"
      "holds False w t' \<longleftrightarrow> \<not> (\<exists>auth. sr_req t = StatusReq auth)"
      using subscribed req by (auto simp: holds_def)
    moreover have "\<not> holds b a t" for b using subscribed by (simp add: holds_def)
    ultimately show ?thesis using f(1) f(2) [of a x] by (cases "sr_req t") auto
  next
    case (returns dev w e)
    have "\<not> holds b a t'" for b using returns by (simp add: holds_def)
    moreover have "a \<in> set (h_subs (s_hub s')) \<Longrightarrow> a \<in> set (h_subs (s_hub s)) \<and> \<not> holds True a t"
      using returns by (cases "sr_req t") (auto simp: hub_unsubscribe_def holds_def)
    moreover have "a \<in> watchers (s_paneHub s) x \<and> \<not> holds False a t" if w: "a \<in> watchers (s_paneHub s') x"
    proof (cases "sr_req t")
      case (PaneReq auth sid)
      have "a \<in> watchers (s_paneHub s) x" using w returns PaneReq pane_unsubscribe_parts(4) by simp
      moreover have "a = w \<Longrightarrow> x = TrimSpace sid"
        using assms(3) returns PaneReq calculation by (auto simp: stream_inv_def)
      moreover have "w \<notin> watchers (pane_unsubscribe (TrimSpace sid) w (s_paneHub s)) (TrimSpace sid)"
        by (rule pane_unsubscribe_watchers)
      ultimately show ?thesis using w returns PaneReq by (auto simp: holds_def)
    qed (use w returns in \<open>auto simp: holds_def\<close>)
    ultimately show ?thesis by blast
  next
    case (unserved dev fails c e)
    have "\<not> holds b a t" for b using unserved by (simp add: holds_def)
    moreover have "s_hub s' = s_hub s \<and> watchers (s_paneHub s') = watchers (s_paneHub s)"
      using unserved by (cases "sr_req t") (auto simp: Let_def dest: pane_subscribe_refused(1)
          split: if_split_asm prod.split_asm option.split_asm)
    ultimately show ?thesis by simp
  next
    case (update dev w y)
    have "s_paneHub s' = s_paneHub s \<and> set (h_subs (s_hub s')) = set (h_subs (s_hub s))
      \<or> s_hub s' = s_hub s \<and> watchers (s_paneHub s') = watchers (s_paneHub s)"
      using recv_effect [OF update(3)] by (auto simp: hub_recv_eq)
    then show ?thesis using update holds_same [of t' t] by auto
  next
    case (update_breaks dev w y)
    have "s_paneHub s' = s_paneHub s \<and> set (h_subs (s_hub s')) = set (h_subs (s_hub s))
      \<or> s_hub s' = s_hub s \<and> watchers (s_paneHub s') = watchers (s_paneHub s)"
      using recv_effect [OF update_breaks(3)] by (auto simp: hub_recv_eq)
    then show ?thesis using update_breaks holds_same [of t' t] by auto
  next
    case (refused now c e)
    then have "s_hub s' = s_hub s" "s_paneHub s' = s_paneHub s" by (metis authorize_keeps(5,6) snd_conv)+
    then show ?thesis using refused by (simp add: holds_def)
  next
    case (admitted now dev)
    then have "s_hub s' = s_hub s" "s_paneHub s' = s_paneHub s" by (metis authorize_keeps(5,6) snd_conv)+
    then show ?thesis using admitted by (simp add: holds_def)
  qed (use holds_same [of t' t] in auto)
  then show "a \<in> set (h_subs (s_hub s')) \<Longrightarrow> holds True a t' \<or> (a \<in> set (h_subs (s_hub s)) \<and> \<not> holds True a t)"
    and "a \<in> watchers (s_paneHub s') x \<Longrightarrow> holds False a t' \<or> (a \<in> watchers (s_paneHub s) x \<and> \<not> holds False a t)"
    by blast+
qed

lemma holder_stays:
  assumes "t \<in> set ts" and "holds b a t" and "k < length ts" and "holds b a (ts ! k) \<Longrightarrow> holds b a t'"
  shows "\<exists>u \<in> set (ts[k := t']). holds b a u"
proof -
  obtain m where m: "m < length ts" "ts ! m = t" using assms(1) by (auto simp: in_set_conv_nth)
  show ?thesis
  proof (cases "m = k")
    case True
    then show ?thesis using assms m set_update_memI [of k ts t'] by auto
  next
    case False
    then show ?thesis using assms m by (metis in_set_conv_nth length_list_update nth_list_update_neq)
  qed
qed

lemma revoke_next_quiet:
  "srv_wf s \<Longrightarrow> revoke_next lb i p s = (p', s') \<Longrightarrow> quiet_step s s'"
proof (cases p)
  case (RvTombstone io now)
  assume wf: "srv_wf s" and s: "revoke_next lb i p s = (p', s')"
  obtain e r d where rv: "Revoke (lb_json lb) io i now (s_reg s) (s_disk s) = (e, r, d)" by (rule prod_cases3)
  have "srv_wf (srv_step lb (SRevoke io i now) s)" using wf by (rule srv_wf_step) simp
  moreover have "s_reg (srv_step lb (SRevoke io i now) s) = r" using rv by (simp add: RevokeDevice_eq Let_def)
  ultimately have "book_wf r" by (simp add: srv_wf_def)
  then show ?thesis using wf s RvTombstone rv by (auto simp: quiet_step_def srv_wf_def)
next
  case RvStatus
  then show "srv_wf s \<Longrightarrow> revoke_next lb i p s = (p', s') \<Longrightarrow> ?thesis"
    using srv_wf_hub [of s "HDropDevice i"] by (auto simp: quiet_step_def intro!: exI [of _ "HDropDevice i"])
next
  case RvPanes
  then show "srv_wf s \<Longrightarrow> revoke_next lb i p s = (p', s') \<Longrightarrow> ?thesis"
    using srv_wf_pane [of s "PDropDevice i"] by (auto simp: quiet_step_def intro!: exI [of _ "PDropDevice i"])
qed (auto simp: quiet_step_def srv_wf_def wf_intros)

lemma host_inv_quiet:
  assumes "host_inv c" and "quiet_step (ho_srv c) s'"
  shows "host_inv (c\<lparr>ho_srv := s', ho_revs := rs, ho_calls := qs\<rparr>)"
proof -
  have wf: "srv_wf (ho_srv c)" using assms(1) by (simp add: host_inv_def)
  have "list_all (stream_inv s') (ho_streams c)"
    using assms(1) stream_inv_on [OF quiet_on [OF wf assms(2)]] by (simp add: host_inv_def list_all_iff)
  then show ?thesis using assms quiet_shrinks [OF assms(2)] by (simp add: host_inv_def quiet_step_def) blast
qed

lemma host_inv_step:
  assumes "host_step lb c c'" and "host_inv c"
  shows "host_inv c'"
  using assms(1)
proof (cases rule: host_step.cases)
  case (arrives r)
  then show ?thesis using assms(2) by (auto simp: host_inv_def stream_inv_def)
next
  case (goes_on k s' t')
  let ?t = "ho_streams c ! k" and ?s = "ho_srv c"
  have wf: "srv_wf ?s" and inv: "list_all (stream_inv ?s) (ho_streams c)"
    using assms(2) by (simp_all add: host_inv_def)
  then have t: "stream_inv ?s ?t" using goes_on(2) by (simp add: list_all_length)
  note st = goes_on(3)
  have "list_all (stream_inv s') ((ho_streams c)[k := t'])"
    using inv stream_step_inv [OF st wf t] stream_inv_on [OF stream_step_on [OF st wf]]
    by (auto simp: list_all_iff dest!: set_update_subset_insert [THEN subsetD])
  moreover have "\<exists>u \<in> set ((ho_streams c)[k := t']). holds True a u" if a: "a \<in> set (h_subs (s_hub s'))" for a
    using stream_step_served(1) [OF st wf t a] assms(2) holder_stays [of _ "ho_streams c" True a k t'] goes_on(2)
      set_update_memI [of k "ho_streams c" t'] unfolding host_inv_def by metis
  moreover have "\<exists>u \<in> set ((ho_streams c)[k := t']). holds False a u" if a: "a \<in> watchers (s_paneHub s') x" for a x
    using stream_step_served(2) [OF st wf t a] assms(2) holder_stays [of _ "ho_streams c" False a k t'] goes_on(2)
      set_update_memI [of k "ho_streams c" t'] unfolding host_inv_def by metis
  ultimately show ?thesis using goes_on(1) stream_step_wf [OF st wf t] by (simp add: host_inv_def)
next
  case (revoke i io now)
  then show ?thesis using assms(2) by (simp add: host_inv_def)
next
  case (revokes j p s')
  have "quiet_step (ho_srv c) s'" using revoke_next_quiet revokes(3) assms(2) by (metis host_inv_def)
  from host_inv_quiet [OF assms(2) this, of "ho_calls c"] show ?thesis using revokes(1) by simp
next
  case (calls q)
  then show ?thesis using assms(2) by (simp add: host_inv_def)
next
  case (proceeds k p s')
  have "quiet_step (ho_srv c) s'" using call_next_quiet proceeds(3) assms(2) by (metis host_inv_def)
  from host_inv_quiet [OF assms(2) this, of _ "ho_revs c"] show ?thesis using proceeds(1) by simp
next
  case (other op)
  have "quiet_step (ho_srv c) (srv_step lb op (ho_srv c))"
    by (rule one_step_quiet) (use other(2) assms(2) in \<open>simp_all add: host_inv_def\<close>)
  from host_inv_quiet [OF assms(2) this, of "ho_calls c" "ho_revs c"] show ?thesis using other(1) by simp
qed

text \<open>A server before any stream has come in, such as \<^verbatim>\<open>NewServer\<close> makes it.\<close>

definition idle_server :: "Server \<Rightarrow> bool" where
  "idle_server s \<longleftrightarrow> srv_wf s \<and> h_subs (s_hub s) = [] \<and> (\<forall>x. watchers (s_paneHub s) x = {})"

lemma NewServer_idle:
  "NewServer opt d = Some s \<Longrightarrow> (\<And>r. o_Registry opt = Some r \<Longrightarrow> book_wf r) \<Longrightarrow> idle_server s"
  using NewServer_wf [of opt d s]
  by (auto simp: idle_server_def NewServer_def newHub_def newPaneHub_def watchers_def
      split: option.split_asm bool.split_asm)

lemma host_inv_start: "idle_server s \<Longrightarrow> host_inv (fresh_host s)"
  by (simp add: host_inv_def fresh_host_def idle_server_def)

lemma host_runs_inv: "host_runs lb c c' \<Longrightarrow> host_inv c \<Longrightarrow> host_inv c'"
  by (induction rule: host_runs.induct) (auto intro: host_inv_step)

end
