(* ===== verification/Revocation.thy ===== *)
theory Revocation
  imports Streams
begin

text \<open>
  What a revocation does to the streams of \<open>Streams\<close>: those subscribed before it are closed by the
  time it returns and can only drain what was pending; one that was admitted before the tombstone
  and subscribes after the sweep is missed.
\<close>

section \<open>The sweep\<close>

text \<open>Whether a revocation has already swept the hub a request is served by.\<close>

fun swept_yet :: "stream_req \<Rightarrow> rev_phase \<Rightarrow> bool" where
  "swept_yet (StatusReq auth) p \<longleftrightarrow> p = RvPanes \<or> p = RvReturned None"
| "swept_yet (PaneReq auth sid) p \<longleftrightarrow> p = RvReturned None"

lemma unserved_gone:
  "fan_wf A hp nxt \<Longrightarrow> map_of hp a = Some u \<Longrightarrow> a \<notin> A \<Longrightarrow> 0 < su_gone u"
  by (auto simp: fan_wf_def closed_once_def)

lemma close_gone:
  assumes "fan_wf A hp nxt" and "map_of hp a = Some u" and "a \<in> B \<or> a \<notin> A"
  shows "\<exists>u'. map_of (heap_mod B subscriber_close hp) a = Some u' \<and> su_deviceID u' = su_deviceID u
    \<and> 0 < su_gone u' \<and> su_updates u' = su_updates u"
proof -
  have c: "closed_once u" using assms(1,2) by (auto simp: fan_wf_def)
  have "a \<notin> B \<Longrightarrow> 0 < su_gone u" using unserved_gone assms by blast
  then show ?thesis using assms(2) c by (auto simp: subscriber_close_def closed_once_def)
qed

lemma hub_sweep_gone:
  assumes "hub_wf h" and "map_option sub_view (map_of (h_heap h) a) = Some (i, g, n)"
  shows "map_option sub_view (map_of (h_heap (hub_dropDevice i h)) a) = Some (i, True, n)"
proof -
  define D where "D = set (filter (\<lambda>a. case map_of (h_heap h) a of None \<Rightarrow> False
    | Some s \<Rightarrow> su_deviceID s = i) (h_subs h))"
  have hp: "h_heap (hub_dropDevice i h) = heap_mod D subscriber_close (h_heap h)"
    unfolding hub_dropDevice_def Let_def D_def by auto
  obtain u where u: "map_of (h_heap h) a = Some u" "su_deviceID u = i" "length (su_updates u) = n"
    using assms(2) by (auto simp: sub_view_def)
  have "a \<in> D \<or> a \<notin> set (h_subs h)" using u by (auto simp: D_def)
  moreover have f: "fan_wf (set (h_subs h)) (h_heap h) (h_next h)" using assms(1) by (simp add: hub_wf_def)
  ultimately obtain u' where "map_of (heap_mod D subscriber_close (h_heap h)) a = Some u'" "su_deviceID u' = su_deviceID u"
    "0 < su_gone u'" "su_updates u' = su_updates u"
    using close_gone [OF f u(1)] by blast
  then show ?thesis using u unfolding hp by (simp add: sub_view_def)
qed

lemma pane_sweep_gone:
  assumes "pane_wf h" and "map_option sub_view (map_of (ph_heap h) a) = Some (i, g, n)"
  shows "map_option sub_view (map_of (ph_heap (pane_dropDevice i h)) a) = Some (i, True, n)"
proof -
  have hp: "ph_heap (pane_dropDevice i h) = heap_mod (doomed i h) subscriber_close (ph_heap h)"
    using doomed_eq [OF pane_wf_parts(1) [OF assms(1)]] by (simp add: pane_dropDevice_def Let_def)
  obtain u where u: "map_of (ph_heap h) a = Some u" "su_deviceID u = i" "length (su_updates u) = n"
    using assms(2) by (auto simp: sub_view_def)
  have "a \<in> doomed i h \<or> a \<notin> (\<Union>x. watchers h x)" using u by (auto simp: doomed_def owned_by_def)
  then obtain u' where "map_of (heap_mod (doomed i h) subscriber_close (ph_heap h)) a = Some u'"
    "su_deviceID u' = su_deviceID u" "0 < su_gone u'" "su_updates u' = su_updates u"
    using close_gone [OF pane_wf_parts(5) [OF assms(1)] u(1)] by blast
  then show ?thesis using u unfolding hp by (simp add: sub_view_def)
qed

lemma sweep_gone:
  assumes "srv_wf s" and "revoke_next lb i p s = (p', s')" and "swept_yet r p'" and "\<not> swept_yet r p"
    and "sub_at r s a = Some (i, g, n)"
  shows "is_gone r s' a"
proof (cases r)
  case (StatusReq auth)
  then have "p = RvStatus" using assms(2-4) by (cases p) (auto split: prod.split_asm if_split_asm)
  then show ?thesis using assms StatusReq hub_sweep_gone [of "s_hub s" a i g n]
    by (auto simp: is_gone_def srv_wf_def)
next
  case (PaneReq auth sid)
  then have "p = RvPanes" using assms(2-4) by (cases p) (auto split: prod.split_asm if_split_asm)
  then show ?thesis using assms PaneReq pane_sweep_gone [of "s_paneHub s" a i g n]
    by (auto simp: is_gone_def srv_wf_def)
qed

section \<open>One stream through a run\<close>

lemma is_gone_on: "srv_on s s' \<Longrightarrow> is_gone r s a \<Longrightarrow> is_gone r s' a"
  unfolding is_gone_def using srv_on_sub by metis

lemma host_step_on:
  assumes "host_step lb c c'" and "host_inv c"
  shows "srv_on (ho_srv c) (ho_srv c')"
  using assms(1)
proof (cases rule: host_step.cases)
  case (goes_on k s' t')
  then show ?thesis using stream_step_on assms(2) by (simp add: host_inv_def)
next
  case (proceeds k p s')
  have "quiet_step (ho_srv c) s'" using call_next_quiet proceeds(3) assms(2) by (metis host_inv_def)
  then show ?thesis using quiet_on assms(2) proceeds(1) by (simp add: host_inv_def)
next
  case (revokes j p s')
  have "quiet_step (ho_srv c) s'" using revoke_next_quiet revokes(3) assms(2) by (metis host_inv_def)
  then show ?thesis using quiet_on assms(2) revokes(1) by (simp add: host_inv_def)
next
  case (other op)
  have "quiet_step (ho_srv c) (srv_step lb op (ho_srv c))"
    by (rule one_step_quiet) (use other(2) assms(2) in \<open>simp_all add: host_inv_def\<close>)
  then show ?thesis using quiet_on assms(2) other(1) by (simp add: host_inv_def)
qed (simp_all add: srv_on_def)

text \<open>A step changes the stream at an index by one of that stream's own steps, or not at all.\<close>

lemma host_step_stream:
  assumes "host_step lb c c'" and "k < length (ho_streams c)"
  shows "k < length (ho_streams c')"
    and "(ho_streams c' ! k = ho_streams c ! k)
      \<or> stream_step (ho_srv c, ho_streams c ! k) (ho_srv c', ho_streams c' ! k)"
  using assms by (cases rule: host_step.cases; auto simp: nth_append nth_list_update)+

lemma host_step_rev:
  assumes "host_step lb c c'" and "j < length (ho_revs c)"
  shows "j < length (ho_revs c')" "rv_dev (ho_revs c' ! j) = rv_dev (ho_revs c ! j)"
    and "rv_phase (ho_revs c' ! j) = rv_phase (ho_revs c ! j)
      \<or> revoke_next lb (rv_dev (ho_revs c ! j)) (rv_phase (ho_revs c ! j)) (ho_srv c)
          = (rv_phase (ho_revs c' ! j), ho_srv c')"
  using assms by (cases rule: host_step.cases; auto simp: nth_append nth_list_update)+

lemma stream_step_held:
  assumes "stream_step (s, t) (s', t')" and "held (sr_phase t) = Some (d, a)"
  shows "held (sr_phase t') = Some (d, a) \<or> (\<exists>e. sr_phase t' = Ended e)"
  using assms by (cases rule: stream_step_split) auto

lemma stream_step_ended: "stream_step (s, t) (s', t') \<Longrightarrow> sr_phase t \<noteq> Ended e"
  by (erule stream_stepE) auto

definition tracked :: "nat \<Rightarrow> nat \<Rightarrow> stream_req \<Rightarrow> string \<Rightarrow> nat \<Rightarrow> 'ts host \<Rightarrow> bool" where
  "tracked k j r i a c \<longleftrightarrow> k < length (ho_streams c) \<and> sr_req (ho_streams c ! k) = r
     \<and> j < length (ho_revs c) \<and> rv_dev (ho_revs c ! j) = i
     \<and> ((\<exists>e. sr_phase (ho_streams c ! k) = Ended e)
        \<or> held (sr_phase (ho_streams c ! k)) = Some (i, a)
          \<and> (swept_yet r (rv_phase (ho_revs c ! j)) \<longrightarrow> is_gone r (ho_srv c) a))"

lemma tracked_step:
  assumes "host_step lb c c'" and inv: "host_inv c" and tr: "tracked k j r i a c"
  shows "tracked k j r i a c'"
proof -
  have k: "k < length (ho_streams c)" "sr_req (ho_streams c ! k) = r"
    and j: "j < length (ho_revs c)" "rv_dev (ho_revs c ! j) = i" using tr by (simp_all add: tracked_def)
  note st = host_step_stream [OF assms(1) k(1)] and rv = host_step_rev [OF assms(1) j(1)]
  have req: "sr_req (ho_streams c' ! k) = r" using st(2) k(2) stream_step_req by metis
  show ?thesis
  proof (cases "\<exists>e. sr_phase (ho_streams c' ! k) = Ended e")
    case True
    then show ?thesis using st(1) req rv(1,2) j(2) by (simp add: tracked_def)
  next
    case False
    have "\<nexists>e. sr_phase (ho_streams c ! k) = Ended e" using False st(2) stream_step_ended by metis
    then have h: "held (sr_phase (ho_streams c ! k)) = Some (i, a)"
      and g: "swept_yet r (rv_phase (ho_revs c ! j)) \<longrightarrow> is_gone r (ho_srv c) a"
      using tr by (auto simp: tracked_def)
    have h': "held (sr_phase (ho_streams c' ! k)) = Some (i, a)"
      using st(2) h stream_step_held False by metis
    have "is_gone r (ho_srv c') a" if sw: "swept_yet r (rv_phase (ho_revs c' ! j))"
    proof (cases "swept_yet r (rv_phase (ho_revs c ! j))")
      case True
      then show ?thesis using g is_gone_on [OF host_step_on [OF assms(1) inv]] by blast
    next
      case False
      then have "revoke_next lb i (rv_phase (ho_revs c ! j)) (ho_srv c) = (rv_phase (ho_revs c' ! j), ho_srv c')"
        using rv(3) sw j(2) by metis
      moreover have "stream_inv (ho_srv c) (ho_streams c ! k)"
        using inv k(1) by (simp add: host_inv_def list_all_length)
      then obtain g n where "sub_at r (ho_srv c) a = Some (i, g, n)" using h k(2) by (auto simp: stream_inv_def)
      ultimately show ?thesis using sweep_gone sw False inv by (metis host_inv_def)
    qed
    then show ?thesis using h' st(1) req rv(1,2) j(2) by (simp add: tracked_def)
  qed
qed

lemma tracked_runs: "host_runs lb c c' \<Longrightarrow> host_inv c \<Longrightarrow> tracked k j r i a c \<Longrightarrow> tracked k j r i a c'"
  by (induction rule: host_runs.induct) (auto intro: tracked_step host_runs_inv)

section \<open>What a closed stream can still send\<close>

definition snapshots :: "stream \<Rightarrow> nat" where
  "snapshots t = length (filter (\<lambda>m. m \<noteq> SentHeartbeat) (sr_sent t))"

definition backlog :: "Server \<Rightarrow> stream \<Rightarrow> nat" where
  "backlog s t = (case sr_phase t of
      Opened d a m \<Rightarrow> (if m = None then 0 else 1) + (case sub_at (sr_req t) s a of None \<Rightarrow> 0 | Some (d, g, n) \<Rightarrow> n)
    | Watching d a \<Rightarrow> (case sub_at (sr_req t) s a of None \<Rightarrow> 0 | Some (d, g, n) \<Rightarrow> n)
    | _ \<Rightarrow> 0)"

lemma sub_at_slot:
  assumes "srv_wf s" and "sub_at r s a = Some (d, g, n)"
  shows "n \<le> 1"
proof (cases r)
  case (StatusReq auth)
  then show ?thesis using assms fan_wf_slot [of "set (h_subs (s_hub s))" "h_heap (s_hub s)" "h_next (s_hub s)" a]
    by (auto simp: srv_wf_def hub_wf_def sub_view_def)
next
  case (PaneReq auth sid)
  then show ?thesis using assms fan_wf_slot [OF pane_wf_parts(5), of "s_paneHub s" a]
    by (auto simp: srv_wf_def sub_view_def)
qed

lemma backlog_bound: "srv_wf s \<Longrightarrow> backlog s t \<le> 2"
  using sub_at_slot [of s] by (force simp: backlog_def split: phase.split option.split)

lemma backlog_on:
  assumes "srv_on s s'" and "\<And>d a. held (sr_phase t) = Some (d, a) \<Longrightarrow> is_gone (sr_req t) s a"
  shows "backlog s' t \<le> backlog s t"
proof -
  have le: "(case sub_at (sr_req t) s' a of None \<Rightarrow> 0 | Some (d, g, n) \<Rightarrow> n)
      \<le> (case sub_at (sr_req t) s a of None \<Rightarrow> 0 | Some (d, g, n) \<Rightarrow> n)"
    if h: "held (sr_phase t) = Some (d, a)" for d a
  proof -
    obtain d' n where "sub_at (sr_req t) s a = Some (d', True, n)"
      using assms(2) [OF h] by (auto simp: is_gone_def)
    from srv_on_sub [OF assms(1) this] this show ?thesis by auto
  qed
  show ?thesis
    by (cases "sr_phase t") (use le in \<open>simp_all add: backlog_def\<close>)
qed

lemma recv_pending:
  assumes "stream_recv r a s = (Some x, s')" and "srv_wf s"
  shows "\<exists>d g. sub_at r s a = Some (d, g, 1) \<and> sub_at r s' a = Some (d, g, 0)" "x \<noteq> SentHeartbeat"
proof -
  have "(\<exists>d g. sub_at r s a = Some (d, g, 1) \<and> sub_at r s' a = Some (d, g, 0)) \<and> x \<noteq> SentHeartbeat"
  proof (cases r)
    case (StatusReq auth)
    then obtain u where u: "map_of (h_heap (s_hub s)) a = Some u"
      using assms(1) by (auto simp: Let_def hub_recv_def split: prod.split_asm option.split_asm)
    then have "length (su_updates u) \<le> 1"
      using assms(2) fan_wf_slot by (auto simp: srv_wf_def hub_wf_def)
    then show ?thesis using assms(1) StatusReq u
      by (cases "su_updates u") (auto simp: hub_recv_def try_recv_def sub_view_def Let_def)
  next
    case (PaneReq auth sid)
    then obtain u where u: "map_of (ph_heap (s_paneHub s)) a = Some u"
      using assms(1) by (auto simp: Let_def pane_recv_def split: prod.split_asm option.split_asm)
    have "length (su_updates u) \<le> 1"
      using assms(2) fan_wf_slot [OF pane_wf_parts(5) u] by (simp add: srv_wf_def)
    then show ?thesis using assms(1) PaneReq u
      by (cases "su_updates u") (auto simp: pane_recv_def try_recv_def sub_view_def Let_def)
  qed
  then show "\<exists>d g. sub_at r s a = Some (d, g, 1) \<and> sub_at r s' a = Some (d, g, 0)" "x \<noteq> SentHeartbeat" by blast+
qed

text \<open>A stream spends its backlog with every snapshot it sends.\<close>

lemma stream_step_spends:
  assumes "stream_step (s, t) (s', t')" and "srv_wf s" and "held (sr_phase t) \<noteq> None"
  shows "snapshots t' + backlog s' t' \<le> snapshots t + backlog s t"
  using assms(1)
proof (cases rule: stream_step_split)
  case (opens dev a m)
  then show ?thesis by (cases m) (auto simp: snapshots_def backlog_def)
next
  case (update dev a x)
  then show ?thesis using recv_pending [OF update(3) assms(2)] by (auto simp: snapshots_def backlog_def)
qed (use assms(3) in \<open>auto simp: snapshots_def backlog_def\<close>)

definition ended_or_gone :: "nat \<Rightarrow> 'ts host \<Rightarrow> bool" where
  "ended_or_gone k c \<longleftrightarrow> k < length (ho_streams c) \<and> ((\<exists>e. sr_phase (ho_streams c ! k) = Ended e)
     \<or> (\<exists>d a. held (sr_phase (ho_streams c ! k)) = Some (d, a) \<and> is_gone (sr_req (ho_streams c ! k)) (ho_srv c) a))"

definition allowance :: "nat \<Rightarrow> 'ts host \<Rightarrow> nat" where
  "allowance k c = snapshots (ho_streams c ! k) + backlog (ho_srv c) (ho_streams c ! k)"

lemma ended_or_gone_step:
  assumes "host_step lb c c'" and inv: "host_inv c" and eg: "ended_or_gone k c"
  shows "ended_or_gone k c' \<and> allowance k c' \<le> allowance k c"
proof -
  have k: "k < length (ho_streams c)" using eg by (simp add: ended_or_gone_def)
  note st = host_step_stream [OF assms(1) k] and on = host_step_on [OF assms(1) inv]
  let ?t = "ho_streams c ! k" and ?t' = "ho_streams c' ! k"
  show ?thesis
  proof (cases "?t' = ?t")
    case True
    have "backlog (ho_srv c') ?t \<le> backlog (ho_srv c) ?t"
      using eg by (intro backlog_on [OF on]) (auto simp: ended_or_gone_def)
    moreover have "ended_or_gone k c'"
      using eg True st(1) is_gone_on [OF on] by (auto simp: ended_or_gone_def)
    ultimately show ?thesis using True by (simp add: allowance_def)
  next
    case False
    then have step: "stream_step (ho_srv c, ?t) (ho_srv c', ?t')" using st(2) by blast
    then obtain d a where h: "held (sr_phase ?t) = Some (d, a)" "is_gone (sr_req ?t) (ho_srv c) a"
      using eg stream_step_ended by (auto simp: ended_or_gone_def)
    have "ended_or_gone k c'"
      using stream_step_held [OF step h(1)] st(1) is_gone_on [OF on h(2)] stream_step_req [OF step]
      by (auto simp: ended_or_gone_def)
    moreover have "srv_wf (ho_srv c)" using inv by (simp add: host_inv_def)
    ultimately show ?thesis using stream_step_spends [OF step] h(1) by (simp add: allowance_def)
  qed
qed

lemma ended_or_gone_runs:
  "host_runs lb c c' \<Longrightarrow> host_inv c \<Longrightarrow> ended_or_gone k c \<Longrightarrow> ended_or_gone k c' \<and> allowance k c' \<le> allowance k c"
  by (induction rule: host_runs.induct) (use ended_or_gone_step host_runs_inv in \<open>force+\<close>)

lemma gone_can_end:
  assumes "k < length (ho_streams c)" and "sr_phase (ho_streams c ! k) = Watching d a"
    and "is_gone (sr_req (ho_streams c ! k)) (ho_srv c) a"
  shows "\<exists>c'. host_runs lb c c' \<and> sr_phase (ho_streams c' ! k) = Ended EndRevoked"
proof -
  let ?t = "ho_streams c ! k" and ?s = "ho_srv c"
  let ?t1 = "goes ?t (Returning d a EndRevoked)"
  let ?c1 = "c\<lparr>ho_srv := ?s, ho_streams := (ho_streams c)[k := ?t1]\<rparr>"
  have "host_step lb c ?c1"
    by (rule host_step.goes_on [OF assms(1)]) (rule stream_step.revoked [OF assms(2,3)])
  then have r1: "host_runs lb c ?c1" by (rule host_runs.more [OF host_runs.stay])
  have t1: "ho_streams ?c1 ! k = ?t1" using assms(1) by simp
  have st: "stream_step (ho_srv ?c1, ho_streams ?c1 ! k)
      (stream_unsubscribe (sr_req ?t1) a ?s, goes ?t1 (Ended EndRevoked))"
    unfolding t1 using stream_step.returns [of ?t1 d a EndRevoked ?s] by simp
  have k1: "k < length (ho_streams ?c1)" using assms(1) by simp
  let ?c2 = "?c1\<lparr>ho_srv := stream_unsubscribe (sr_req ?t1) a ?s,
      ho_streams := (ho_streams ?c1)[k := goes ?t1 (Ended EndRevoked)]\<rparr>"
  have r2: "host_runs lb c ?c2"
    by (rule host_runs.more [OF r1 host_step.goes_on [OF k1 st]])
  have "sr_phase (ho_streams ?c2 ! k) = Ended EndRevoked" using assms(1) by simp
  then show ?thesis by (intro exI [of _ ?c2] conjI r2)
qed

section \<open>The parts put together without interruption\<close>

text \<open>Run in one go, the four critical sections are \<^verbatim>\<open>RevokeDevice\<close>, and a stream's first two steps are
  the openings of \<open>LinkServer\<close>.\<close>

lemma revoke_run_RevokeDevice:
  "revoke_run lb i 4 (RvTombstone io now, s) = (RvReturned (fst (RevokeDevice lb io i now s)), snd (RevokeDevice lb io i now s))"
proof -
  obtain e r d where "Revoke (lb_json lb) io i now (s_reg s) (s_disk s) = (e, r, d)" by (rule prod_cases3)
  then show ?thesis
    by (cases e) (simp_all add: RevokeDevice_def drop_sessions_def numeral_eq_Suc)
qed

lemma WatchStatus_open_parts:
  "WatchStatus_open now auth s = map_reply_state (authorize auth CapStatusRead now s)
     (\<lambda>dev s1. case hub_subscribe dev (s_hub s1) of (af, h) \<Rightarrow>
        (Reply af, snd (stream_subscribe (StatusReq auth) dev False s1)))"
  by (simp add: WatchStatus_open_def Let_def hub_subscribe_def)

section \<open>A stream that is missed\<close>

lemma reach_stream:
  "host_runs lb c0 c \<Longrightarrow> ho_streams c = [t] \<Longrightarrow> stream_step (ho_srv c, t) (s', t') \<Longrightarrow>
   host_runs lb c0 (c\<lparr>ho_srv := s', ho_streams := [t']\<rparr>)"
  using host_runs.more [OF _ host_step.goes_on [of 0 c s' t' lb]] by simp

lemma reach_revocation:
  "host_runs lb c0 c \<Longrightarrow> ho_revs c = [\<lparr>rv_dev = i, rv_phase = p\<rparr>] \<Longrightarrow> revoke_next lb i p (ho_srv c) = (p', s') \<Longrightarrow>
   host_runs lb c0 (c\<lparr>ho_srv := s', ho_revs := [\<lparr>rv_dev = i, rv_phase = p'\<rparr>]\<rparr>)"
  using host_runs.more [OF _ host_step.revokes [of 0 c lb p' s']] by simp

lemma reach_revocations:
  "host_runs lb c0 c \<Longrightarrow> ho_revs c = [\<lparr>rv_dev = i, rv_phase = p\<rparr>] \<Longrightarrow> revoke_run lb i n (p, ho_srv c) = (p', s') \<Longrightarrow>
   host_runs lb c0 (c\<lparr>ho_srv := s', ho_revs := [\<lparr>rv_dev = i, rv_phase = p'\<rparr>]\<rparr>)"
proof (induction n arbitrary: c p)
  case 0
  then have "c\<lparr>ho_srv := s', ho_revs := [\<lparr>rv_dev = i, rv_phase = p'\<rparr>]\<rparr> = c" by (cases c) simp
  then show ?case using 0(1) by (simp only:)
next
  case (Suc n)
  obtain q u where q: "revoke_next lb i p (ho_srv c) = (q, u)" by fastforce
  let ?c = "c\<lparr>ho_srv := u, ho_revs := [\<lparr>rv_dev = i, rv_phase = q\<rparr>]\<rparr>"
  have "host_runs lb c0 ?c" by (rule reach_revocation [OF Suc.prems(1,2) q])
  then have "host_runs lb c0 (?c\<lparr>ho_srv := s', ho_revs := [\<lparr>rv_dev = i, rv_phase = p'\<rparr>]\<rparr>)"
    by (rule Suc.IH) (use Suc.prems(3) q in simp_all)
  then show ?case by simp
qed

section \<open>Properties\<close>

lemma ended_leave_nothing:
  assumes "host_inv c" and "list_all (\<lambda>t. \<exists>e. sr_phase t = Ended e) (ho_streams c)"
  shows "h_subs (s_hub (ho_srv c)) = [] \<and> (\<forall>x. \<not> is_open (s_paneHub (ho_srv c)) x)"
proof -
  have "\<not> holds b a t" if "\<exists>e. sr_phase t = Ended e" for b a t using that by (auto simp: holds_def)
  then have no: "\<not> (\<exists>t \<in> set (ho_streams c). holds b a t)" for b a
    using assms(2) by (auto simp: list_all_iff)
  have "a \<notin> set (h_subs (s_hub (ho_srv c)))" for a using assms(1) no [of True a] by (auto simp: host_inv_def)
  moreover have "a \<notin> watchers (s_paneHub (ho_srv c)) x" for a x
    using assms(1) no [of False a] unfolding host_inv_def by metis
  moreover have "pane_wf (s_paneHub (ho_srv c))" using assms(1) by (simp add: host_inv_def srv_wf_def)
  ultimately show ?thesis using pane_wf_parts(2) by (metis all_not_in_conv last_in_set)
qed

text \<open>C12: A revocation ends the streams it finds. Take any state the host can reach by interleaving
  streams, unary calls, revocations and every other entry point lock by lock, a stream subscribed for a device, and a
  revocation of that device that has not swept the stream's hub yet. In every later state in which
  \<^verbatim>\<open>RevokeDevice\<close> has returned nil, the stream has ended or its \<^verbatim>\<open>gone\<close> channel is closed; from
  there on it sends at most two more snapshots (its opening one and one already pending), however
  much is published, and whenever it stands at its \<^verbatim>\<open>select\<close> it can end with the revocation error.\<close>
theorem revocation_ends_streams:
  assumes "idle_server s" and "host_runs lb (fresh_host s) c" and "host_runs lb c c'"
    and "k < length (ho_streams c)" and "held (sr_phase (ho_streams c ! k)) = Some (i, a)"
    and "j < length (ho_revs c)" and "rv_dev (ho_revs c ! j) = i"
    and "\<not> swept_yet (sr_req (ho_streams c ! k)) (rv_phase (ho_revs c ! j))"
    and "rv_phase (ho_revs c' ! j) = RvReturned None"
  shows "((\<exists>e. sr_phase (ho_streams c' ! k) = Ended e) \<or> is_gone (sr_req (ho_streams c' ! k)) (ho_srv c') a)
    \<and> (\<forall>c''. host_runs lb c' c'' \<longrightarrow> snapshots (ho_streams c'' ! k) \<le> snapshots (ho_streams c' ! k) + 2)
    \<and> (\<forall>dev w. sr_phase (ho_streams c' ! k) = Watching dev w \<longrightarrow>
         (\<exists>c''. host_runs lb c' c'' \<and> sr_phase (ho_streams c'' ! k) = Ended EndRevoked))"
proof -
  let ?r = "sr_req (ho_streams c ! k)"
  have inv: "host_inv c" by (rule host_runs_inv [OF assms(2) host_inv_start [OF assms(1)]])
  have inv': "host_inv c'" using host_runs_inv [OF assms(3) inv] .
  have "tracked k j ?r i a c" using assms(4-8) by (simp add: tracked_def)
  then have tr: "tracked k j ?r i a c'" using tracked_runs [OF assms(3) inv] by blast
  have sw: "swept_yet ?r (RvReturned None)" by (cases ?r) simp_all
  have k: "k < length (ho_streams c')" and req: "sr_req (ho_streams c' ! k) = ?r" using tr by (simp_all add: tracked_def)
  have eg: "(\<exists>e. sr_phase (ho_streams c' ! k) = Ended e)
      \<or> held (sr_phase (ho_streams c' ! k)) = Some (i, a) \<and> is_gone ?r (ho_srv c') a"
    using tr sw assms(9) unfolding tracked_def by metis
  then have "ended_or_gone k c'" using k req by (auto simp: ended_or_gone_def)
  then have "snapshots (ho_streams c'' ! k) \<le> snapshots (ho_streams c' ! k) + 2" if "host_runs lb c' c''" for c''
    using ended_or_gone_runs [OF that inv'] backlog_bound [of "ho_srv c'" "ho_streams c' ! k"] inv'
    by (force simp: allowance_def host_inv_def)
  moreover have "\<exists>c''. host_runs lb c' c'' \<and> sr_phase (ho_streams c'' ! k) = Ended EndRevoked"
    if w: "sr_phase (ho_streams c' ! k) = Watching dev w" for dev w
    by (rule gone_can_end [OF k w]) (use eg w req in auto)
  moreover have "(\<exists>e. sr_phase (ho_streams c' ! k) = Ended e) \<or> is_gone (sr_req (ho_streams c' ! k)) (ho_srv c') a"
    using eg unfolding req by blast
  ultimately show ?thesis by blast
qed


text \<open>C40: A revocation can miss a stream. Whenever a header passes \<^verbatim>\<open>authorize\<close> for a status stream, there is
  an interleaving in which the device is revoked between that check and \<^verbatim>\<open>subscribe\<close>: \<^verbatim>\<open>RevokeDevice\<close>
  returns nil, the book denies the device everything, and yet its stream is subscribed, its \<^verbatim>\<open>gone\<close>
  channel open, and the hub goes on serving it.\<close>
theorem revocation_can_miss_a_stream:
  assumes "fst (authorize auth CapStatusRead now s) = Reply i"
    and "fst (Revoke (lb_json lb) io i at (s_reg s) (s_disk s)) = None" and "srv_wf s"
  shows "\<exists>c a. host_runs lb (fresh_host s) c \<and> ho_revs c = [\<lparr>rv_dev = i, rv_phase = RvReturned None\<rparr>]
    \<and> (\<forall>cap. Allowed i cap (s_reg (ho_srv c)) \<noteq> None)
    \<and> map sr_phase (ho_streams c) = [Watching i a] \<and> a \<in> set (h_subs (s_hub (ho_srv c)))
    \<and> \<not> is_gone (StatusReq auth) (ho_srv c) a"
proof -
  let ?r = "StatusReq auth"
  let ?t = "\<lparr>sr_req = ?r, sr_phase = Arrived, sr_sent = []\<rparr>"
  define s1 where "s1 = snd (authorize auth CapStatusRead now s)"
  have au: "authorize auth CapStatusRead now s = (Reply i, s1)" using assms(1) by (simp add: s1_def prod_eq_iff)
  have wf1: "srv_wf s1" unfolding s1_def by (rule srv_wf_authorize) (rule assms(3))
  obtain s2 where rv: "RevokeDevice lb io i at s1 = (None, s2)"
    using assms(2) by (cases "RevokeDevice lb io i at s1") (auto simp: RevokeDevice_eq Let_def s1_def split: if_split_asm)
  have gone: "device_gone s2 i" by (rule RevokeDevice_gone [OF wf1 rv])
  obtain a f h where su: "hub_subscribe i (s_hub s2) = ((a, f), h)" by (metis surj_pair)
  define s3 where "s3 = s2\<lparr>s_hub := h\<rparr>"
  have "srv_wf s2" using srv_wf_step [OF wf1, of "SRevoke io i at" lb] rv by simp
  then have fresh: "sub_at ?r s3 a = Some (i, False, 0)"
    using subscribe_fresh(1) [of ?r i False s2 a "Some (SentStatus f)" s3] su by (simp add: s3_def)
  let ?rev = "\<lambda>p. [\<lparr>rv_dev = i, rv_phase = p\<rparr>]"
  have "host_runs lb (fresh_host s) (fresh_host s\<lparr>ho_streams := [?t]\<rparr>)"
    using host_runs.more [OF host_runs.stay host_step.arrives, of lb "fresh_host s" ?r] by (simp add: fresh_host_def)
  from reach_stream [OF this _ stream_step.admitted, of ?t now i s1]
  have "host_runs lb (fresh_host s) (fresh_host s\<lparr>ho_srv := s1, ho_streams := [goes ?t (Authorized i)]\<rparr>)"
    using au by (simp add: fresh_host_def)
  from host_runs.more [OF this host_step.revoke, of i io at]
  have "host_runs lb (fresh_host s) \<lparr>ho_srv = s1, ho_streams = [goes ?t (Authorized i)], ho_calls = [], ho_revs = ?rev (RvTombstone io at)\<rparr>"
    by (simp add: fresh_host_def)
  from reach_revocations [OF this, of i "RvTombstone io at" 4 "RvReturned None" s2]
  have "host_runs lb (fresh_host s) \<lparr>ho_srv = s2, ho_streams = [goes ?t (Authorized i)], ho_calls = [], ho_revs = ?rev (RvReturned None)\<rparr>"
    using revoke_run_RevokeDevice [of lb i io at s1] rv by simp
  from reach_stream [OF this _ stream_step.subscribed, of "goes ?t (Authorized i)" i False a "Some (SentStatus f)" s3]
  have "host_runs lb (fresh_host s) \<lparr>ho_srv = s3, ho_streams = [goes ?t (Opened i a (Some (SentStatus f)))], ho_calls = [],
      ho_revs = ?rev (RvReturned None)\<rparr>"
    using su by (simp add: s3_def)
  from reach_stream [OF this _ stream_step.opens, of "goes ?t (Opened i a (Some (SentStatus f)))" i a "Some (SentStatus f)"]
  have "host_runs lb (fresh_host s) \<lparr>ho_srv = s3, ho_streams = [sends ?t [SentStatus f] (Watching i a)], ho_calls = [],
      ho_revs = ?rev (RvReturned None)\<rparr>"
    by simp
  moreover have "\<forall>cap. Allowed i cap (s_reg s3) \<noteq> None"
    using gone book_bars_Allowed by (simp add: s3_def device_gone_def)
  moreover have "a \<in> set (h_subs (s_hub s3))" using su by (auto simp: s3_def hub_subscribe_def)
  moreover have "\<not> is_gone ?r s3 a" using fresh by (auto simp: is_gone_def)
  ultimately show ?thesis by (intro exI [of _ "\<lparr>ho_srv = s3, ho_streams = [sends ?t [SentStatus f] (Watching i a)], ho_calls = [],
      ho_revs = [\<lparr>rv_dev = i, rv_phase = RvReturned None\<rparr>]\<rparr>"] exI [of _ a]) simp
qed

text \<open>The witnesses: the paired demo server, a status stream of its device, and a revocation.\<close>

lemma demo_paired_idle: "idle_server demo_paired"
  using demo_paired_wf by (simp add: idle_server_def demo_paired_def demo_server_def newHub_def newPaneHub_def watchers_def)

lemma demo_passes: "fst (authorize (bearerPrefix @ ''tok'') CapStatusRead 5 demo_paired) = Reply ''phone''"
  by (rule demo_authorize) (simp_all add: DefaultCapabilities_def)

lemma demo_revocable: "fst (Revoke (lb_json demo_libs) io_ok ''phone'' 50 (s_reg demo_paired) (s_disk demo_paired)) = None"
  by (simp add: Revoke_def demo_paired_def demo_stored_def demo_device_def Revoked_def Let_def
      persistLocked_def demo_libs_def write_rename_def io_ok_def)

theorem revocation_can_miss_a_stream_witness:
  "\<exists>c a. host_runs demo_libs (fresh_host demo_paired) c \<and> ho_revs c = [\<lparr>rv_dev = ''phone'', rv_phase = RvReturned None\<rparr>]
    \<and> map sr_phase (ho_streams c) = [Watching ''phone'' a] \<and> a \<in> set (h_subs (s_hub (ho_srv c)))"
  using revocation_can_miss_a_stream [OF demo_passes demo_revocable demo_paired_wf] by (elim exE conjE, intro exI conjI)


definition demo_watching :: "gotime host" where
  "demo_watching = (let s1 = snd (authorize (bearerPrefix @ ''tok'') CapStatusRead 5 demo_paired);
       s2 = s1\<lparr>s_hub := snd (hub_subscribe ''phone'' (s_hub s1))\<rparr> in
     \<lparr>ho_srv = s2, ho_streams = [\<lparr>sr_req = StatusReq (bearerPrefix @ ''tok''),
        sr_phase = Opened ''phone'' 0 (Some (SentStatus (hub_frame newHub))), sr_sent = []\<rparr>],
      ho_calls = [], ho_revs = [\<lparr>rv_dev = ''phone'', rv_phase = RvTombstone io_ok 50\<rparr>]\<rparr>)"

lemma demo_watching_reached: "host_runs demo_libs (fresh_host demo_paired) demo_watching"
proof -
  let ?r = "StatusReq (bearerPrefix @ ''tok'')"
  let ?t = "\<lparr>sr_req = ?r, sr_phase = Arrived, sr_sent = []\<rparr>"
  let ?s1 = "snd (authorize (bearerPrefix @ ''tok'') CapStatusRead 5 demo_paired)"
  let ?s2 = "?s1\<lparr>s_hub := snd (hub_subscribe ''phone'' (s_hub ?s1))\<rparr>"
  let ?m = "Some (SentStatus (hub_frame newHub))"
  have au: "authorize (bearerPrefix @ ''tok'') CapStatusRead 5 demo_paired = (Reply ''phone'', ?s1)"
    using demo_passes by (simp add: prod_eq_iff)
  have hub: "s_hub demo_paired = newHub" "h_next newHub = 0"
    by (simp_all add: demo_paired_def demo_server_def newHub_def)
  have su: "stream_subscribe ?r ''phone'' False ?s1 = (Reply (0, ?m), ?s2)"
    by (simp add: hub hub_subscribe_def Let_def)
  have r1: "host_runs demo_libs (fresh_host demo_paired) (fresh_host demo_paired\<lparr>ho_streams := [?t]\<rparr>)"
    using host_runs.more [OF host_runs.stay host_step.arrives, of demo_libs "fresh_host demo_paired" ?r]
    by (simp add: fresh_host_def)
  have "host_runs demo_libs (fresh_host demo_paired) (fresh_host demo_paired\<lparr>ho_srv := ?s1, ho_streams := [goes ?t (Authorized ''phone'')]\<rparr>)"
    using reach_stream [OF r1 _ stream_step.admitted, of ?t 5 "''phone''" ?s1] au by (simp add: fresh_host_def)
  from reach_stream [OF this _ stream_step.subscribed, of "goes ?t (Authorized ''phone'')" "''phone''" False 0 ?m ?s2]
  have "host_runs demo_libs (fresh_host demo_paired) (fresh_host demo_paired\<lparr>ho_srv := ?s2, ho_streams := [goes ?t (Opened ''phone'' 0 ?m)]\<rparr>)"
    using su by (simp add: fresh_host_def)
  from host_runs.more [OF this host_step.revoke, of "''phone''" io_ok 50] show ?thesis
    by (simp add: demo_watching_def fresh_host_def Let_def)
qed

theorem revocation_ends_streams_witness:
  "\<exists>c'. host_runs demo_libs demo_watching c' \<and> rv_phase (ho_revs c' ! 0) = RvReturned None
     \<and> is_gone (sr_req (ho_streams c' ! 0)) (ho_srv c') 0"
proof -
  let ?c = demo_watching
  let ?s' = "snd (RevokeDevice demo_libs io_ok ''phone'' 50 (ho_srv ?c))"
  let ?c' = "?c\<lparr>ho_srv := ?s', ho_revs := [\<lparr>rv_dev = ''phone'', rv_phase = RvReturned None\<rparr>]\<rparr>"
  have same: "s_reg (ho_srv ?c) = s_reg demo_paired" "s_disk (ho_srv ?c) = s_disk demo_paired"
    by (simp_all add: demo_watching_def Let_def)
  have rv: "fst (RevokeDevice demo_libs io_ok ''phone'' 50 (ho_srv ?c)) = None"
    using demo_revocable by (simp add: RevokeDevice_eq Let_def same)
  have revs: "ho_revs ?c = [\<lparr>rv_dev = ''phone'', rv_phase = RvTombstone io_ok 50\<rparr>]"
    and strs: "length (ho_streams ?c) = 1" "held (sr_phase (ho_streams ?c ! 0)) = Some (''phone'', 0)"
    "sr_req (ho_streams ?c ! 0) = StatusReq (bearerPrefix @ ''tok'')"
    by (simp_all add: demo_watching_def Let_def)
  have run: "host_runs demo_libs ?c ?c'"
    using reach_revocations [OF host_runs.stay [of demo_libs ?c] revs, of 4 "RvReturned None" ?s'] revoke_run_RevokeDevice [of demo_libs "''phone''" io_ok 50] rv
    by simp
  have k: "0 < length (ho_streams ?c)" "0 < length (ho_revs ?c)" "rv_dev (ho_revs ?c ! 0) = ''phone''"
    "\<not> swept_yet (sr_req (ho_streams ?c ! 0)) (rv_phase (ho_revs ?c ! 0))"
    using strs revs by simp_all
  have ret: "rv_phase (ho_revs ?c' ! 0) = RvReturned None" by simp
  have "(\<exists>e. sr_phase (ho_streams ?c' ! 0) = Ended e) \<or> is_gone (sr_req (ho_streams ?c' ! 0)) (ho_srv ?c') 0"
    using revocation_ends_streams [OF demo_paired_idle demo_watching_reached run k(1) strs(2) k(2-4) ret] by blast
  moreover have "sr_phase (ho_streams ?c' ! 0) = sr_phase (ho_streams ?c ! 0)" by simp
  ultimately have "is_gone (sr_req (ho_streams ?c' ! 0)) (ho_srv ?c') 0" using strs(2) by auto
  then show ?thesis using run ret by blast
qed

end
