(* ===== verification/Crowd.thy ===== *)
theory Crowd
  imports Revocation
begin

text \<open>
  The host of \<open>Streams\<close> as a crowd of threads: unary calls, streams and revocations of
  \<^verbatim>\<open>src/link/server.go\<close> interleave lock by lock. What a revocation, a challenge and a pairing secret are
  worth then, that no handler panics, and that every thread can come to its end.
\<close>

section \<open>What one step of the host does\<close>

text \<open>A step changes the call at an index by one of that call's own steps, or not at all.\<close>

lemma host_step_call:
  assumes "host_step lb c c'" and "k < length (ho_calls c)"
  shows "k < length (ho_calls c')" "fst (ho_calls c' ! k) = fst (ho_calls c ! k)"
    and "snd (ho_calls c' ! k) = snd (ho_calls c ! k)
      \<or> call_next lb (fst (ho_calls c ! k)) (snd (ho_calls c ! k)) (ho_srv c) = (snd (ho_calls c' ! k), ho_srv c')"
  using assms by (cases rule: host_step.cases; auto simp: nth_append nth_list_update)+

lemma host_step_new_call:
  assumes "host_step lb c c'" and "k < length (ho_calls c')" and "\<not> k < length (ho_calls c)"
  shows "snd (ho_calls c' ! k) = Begin"
  using assms by (cases rule: host_step.cases) (auto simp: nth_append)

lemma host_step_new_stream:
  assumes "host_step lb c c'" and "k < length (ho_streams c')" and "\<not> k < length (ho_streams c)"
  shows "sr_phase (ho_streams c' ! k) = Arrived"
  using assms by (cases rule: host_step.cases) (auto simp: nth_append)

lemma host_runs_call:
  "host_runs lb c c' \<Longrightarrow> k < length (ho_calls c) \<Longrightarrow>
   k < length (ho_calls c') \<and> fst (ho_calls c' ! k) = fst (ho_calls c ! k)"
  by (induction rule: host_runs.induct) (auto dest: host_step_call(1,2))

lemma stream_subscribe_same:
  "stream_subscribe r dev fails s = (x, s') \<Longrightarrow> book_of s' = book_of s \<and> s_nonces s' = s_nonces s \<and> s_pairs s' = s_pairs s"
  by (drule subscribe_effect) (auto simp: book_of_def)

lemma stream_recv_same:
  "stream_recv r a s = (x, s') \<Longrightarrow> book_of s' = book_of s \<and> s_nonces s' = s_nonces s \<and> s_pairs s' = s_pairs s"
  by (drule recv_effect) (auto simp: book_of_def)

lemma authorize_same:
  "authorize auth cap now s = (x, s') \<Longrightarrow> book_of s' = book_of s \<and> s_nonces s' = s_nonces s \<and> s_pairs s' = s_pairs s"
  by (metis authorize_keeps(2,3,4,7) book_of_def snd_conv)

text \<open>A stream leaves the book, the challenges and the pairing window alone.\<close>

lemma stream_step_same:
  "stream_step (s, t) (s', t') \<Longrightarrow> book_of s' = book_of s \<and> s_nonces s' = s_nonces s \<and> s_pairs s' = s_pairs s"
proof (erule stream_stepE)
  fix dev a e
  show "s' = stream_unsubscribe (sr_req t) a s \<Longrightarrow> ?thesis"
    by (cases "sr_req t") (simp_all add: book_of_def)
qed (auto dest: stream_subscribe_same stream_recv_same authorize_same)

lemma revoke_next_same:
  "revoke_next lb i p s = (p', s') \<Longrightarrow> s_nonces s' = s_nonces s \<and> s_pairs s' = s_pairs s
    \<and> (book_of s' = book_of s \<or> (\<exists>io now. book_of s' = reg_step (lb_json lb) (OpRevoke io i now) (book_of s)))"
  by (cases p; clarsimp simp: book_of_def split_def Let_def; blast)

lemma host_step_book:
  assumes "host_step lb c c'"
  shows "book_of (ho_srv c') = book_of (ho_srv c)
    \<or> (\<exists>rop. book_of (ho_srv c') = reg_step (lb_json lb) rop (book_of (ho_srv c))
        \<and> (\<forall>i. op_enrols rop i \<longrightarrow> (\<exists>k < length (ho_calls c).
             pairs_as lb i (fst (ho_calls c ! k)) \<and> snd (ho_calls c ! k) = Redeemed)))"
  using assms
proof (cases rule: host_step.cases)
  case (goes_on k s' t')
  then show ?thesis using stream_step_same by simp
next
  case (proceeds k p s')
  then show ?thesis
    using call_next_book [of lb "fst (ho_calls c ! k)" "snd (ho_calls c ! k)" "ho_srv c"] by auto
next
  case (revokes j p s')
  then show ?thesis using revoke_next_same by (metis host.select_convs(1) host.surjective host.update_convs(1,4) op_enrols.simps(4))
next
  case (other op)
  have "\<not> srv_enrols lb op i" for i using other(2) by (cases op) simp_all
  then show ?thesis using other(1) srv_step_book [of lb op "ho_srv c"] by auto
qed simp_all

section \<open>Revocation among threads\<close>

text \<open>The device a thread has been let in as.\<close>

fun acting_for :: "'ts pc \<Rightarrow> string option" where
  "acting_for (Cleared i) = Some i"
| "acting_for (Handed i a) = Some i"
| "acting_for p = None"

fun admitted_as :: "phase \<Rightarrow> string option" where
  "admitted_as (Authorized i) = Some i"
| "admitted_as (Opened i a m) = Some i"
| "admitted_as (Watching i a) = Some i"
| "admitted_as (Returning i a e) = Some i"
| "admitted_as p = None"

lemma call_next_acting:
  "acting_for (fst (call_next lb q p s)) = Some i \<Longrightarrow> acting_for p = Some i \<or> (\<exists>cap. Allowed i cap (s_reg s) = None)"
  by (cases q; cases p) (auto simp: Let_def split_def find_device_def split: option.split_asm bool.split_asm sum.split_asm if_split_asm)

lemma stream_step_admitted:
  assumes "stream_step (s, t) (s', t')" and "admitted_as (sr_phase t') = Some i"
  shows "admitted_as (sr_phase t) = Some i \<or> (\<exists>cap. Allowed i cap (s_reg s) = None)"
  using assms(1)
proof (cases rule: stream_step_split)
  case (admitted now dev)
  have "fst (authorize (req_auth (sr_req t)) (req_cap (sr_req t)) now s) = Reply dev" using admitted(3) by simp
  then show ?thesis using assms(2) admitted unfolding authorize_Reply by auto
qed (use assms(2) in auto)

text \<open>A pairing of the device that could still write the book, or that came in later.\<close>

definition pairing_since :: "'ts libs \<Rightarrow> string \<Rightarrow> 'ts host \<Rightarrow> 'ts host \<Rightarrow> bool" where
  "pairing_since lb i c c' \<longleftrightarrow> (\<exists>k < length (ho_calls c'). pairs_as lb i (fst (ho_calls c' ! k))
     \<and> (k < length (ho_calls c) \<longrightarrow> snd (ho_calls c ! k) \<in> {Begin, Redeemed}))"

lemma call_next_past:
  "p \<notin> {Begin, Redeemed} \<Longrightarrow> fst (call_next lb q p s) \<notin> {Begin, Redeemed}"
  by (cases q; cases p) (auto simp: Let_def split_def split: option.split bool.split sum.split)

lemma host_runs_past:
  "host_runs lb c c' \<Longrightarrow> k < length (ho_calls c) \<Longrightarrow> snd (ho_calls c ! k) \<notin> {Begin, Redeemed} \<Longrightarrow>
   snd (ho_calls c' ! k) \<notin> {Begin, Redeemed}"
proof (induction rule: host_runs.induct)
  case (more c c' c'')
  have k: "k < length (ho_calls c')" using host_runs_call [OF more(1)] more(4) by simp
  show ?case
    using host_step_call(3) [OF more(2) k] more(3) [OF more(4,5)] call_next_past
    by (metis fst_conv)
qed

lemma pairing_since_mono:
  assumes "host_step lb c' c''" and "\<not> pairing_since lb i c c''"
  shows "\<not> pairing_since lb i c c'"
  using assms(2) host_step_call(1,2) [OF assms(1)] unfolding pairing_since_def by metis

lemma bars_step:
  assumes "host_runs lb c c'" and "host_step lb c' c''" and "\<not> pairing_since lb i c c''"
    and "book_bars i (s_reg (ho_srv c'))"
  shows "book_bars i (s_reg (ho_srv c''))"
proof -
  have no: "\<not> (k < length (ho_calls c') \<and> pairs_as lb i (fst (ho_calls c' ! k)) \<and> snd (ho_calls c' ! k) = Redeemed)" for k
  proof
    assume k: "k < length (ho_calls c') \<and> pairs_as lb i (fst (ho_calls c' ! k)) \<and> snd (ho_calls c' ! k) = Redeemed"
    then have "k < length (ho_calls c)" "snd (ho_calls c ! k) \<notin> {Begin, Redeemed}"
      using pairing_since_mono [OF assms(2,3)] unfolding pairing_since_def by auto
    then show False using host_runs_past [OF assms(1)] k by auto
  qed
  show ?thesis using host_step_book [OF assms(2)]
  proof (elim disjE exE conjE)
    fix rop
    assume b: "book_of (ho_srv c'') = reg_step (lb_json lb) rop (book_of (ho_srv c'))"
      and e: "\<forall>i. op_enrols rop i \<longrightarrow> (\<exists>k < length (ho_calls c').
             pairs_as lb i (fst (ho_calls c' ! k)) \<and> snd (ho_calls c' ! k) = Redeemed)"
    have "s_reg (ho_srv c'') = fst (reg_step (lb_json lb) rop (s_reg (ho_srv c'), s_disk (ho_srv c')))"
      using b unfolding book_of_def by (metis fst_conv)
    then show ?thesis using reg_step_book_bars [OF assms(4)] e no by metis
  qed (use assms(4) in \<open>simp add: book_of_def\<close>)
qed

definition nobody_new :: "string \<Rightarrow> 'ts host \<Rightarrow> 'ts host \<Rightarrow> bool" where
  "nobody_new i c c' \<longleftrightarrow>
     (\<forall>k < length (ho_calls c'). acting_for (snd (ho_calls c' ! k)) = Some i \<longrightarrow>
        k < length (ho_calls c) \<and> acting_for (snd (ho_calls c ! k)) = Some i)
   \<and> (\<forall>k < length (ho_streams c'). admitted_as (sr_phase (ho_streams c' ! k)) = Some i \<longrightarrow>
        k < length (ho_streams c) \<and> admitted_as (sr_phase (ho_streams c ! k)) = Some i)"

lemma nobody_new_step:
  assumes "nobody_new i c c'" and "host_step lb c' c''" and "book_bars i (s_reg (ho_srv c'))"
  shows "nobody_new i c c''"
proof -
  have no: "\<not> (\<exists>cap. Allowed i cap (s_reg (ho_srv c')) = None)" using book_bars_Allowed [OF assms(3)] by blast
  have "k < length (ho_calls c') \<and> acting_for (snd (ho_calls c' ! k)) = Some i"
    if k: "k < length (ho_calls c'')" "acting_for (snd (ho_calls c'' ! k)) = Some i" for k
  proof (cases "k < length (ho_calls c')")
    case True
    have "snd (ho_calls c'' ! k) = snd (ho_calls c' ! k)
        \<or> snd (ho_calls c'' ! k) = fst (call_next lb (fst (ho_calls c' ! k)) (snd (ho_calls c' ! k)) (ho_srv c'))"
      using host_step_call(3) [OF assms(2) True] by (metis fst_conv)
    then show ?thesis using True k(2) no call_next_acting [of lb "fst (ho_calls c' ! k)"] by metis
  next
    case False
    then show ?thesis using host_step_new_call [OF assms(2) k(1)] k(2) by simp
  qed
  moreover have "k < length (ho_streams c') \<and> admitted_as (sr_phase (ho_streams c' ! k)) = Some i"
    if k: "k < length (ho_streams c'')" "admitted_as (sr_phase (ho_streams c'' ! k)) = Some i" for k
  proof (cases "k < length (ho_streams c')")
    case True
    then show ?thesis using host_step_stream(2) [OF assms(2) True] k(2) no stream_step_admitted by metis
  next
    case False
    then show ?thesis using host_step_new_stream [OF assms(2) k(1)] k(2) by simp
  qed
  ultimately show ?thesis using assms(1) unfolding nobody_new_def by blast
qed

lemma barred_crowd:
  "host_runs lb c c' \<Longrightarrow> book_bars i (s_reg (ho_srv c)) \<Longrightarrow> \<not> pairing_since lb i c c' \<Longrightarrow>
   book_bars i (s_reg (ho_srv c')) \<and> nobody_new i c c'"
proof (induction rule: host_runs.induct)
  case (stay c)
  then show ?case by (simp add: nobody_new_def)
next
  case (more c c' c'')
  have "book_bars i (s_reg (ho_srv c')) \<and> nobody_new i c c'"
    using more(3) [OF more(4)] pairing_since_mono [OF more(2,5)] by blast
  then show ?case using bars_step [OF more(1,2,5)] nobody_new_step [OF _ more(2)] by blast
qed

section \<open>Counting calls\<close>

definition tally :: "('a \<Rightarrow> bool) \<Rightarrow> 'a list \<Rightarrow> nat" where
  "tally P xs = length (filter P xs)"

lemma tally_append [simp]: "tally P (xs @ ys) = tally P xs + tally P ys"
  by (simp add: tally_def)

lemma tally_Cons [simp]: "tally P (x # xs) = of_bool (P x) + tally P xs" "tally P [] = 0"
  by (simp_all add: tally_def)

lemma tally_update:
  "k < length xs \<Longrightarrow> tally P (xs[k := y]) + of_bool (P (xs ! k)) = tally P xs + of_bool (P y)"
proof (induction xs arbitrary: k)
  case (Cons x xs)
  then show ?case by (cases k) auto
qed simp

text \<open>A right that calls of one kind put into the server (\<open>gives\<close>) or find there (\<open>live\<close>) and calls of
  another kind use up (\<open>takes\<close>), one step at a time. It lies with the challenges or the pairing window.\<close>

locale single_credit =
  fixes lb :: "'ts libs" and live :: "Server \<Rightarrow> bool" and gives takes :: "call \<times> 'ts pc \<Rightarrow> bool"
  assumes credit: "call_next lb q p s = (p', s') \<Longrightarrow>
      of_bool (takes (q, p')) + of_bool (live s') + of_bool (gives (q, p))
        \<le> of_bool (takes (q, p)) + of_bool (live s) + (of_bool (gives (q, p')) :: nat)"
    and none_yet: "\<not> takes (q, Begin)" "\<not> gives (q, Begin)"
    and lies_there: "s_nonces s' = s_nonces s \<Longrightarrow> s_pairs s' = s_pairs s \<Longrightarrow> live s' = live s"
begin

definition spent :: "'ts host \<Rightarrow> nat" where
  "spent c = tally takes (ho_calls c) + of_bool (live (ho_srv c))"

definition given :: "'ts host \<Rightarrow> nat" where
  "given c = tally gives (ho_calls c)"

lemma credit_step:
  assumes "host_step lb c c'"
  shows "spent c' + given c \<le> spent c + given c'
    \<or> ho_calls c' = ho_calls c \<and> (\<exists>op. one_step op \<and> ho_srv c' = srv_step lb op (ho_srv c))"
  using assms
proof (cases rule: host_step.cases)
  case (goes_on k s' t')
  then have "live (ho_srv c') = live (ho_srv c)" using stream_step_same by (intro lies_there) simp_all
  then show ?thesis using goes_on(1) by (simp add: spent_def given_def)
next
  case (calls q)
  then show ?thesis using none_yet by (simp add: spent_def given_def)
next
  case (proceeds k p s')
  let ?x = "ho_calls c ! k" and ?y = "(fst (ho_calls c ! k), p)"
  have "tally takes (ho_calls c') + of_bool (takes ?x) = tally takes (ho_calls c) + of_bool (takes ?y)"
    and "tally gives (ho_calls c') + of_bool (gives ?x) = tally gives (ho_calls c) + of_bool (gives ?y)"
    using proceeds(1) tally_update [OF proceeds(2)] by simp_all
  then show ?thesis using credit [OF proceeds(3)] proceeds(1) by (simp add: spent_def given_def)
next
  case (revokes j p s')
  then have "live (ho_srv c') = live (ho_srv c)" using revoke_next_same by (intro lies_there) (simp_all, blast+)
  then show ?thesis using revokes(1) by (simp add: spent_def given_def)
qed (auto simp: spent_def given_def)

end

section \<open>Challenges among threads\<close>

text \<open>A login that got past the challenge and its signature, and a challenge handed out, with this nonce.\<close>

fun answered :: "bytes \<Rightarrow> call \<times> 'ts pc \<Rightarrow> bool" where
  "answered raw (CallAuthenticate io rnd t1 t2 t3 m, p) = (aq_Nonce m = raw
     \<and> (case p of Consumed d \<Rightarrow> True | Minted d tok e \<Rightarrow> True | Finished a \<Rightarrow> True | _ \<Rightarrow> False))"
| "answered raw (q, p) = False"

fun issued :: "bytes \<Rightarrow> call \<times> 'ts pc \<Rightarrow> bool" where
  "issued raw (CallChallenge rnd now i, p) = (rnd = Some raw \<and> (case p of Finished a \<Rightarrow> True | _ \<Rightarrow> False))"
| "issued raw (q, p) = False"

lemma consume_live:
  "nonce_live (snd (consume n i now ns)) raw \<longleftrightarrow> raw \<noteq> n \<and> nonce_live ns raw"
  "fst (consume n i now ns) \<Longrightarrow> nonce_live ns n"
  by (auto simp: consume_def Let_def nonce_live_def RawURLEncoding_inject split: option.split option.split_asm)

lemma mint_live:
  "nonce_live (snd (nonces_mint i now rnd ns)) raw \<Longrightarrow> nonce_live ns raw \<or> rnd = Some raw"
  by (auto simp: nonces_mint_def nonce_live_def Let_def RawURLEncoding_inject split: option.split_asm if_split_asm
      dest: map_of_filter_Some)

lemma mint_parts:
  "fst (nonces_mint i now rnd ns) = map_option (\<lambda>raw. (raw, now + nonceTTL)) rnd"
  "snd (nonces_mint i now None ns) = ns"
  by (simp_all add: nonces_mint_def Let_def split: option.split)

lemma challenge_credit:
  "call_next lb q p s = (p', s') \<Longrightarrow>
   of_bool (answered raw (q, p')) + of_bool (nonce_live (s_nonces s') raw) + of_bool (issued raw (q, p))
     \<le> of_bool (answered raw (q, p)) + of_bool (nonce_live (s_nonces s) raw) + (of_bool (issued raw (q, p')) :: nat)"
proof (cases q)
  case (CallChallenge rnd now i)
  then show "call_next lb q p s = (p', s') \<Longrightarrow> ?thesis"
    by (cases p; cases rnd)
      (auto simp: find_device_def split_def mint_parts split: option.split_asm dest: mint_live)
next
  case (CallAuthenticate io rnd t1 t2 t3 m)
  then show "call_next lb q p s = (p', s') \<Longrightarrow> ?thesis"
    by (cases p) (auto simp: find_device_def Let_def split_def consume_live split: option.split_asm bool.split_asm if_split_asm)
qed (cases p; auto simp: Let_def split_def split: option.split_asm bool.split_asm sum.split_asm if_split_asm)+

interpretation challenge: single_credit lb "\<lambda>s. nonce_live (s_nonces s) raw" "issued raw" "answered raw"
proof
  fix q and s s' :: Server
  show "\<not> answered raw (q, Begin)" "\<not> issued raw (q, Begin)" by (cases q; simp)+
  show "s_nonces s' = s_nonces s \<Longrightarrow> nonce_live (s_nonces s') raw = nonce_live (s_nonces s) raw" by simp
qed (rule challenge_credit)

lemma one_step_same: "one_step op \<Longrightarrow> s_nonces (srv_step lb op s) = s_nonces s"
  by (cases op) (simp_all add: Publish_snd PublishPane_def split_def Let_def)

lemma challenge_run:
  "host_runs lb c c' \<Longrightarrow> challenge.spent raw c' + challenge.given raw c \<le> challenge.spent raw c + challenge.given raw c'"
proof (induction rule: host_runs.induct)
  case (more c c' c'')
  have "challenge.spent raw c'' + challenge.given raw c' \<le> challenge.spent raw c' + challenge.given raw c''"
    using challenge.credit_step [OF more(2), of raw]
    by (auto simp: challenge.spent_def challenge.given_def one_step_same)
  then show ?case using more(3) by linarith
qed simp

section \<open>Pairing secrets among threads\<close>

text \<open>A pairing that redeemed this secret.\<close>

fun redeemed :: "string \<Rightarrow> call \<times> 'ts pc \<Rightarrow> bool" where
  "redeemed x (CallPair io t1 t2 m, p) = (pq_PairingSecret m = x
     \<and> (case p of Finished a \<Rightarrow> True | _ \<Rightarrow> p \<in> {Redeemed, Added, TokensGone, StreamsGone, PanesGone}))"
| "redeemed x (q, p) = False"

definition on_display :: "string \<Rightarrow> Server \<Rightarrow> bool" where
  "on_display x s \<longleftrightarrow> x \<noteq> [] \<and> pm_secret (s_pairs s) = x"

lemma pairing_credit:
  "call_next lb q p s = (p', s') \<Longrightarrow>
   of_bool (redeemed x (q, p')) + of_bool (on_display x s') + of_bool False
     \<le> of_bool (redeemed x (q, p)) + of_bool (on_display x s) + (of_bool False :: nat)"
proof (cases q)
  case (CallPair io t1 t2 m)
  show "call_next lb q p s = (p', s') \<Longrightarrow> ?thesis"
  proof (cases "p = Begin")
    case True
    then show "call_next lb q p s = (p', s') \<Longrightarrow> ?thesis" using CallPair
      by (auto simp: on_display_def Redeem_def Let_def split_def split: if_split_asm option.split_asm bool.split_asm)
  next
    case False
    then show "call_next lb q p s = (p', s') \<Longrightarrow> ?thesis" using CallPair
      by (cases p) (auto simp: on_display_def Let_def split_def split: option.split_asm)
  qed
qed (cases p; auto simp: on_display_def find_device_def Let_def split_def split: option.split_asm bool.split_asm sum.split_asm if_split_asm)+

interpretation display: single_credit lb "on_display x" "\<lambda>qp. False" "redeemed x"
proof
  fix q and s s' :: Server
  show "\<not> redeemed x (q, Begin)" by (cases q; simp)
  show "s_pairs s' = s_pairs s \<Longrightarrow> on_display x s' = on_display x s" by (simp add: on_display_def)
qed (simp_all only: pairing_credit not_False_eq_True)

text \<open>How often the pairing window came to show a secret in the course of a run.\<close>

inductive display_runs :: "'ts libs \<Rightarrow> string \<Rightarrow> 'ts host \<Rightarrow> nat \<Rightarrow> 'ts host \<Rightarrow> bool" for lb x c0 where
  begins: "display_runs lb x c0 (of_bool (on_display x (ho_srv c0))) c0"
| goes: "display_runs lb x c0 n c \<Longrightarrow> host_step lb c c' \<Longrightarrow>
    display_runs lb x c0 (n + of_bool (on_display x (ho_srv c') \<and> \<not> on_display x (ho_srv c))) c'"

lemma display_exists: "host_runs lb c0 c \<Longrightarrow> \<exists>n. display_runs lb x c0 n c"
  by (induction rule: host_runs.induct) (auto intro: display_runs.intros)

lemma display_spent: "display_runs lb x c0 n c \<Longrightarrow> ho_calls c0 = [] \<Longrightarrow> display.spent x c \<le> n"
proof (induction rule: display_runs.induct)
  case begins
  then show ?case by (simp add: display.spent_def)
next
  case (goes n c c')
  have "display.given c = 0" "display.given c' = 0" by (simp_all add: display.given_def tally_def)
  then consider "display.spent x c' \<le> display.spent x c" | "ho_calls c' = ho_calls c"
    using display.credit_step [OF goes(2), of x] by fastforce
  then have "display.spent x c' \<le> display.spent x c + of_bool (on_display x (ho_srv c') \<and> \<not> on_display x (ho_srv c))"
    by cases (simp, simp add: display.spent_def)
  then show ?case using goes(3) [OF goes(4)] by linarith
qed

section \<open>No handler panics\<close>

text \<open>Every device a handler has looked up has a key of the size \<^verbatim>\<open>ed25519.Verify\<close> insists on.\<close>

fun key_in_hand :: "'ts pc \<Rightarrow> bool" where
  "key_in_hand (Known d) = (length (dv_PublicKey d) = PublicKeySize)"
| "key_in_hand Panicked = False"
| "key_in_hand p = True"

lemma call_next_key:
  assumes "key_in_hand p" and "book_all (\<lambda>i. device_vetted) (s_reg s)"
  shows "key_in_hand (fst (call_next lb q p s))"
proof -
  have v: "length (dv_PublicKey d) = PublicKeySize" if "live_device i s = Some d" for i d
    using that assms(2) by (auto simp: live_device_def Registry_Get_def device_vetted_def
        dest: book_all_D split: option.split_asm if_split_asm)
  show ?thesis
    by (cases q; cases p) (use assms(1) v in \<open>auto simp: find_device_def VerifyAuth_def VerifyPairProof_def
        Device_Key_def ed25519_Verify_def Let_def split_def split: option.split bool.split sum.split\<close>)
qed

definition safe_keys :: "'ts host \<Rightarrow> bool" where
  "safe_keys c \<longleftrightarrow> book_wf (s_reg (ho_srv c)) \<and> book_all (\<lambda>i. device_vetted) (s_reg (ho_srv c))
     \<and> list_all (\<lambda>qp. key_in_hand (snd qp)) (ho_calls c)"

lemma safe_keys_step: "host_step lb c c' \<Longrightarrow> safe_keys c \<Longrightarrow> safe_keys c'"
proof -
  assume st: "host_step lb c c'" and sk: "safe_keys c"
  obtain rop where "s_reg (ho_srv c') = s_reg (ho_srv c)
      \<or> s_reg (ho_srv c') = fst (reg_step (lb_json lb) rop (s_reg (ho_srv c), s_disk (ho_srv c)))"
    using host_step_book [OF st] unfolding book_of_def by (metis fst_conv)
  then have "book_wf (s_reg (ho_srv c'))" "book_all (\<lambda>i. device_vetted) (s_reg (ho_srv c'))"
    using sk book_invariant [of "s_reg (ho_srv c)"] unfolding safe_keys_def by metis+
  moreover have "key_in_hand (snd (ho_calls c' ! k))" if k: "k < length (ho_calls c')" for k
  proof (cases "k < length (ho_calls c)")
    case True
    then have "key_in_hand (snd (ho_calls c ! k))" using sk by (simp add: safe_keys_def list_all_length)
    then show ?thesis
      using host_step_call(3) [OF st True] call_next_key sk unfolding safe_keys_def by (metis fst_conv)
  next
    case False
    then show ?thesis using host_step_new_call [OF st k] by simp
  qed
  ultimately show ?thesis by (simp add: safe_keys_def list_all_length)
qed

lemma safe_keys_runs: "host_runs lb c c' \<Longrightarrow> safe_keys c \<Longrightarrow> safe_keys c'"
  by (induction rule: host_runs.induct) (auto intro: safe_keys_step)

section \<open>Every thread can come to its end\<close>

fun phase_left :: "phase \<Rightarrow> nat" where
  "phase_left Arrived = 5"
| "phase_left (Authorized d) = 4"
| "phase_left (Opened d a m) = 3"
| "phase_left (Watching d a) = 2"
| "phase_left (Returning d a e) = 1"
| "phase_left (Ended e) = 0"

fun rev_left :: "rev_phase \<Rightarrow> nat" where
  "rev_left (RvTombstone io now) = 4"
| "rev_left RvTokens = 3"
| "rev_left RvStatus = 2"
| "rev_left RvPanes = 1"
| "rev_left (RvReturned e) = 0"

definition work_left :: "'ts host \<Rightarrow> nat" where
  "work_left c = (\<Sum>qp \<leftarrow> ho_calls c. steps_left (snd qp)) + (\<Sum>t \<leftarrow> ho_streams c. phase_left (sr_phase t))
     + (\<Sum>r \<leftarrow> ho_revs c. rev_left (rv_phase r))"

definition on_course_all :: "'ts host \<Rightarrow> bool" where
  "on_course_all c \<longleftrightarrow> list_all (\<lambda>(q, p). on_course q p) (ho_calls c)"

lemma on_course_step: "host_step lb c c' \<Longrightarrow> on_course_all c \<Longrightarrow> on_course_all c'"
proof -
  assume st: "host_step lb c c'" and oc: "on_course_all c"
  have "on_course (fst (ho_calls c' ! k)) (snd (ho_calls c' ! k))" if k: "k < length (ho_calls c')" for k
  proof (cases "k < length (ho_calls c)")
    case True
    then have "on_course (fst (ho_calls c ! k)) (snd (ho_calls c ! k))"
      using oc by (simp add: on_course_all_def list_all_length split_def)
    then show ?thesis
      using host_step_call(2,3) [OF st True] call_next_course by (metis fst_conv)
  next
    case False
    then show ?thesis using host_step_new_call [OF st k] by (simp add: on_course_def)
  qed
  then show ?thesis by (simp add: on_course_all_def list_all_length split_def)
qed

lemma on_course_runs: "host_runs lb c c' \<Longrightarrow> on_course_all c \<Longrightarrow> on_course_all c'"
  by (induction rule: host_runs.induct) (auto intro: on_course_step)

lemma sum_left_update:
  fixes f :: "'a \<Rightarrow> nat"
  assumes "k < length xs" and "f y < f (xs ! k)"
  shows "sum_list (map f (xs[k := y])) < sum_list (map f xs)"
  using assms
proof (induction xs arbitrary: k)
  case (Cons x xs)
  then show ?case by (cases k) auto
qed simp

lemma stream_can_go_on:
  assumes "\<And>e. sr_phase t \<noteq> Ended e"
  shows "\<exists>s' t'. stream_step (s, t) (s', t') \<and> phase_left (sr_phase t') < phase_left (sr_phase t)"
proof (cases "sr_phase t")
  case Arrived
  obtain x s' where a: "authorize (req_auth (sr_req t)) (req_cap (sr_req t)) 0 s = (x, s')" by fastforce
  have "x \<noteq> Panics" using a by (auto simp: authorize_def Let_def split: if_split_asm prod.split_asm option.split_asm)
  then show ?thesis using stream_step.refused [OF Arrived] stream_step.admitted [OF Arrived] a Arrived
    by (cases x) fastforce+
next
  case (Authorized dev)
  obtain x s' where a: "stream_subscribe (sr_req t) dev False s = (x, s')" by fastforce
  have "x \<noteq> Panics" using a
    by (cases "sr_req t") (auto simp: Let_def split: if_split_asm prod.split_asm option.split_asm)
  then show ?thesis using stream_step.unserved [OF Authorized] stream_step.subscribed [OF Authorized] a Authorized
    by (cases x) fastforce+
next
  case (Opened dev a m)
  then show ?thesis using stream_step.opens [OF Opened] by fastforce
next
  case (Watching dev a)
  then show ?thesis using stream_step.hung_up [OF Watching] by fastforce
next
  case (Returning dev a e)
  then show ?thesis using stream_step.returns [OF Returning] by fastforce
qed (use assms in blast)

lemma rev_can_go_on: "rev_left p \<noteq> 0 \<Longrightarrow> rev_left (fst (revoke_next lb i p s)) < rev_left p"
  by (cases p) (auto simp: split_def Let_def)

definition at_rest :: "'ts host \<Rightarrow> bool" where
  "at_rest c \<longleftrightarrow> list_all (\<lambda>qp. settled (snd qp)) (ho_calls c) \<and> list_all (\<lambda>t. \<exists>e. sr_phase t = Ended e) (ho_streams c)
     \<and> list_all (\<lambda>r. \<exists>e. rv_phase r = RvReturned e) (ho_revs c)"

definition same_threads :: "'ts host \<Rightarrow> 'ts host \<Rightarrow> bool" where
  "same_threads c c' \<longleftrightarrow> map fst (ho_calls c') = map fst (ho_calls c) \<and> map sr_req (ho_streams c') = map sr_req (ho_streams c)
     \<and> map rv_dev (ho_revs c') = map rv_dev (ho_revs c)"

lemma work_goes_on:
  assumes "on_course_all c" and "\<not> at_rest c"
  shows "\<exists>c'. host_step lb c c' \<and> work_left c' < work_left c \<and> same_threads c c'"
proof -
  consider (call) k where "k < length (ho_calls c)" "\<not> settled (snd (ho_calls c ! k))"
    | (stream) k where "k < length (ho_streams c)" "\<And>e. sr_phase (ho_streams c ! k) \<noteq> Ended e"
    | (rev) k where "k < length (ho_revs c)" "\<And>e. rv_phase (ho_revs c ! k) \<noteq> RvReturned e"
    using assms(2) by (auto simp: at_rest_def list_all_length)
  then show ?thesis
  proof cases
    case call
    let ?q = "fst (ho_calls c ! k)" and ?p = "snd (ho_calls c ! k)"
    obtain p s' where n: "call_next lb ?q ?p (ho_srv c) = (p, s')" by fastforce
    have "on_course ?q ?p" using assms(1) call(1) by (simp add: on_course_all_def list_all_length split_def)
    then have less: "steps_left (snd (?q, p)) < steps_left ?p"
      using call_next_course [of ?q ?p lb "ho_srv c"] call(2) n by simp
    show ?thesis
      using host_step.proceeds [OF call(1) n] sum_left_update [OF call(1), of "\<lambda>qp. steps_left (snd qp)", OF less] call(1)
      by (intro exI conjI) (assumption, simp add: work_left_def, simp add: same_threads_def map_update list_update_same_conv)
  next
    case stream
    obtain s' t' where st: "stream_step (ho_srv c, ho_streams c ! k) (s', t')"
      and less: "phase_left (sr_phase t') < phase_left (sr_phase (ho_streams c ! k))"
      using stream_can_go_on [OF stream(2)] by blast
    show ?thesis
      using host_step.goes_on [OF stream(1) st] sum_left_update [OF stream(1), of "\<lambda>t. phase_left (sr_phase t)", OF less]
        stream(1) stream_step_req [OF st]
      by (intro exI conjI) (assumption, simp add: work_left_def, simp add: same_threads_def map_update list_update_same_conv)
  next
    case rev
    let ?r = "ho_revs c ! k"
    obtain p s' where n: "revoke_next lb (rv_dev ?r) (rv_phase ?r) (ho_srv c) = (p, s')" by fastforce
    have "rev_left (rv_phase ?r) \<noteq> 0" using rev(2) by (cases "rv_phase ?r") auto
    then have less: "rev_left (rv_phase (?r\<lparr>rv_phase := p\<rparr>)) < rev_left (rv_phase ?r)"
      using rev_can_go_on [of "rv_phase ?r" lb "rv_dev ?r" "ho_srv c"] n by simp
    show ?thesis
      using host_step.revokes [OF rev(1) n] sum_left_update [OF rev(1), of "\<lambda>r. rev_left (rv_phase r)", OF less] rev(1)
      by (intro exI conjI) (assumption, simp add: work_left_def, simp add: same_threads_def map_update list_update_same_conv)
  qed
qed

lemma host_runs_trans: "host_runs lb b c \<Longrightarrow> host_runs lb a b \<Longrightarrow> host_runs lb a c"
  by (induction rule: host_runs.induct) (auto intro: host_runs.more)

lemma comes_to_rest:
  "on_course_all c \<Longrightarrow> \<exists>c'. host_runs lb c c' \<and> at_rest c' \<and> same_threads c c'"
proof (induction "work_left c" arbitrary: c rule: less_induct)
  case less
  show ?case
  proof (cases "at_rest c")
    case True
    then show ?thesis using host_runs.stay by (auto simp: same_threads_def)
  next
    case False
    then obtain c1 where c1: "host_step lb c c1" "work_left c1 < work_left c" "same_threads c c1"
      using work_goes_on [OF less(2)] by blast
    then obtain c2 where "host_runs lb c1 c2" "at_rest c2" "same_threads c1 c2"
      using less(1) [OF c1(2) on_course_step [OF c1(1) less(2)]] by blast
    then show ?thesis
      using host_runs_trans [OF _ host_runs.more [OF host_runs.stay c1(1)]] c1(3) by (auto simp: same_threads_def)
  qed
qed

section \<open>Properties\<close>

text \<open>C5: Once the tombstone is written no thread gets in. From the moment \<^verbatim>\<open>RevokeDevice\<close> has put the
  device's tombstone into the book, before it has dropped a single session, and for as long as no
  pairing of the device writes the book again, no header passes \<^verbatim>\<open>authorize\<close> as the device, and
  every unary call and every stream that runs as the device had already been let in at that moment,
  however the threads interleave.\<close>
theorem revocation_shuts_every_thread_out:
  assumes "revoke_next lb i (RvTombstone io at) s = (RvTokens, ho_srv c)"
    and "host_runs lb c c'" and "\<not> pairing_since lb i c c'"
  shows "(\<forall>auth cap now. fst (authorize auth cap now (ho_srv c')) \<noteq> Reply i) \<and> nobody_new i c c'"
proof -
  have "book_bars i (s_reg (ho_srv c))"
    using assms(1) Revoke_bars [of "lb_json lb" io i at "s_reg s" "s_disk s"]
    by (cases "Revoke (lb_json lb) io i at (s_reg s) (s_disk s)") (auto dest!: sym [of _ "ho_srv c"] split: if_split_asm)
  then have b: "book_bars i (s_reg (ho_srv c'))" "nobody_new i c c'" using barred_crowd [OF assms(2)] assms(3) by blast+
  then show ?thesis using book_bars_Allowed [OF b(1)] by (auto simp: authorize_Reply)
qed

text \<open>C9: A challenge is answered once, among any number of concurrent calls. However calls, streams and
  revocations interleave, the \<^verbatim>\<open>Authenticate\<close> calls that got past the challenge and the signature with
  a nonce are at most as many as the \<^verbatim>\<open>Challenge\<close> calls that handed this nonce out (plus one, if it was
  outstanding at the start): two logins never share one challenge.\<close>
theorem challenge_answered_once_among_calls:
  assumes "host_runs lb (fresh_host s) c"
  shows "tally (answered raw) (ho_calls c) \<le> tally (issued raw) (ho_calls c) + of_bool (nonce_live (s_nonces s) raw)"
  using challenge_run [OF assms, of raw]
  by (simp add: challenge.spent_def challenge.given_def fresh_host_def tally_def)

text \<open>C10: A pairing secret opens the door once, among any number of concurrent calls. However calls, streams
  and revocations interleave, the \<^verbatim>\<open>Pair\<close> calls that redeemed a secret are at most as many as the
  times the window came to show it: of two devices that race with one code only one gets in.\<close>
theorem secret_redeemed_once_among_calls:
  assumes "display_runs lb x (fresh_host s) n c"
  shows "tally (redeemed x) (ho_calls c) \<le> n"
  using display_spent [OF assms] by (simp add: fresh_host_def display.spent_def)

text \<open>C24: No request crashes a handler. On a host whose book holds only keys of the right size (as every book
  that \<^verbatim>\<open>Add\<close> has written does), no unary call ever runs into the panic of \<^verbatim>\<open>ed25519.Verify\<close>, whatever
  the requests contain and however they interleave with re-pairings and revocations.\<close>
theorem no_request_crashes_a_handler:
  assumes "host_runs lb (fresh_host s) c" and "book_wf (s_reg s)" and "book_all (\<lambda>i. device_vetted) (s_reg s)"
  shows "(q, Panicked) \<notin> set (ho_calls c)"
proof -
  have "safe_keys c" by (rule safe_keys_runs [OF assms(1)]) (use assms(2,3) in \<open>simp add: safe_keys_def fresh_host_def\<close>)
  then show ?thesis by (auto simp: safe_keys_def list_all_iff)
qed

text \<open>C25: Every thread can come to its end. In every state the host can reach, each unary call that has not
  replied has at most six steps to go and each step it takes brings it closer, whatever the others
  do; and there is a way on in which all calls reply, all streams end and all revocations return,
  without a new thread, after which neither hub serves anybody and no pane source is open.\<close>
theorem every_thread_can_finish:
  assumes "idle_server s" and "host_runs lb (fresh_host s) c"
  shows "(\<forall>(q, p) \<in> set (ho_calls c). steps_left p \<le> 6 \<and> (\<not> settled p \<longrightarrow>
        (\<forall>s'. steps_left (fst (call_next lb q p s')) < steps_left p)))
    \<and> (\<exists>c'. host_runs lb c c' \<and> at_rest c' \<and> same_threads c c'
        \<and> h_subs (s_hub (ho_srv c')) = [] \<and> (\<forall>x. \<not> is_open (s_paneHub (ho_srv c')) x))"
proof -
  have oc: "on_course_all c"
    by (rule on_course_runs [OF assms(2)]) (simp add: on_course_all_def fresh_host_def)
  obtain c' where c': "host_runs lb c c'" "at_rest c'" "same_threads c c'" using comes_to_rest [OF oc] by blast
  have "host_inv c'" by (rule host_runs_inv [OF host_runs_trans [OF c'(1) assms(2)] host_inv_start [OF assms(1)]])
  then have "h_subs (s_hub (ho_srv c')) = [] \<and> (\<forall>x. \<not> is_open (s_paneHub (ho_srv c')) x)"
    by (rule ended_leave_nothing) (use c'(2) in \<open>simp add: at_rest_def\<close>)
  moreover have "steps_left p \<le> 6" for p :: "'a pc" by (cases p) simp_all
  ultimately show ?thesis using c' oc call_next_course unfolding on_course_all_def list_all_iff by blast
qed

section \<open>Witnesses\<close>

lemma reach_call:
  "host_runs lb c0 c \<Longrightarrow> ho_calls c = [(q, p)] \<Longrightarrow> call_run lb q n (p, ho_srv c) = (p', s') \<Longrightarrow>
   host_runs lb c0 (c\<lparr>ho_srv := s', ho_calls := [(q, p')]\<rparr>)"
proof (induction n arbitrary: c p)
  case 0
  then have "c\<lparr>ho_srv := s', ho_calls := [(q, p')]\<rparr> = c" by (cases c) simp
  then show ?case using 0(1) by (simp only:)
next
  case (Suc n)
  obtain p1 s1 where n: "call_next lb q p (ho_srv c) = (p1, s1)" by fastforce
  let ?c = "c\<lparr>ho_srv := s1, ho_calls := [(q, p1)]\<rparr>"
  have "host_runs lb c0 ?c"
    using host_runs.more [OF Suc(2) host_step.proceeds [of 0 c lb p1 s1]] Suc(3) n by simp
  from Suc(1) [OF this] show ?case using Suc(4) n by simp
qed

text \<open>What \<open>revocation_shuts_every_thread_out\<close> leaves open: a command that is past \<^verbatim>\<open>authorize\<close> when its device
  is revoked still reaches the executor after \<^verbatim>\<open>RevokeDevice\<close> has returned nil.\<close>

theorem cleared_command_outlives_revocation:
  fixes m :: SubmitCommandRequest
  assumes "fst (authorize auth CapAgentCommand now s) = Reply i"
    and "ValidCommand (kindFromProto (cq_Kind m)) (cq_SessionId m) (cq_Workspace m) (cq_Prompt m) at = Inr cmd"
    and "fst (Revoke (lb_json lb) io i rv (s_reg s) (s_disk s)) = None"
  shows "\<exists>c1 c2. host_runs lb (fresh_host s) c1 \<and> ho_revs c1 = [\<lparr>rv_dev = i, rv_phase = RvReturned None\<rparr>]
    \<and> s_exec (ho_srv c1) = s_exec s \<and> host_runs lb c1 c2 \<and> s_exec (ho_srv c2) = s_exec s @ [CallExecute cmd]"
proof -
  let ?q = "CallSubmitCommand io out now at now auth m"
  define s1 where "s1 = snd (authorize auth CapAgentCommand now s)"
  have au: "authorize auth CapAgentCommand now s = (Reply i, s1)" using assms(1) by (simp add: s1_def prod_eq_iff)
  have two: "call_run lb ?q 2 (Begin, s) = (Cleared i, s1)"
    using au by (auto simp: authorize_def Let_def eval_nat_numeral split: prod.split_asm if_split_asm option.split_asm)
  obtain s2 where rv: "RevokeDevice lb io i rv s1 = (None, s2)"
    using assms(3) by (cases "RevokeDevice lb io i rv s1") (auto simp: RevokeDevice_eq Let_def s1_def split: if_split_asm)
  have "s_exec s2 = s_exec s" using rv by (auto simp: RevokeDevice_eq Let_def s1_def split: if_split_asm)
  have "host_runs lb (fresh_host s) ((fresh_host s)\<lparr>ho_calls := [(?q, Begin)]\<rparr>)"
    using host_runs.more [OF host_runs.stay host_step.calls, of lb "fresh_host s" ?q] by (simp add: fresh_host_def)
  from reach_call [OF this, of ?q Begin 2 "Cleared i" s1]
  have "host_runs lb (fresh_host s) ((fresh_host s)\<lparr>ho_srv := s1, ho_calls := [(?q, Cleared i)]\<rparr>)"
    using two by (simp add: fresh_host_def)
  from host_runs.more [OF this host_step.revoke, of i io rv]
  have "host_runs lb (fresh_host s) \<lparr>ho_srv = s1, ho_streams = [], ho_calls = [(?q, Cleared i)],
      ho_revs = [\<lparr>rv_dev = i, rv_phase = RvTombstone io rv\<rparr>]\<rparr>"
    by (simp add: fresh_host_def)
  from reach_revocations [OF this, of i "RvTombstone io rv" 4 "RvReturned None" s2]
  have r: "host_runs lb (fresh_host s) \<lparr>ho_srv = s2, ho_streams = [], ho_calls = [(?q, Cleared i)],
      ho_revs = [\<lparr>rv_dev = i, rv_phase = RvReturned None\<rparr>]\<rparr>"
    using revoke_run_RevokeDevice [of lb i io rv s1] rv by simp
  let ?c1 = "\<lparr>ho_srv = s2, ho_streams = [], ho_calls = [(?q, Cleared i)],
      ho_revs = [\<lparr>rv_dev = i, rv_phase = RvReturned None\<rparr>]\<rparr>"
  obtain p s3 where n: "call_run lb ?q 1 (Cleared i, s2) = (p, s3)" "s_exec s3 = s_exec s2 @ [CallExecute cmd]"
    using assms(2) by simp
  have "host_runs lb ?c1 (?c1\<lparr>ho_srv := s3, ho_calls := [(?q, p)]\<rparr>)"
    by (rule reach_call [where n = 1 and p = "Cleared i"]) (rule host_runs.stay, simp, simp only: n(1) host.select_convs)
  then show ?thesis using r n(2) \<open>s_exec s2 = s_exec s\<close>
    by (intro exI [of _ ?c1] exI [of _ "?c1\<lparr>ho_srv := s3, ho_calls := [(?q, p)]\<rparr>"]) simp
qed

text \<open>One call, from its arrival to its reply.\<close>

definition one_call :: "'ts libs \<Rightarrow> call \<Rightarrow> Server \<Rightarrow> 'ts host" where
  "one_call lb q s = (fresh_host s)\<lparr>ho_srv := snd (handled lb q s), ho_calls := [(q, fst (handled lb q s))]\<rparr>"

lemma one_call_reached: "host_runs lb (fresh_host s) (one_call lb q s)"
proof -
  have r: "host_runs lb (fresh_host s) ((fresh_host s)\<lparr>ho_calls := [(q, Begin)]\<rparr>)"
    using host_runs.more [OF host_runs.stay host_step.calls, of lb "fresh_host s" q] by (simp add: fresh_host_def)
  have "call_run lb q 6 (Begin, ho_srv ((fresh_host s)\<lparr>ho_calls := [(q, Begin)]\<rparr>)) = (fst (handled lb q s), snd (handled lb q s))"
    by (simp add: call_run_handled fresh_host_def)
  from reach_call [OF r _ this] show ?thesis by (simp add: one_call_def fresh_host_def)
qed

text \<open>The paired device asks for a challenge.\<close>

lemma demo_live: "live_device ''phone'' demo_paired = Some (demo_stored\<lparr>dv_Capabilities := DefaultCapabilities\<rparr>)"
  by (simp add: live_device_def Registry_Get_def demo_paired_def demo_stored_def demo_device_def Revoked_def)

theorem challenge_answered_once_among_calls_witness:
  "ho_calls (one_call demo_libs (CallChallenge (Some ''nn'') 0 ''phone'') demo_paired) \<noteq> []
   \<and> tally (answered ''nn'') (ho_calls (one_call demo_libs (CallChallenge (Some ''nn'') 0 ''phone'') demo_paired)) \<le> 1"
proof -
  let ?q = "CallChallenge (Some ''nn'') 0 ''phone''"
  have "tally (issued ''nn'') (ho_calls (one_call demo_libs ?q demo_paired)) \<le> 1"
    by (simp add: one_call_def)
  moreover have "\<not> nonce_live (s_nonces demo_paired) ''nn''"
    by (simp add: demo_paired_def demo_server_def newNonces_def nonce_live_def)
  ultimately show ?thesis
    using challenge_answered_once_among_calls [OF one_call_reached [of demo_libs demo_paired ?q], of "''nn''"]
    by (simp add: one_call_def)
qed

text \<open>A device pairs with the secret on display.\<close>

lemma demo_pairs:
  "\<exists>a. fst (handled demo_libs (CallPair io_ok 50 60 (demo_pair_request [CapStatusRead])) demo_server) = Finished a"
proof -
  let ?m = "demo_pair_request [CapStatusRead]"
  have l: "length demo_devseed = 32" by (simp add: demo_devseed_def)
  have k: "keep_known [CapStatusRead] \<noteq> []" by (simp add: keep_known_def KnownCapability_def)
  have w: "OpenNow 50 (s_pairs demo_server) \<and> pq_PairingSecret ?m = pm_secret (s_pairs demo_server)"
    by (simp add: OpenNow_def demo_server_def demo_pair_request_def)
  have reg: "s_reg demo_server = \<lparr>r_path = ''dev.json'', r_devices = []\<rparr>" "s_disk demo_server = Map.empty"
    by (simp_all add: demo_server_def)
  have "fst (Registry_Add (lb_json demo_libs) io_ok (requested_device demo_libs ?m 60) (s_reg demo_server)
      (s_disk demo_server)) = None"
    unfolding reg by (subst demo_Add) (simp_all add: requested_device_def demo_pair_request_def k l)
  then obtain r d where "Registry_Add (lb_json demo_libs) io_ok (requested_device demo_libs ?m 60) (s_reg demo_server)
      (s_disk demo_server) = (None, r, d)"
    by (metis prod_cases3 fst_conv)
  from Pair_admitted(2) [OF demo_pair_verified w this]
  obtain x where "fst (Pair demo_libs io_ok 50 60 ?m demo_server) = Reply x" by blast
  then show ?thesis by (cases "Pair demo_libs io_ok 50 60 ?m demo_server") simp
qed

theorem secret_redeemed_once_among_calls_witness:
  "\<exists>n. display_runs demo_libs ''sec'' (fresh_host demo_server) n
        (one_call demo_libs (CallPair io_ok 50 60 (demo_pair_request [CapStatusRead])) demo_server) \<and> 1 \<le> n"
proof -
  let ?q = "CallPair io_ok 50 60 (demo_pair_request [CapStatusRead])"
  obtain n where n: "display_runs demo_libs ''sec'' (fresh_host demo_server) n (one_call demo_libs ?q demo_server)"
    using display_exists [OF one_call_reached] by blast
  obtain a where "fst (handled demo_libs ?q demo_server) = Finished a" using demo_pairs by blast
  then have "tally (redeemed ''sec'') (ho_calls (one_call demo_libs ?q demo_server)) = 1"
    by (simp add: one_call_def demo_pair_request_def)
  then show ?thesis using secret_redeemed_once_among_calls [OF n] n by auto
qed

theorem no_request_crashes_a_handler_witness:
  "Panicked \<notin> snd ` set (ho_calls (one_call demo_libs (CallPair io_ok 50 60 (demo_pair_request [CapStatusRead])) demo_server))"
proof -
  have "book_wf (s_reg demo_server)" "book_all (\<lambda>i. device_vetted) (s_reg demo_server)"
    by (simp_all add: demo_server_def book_wf_def book_all_def)
  from no_request_crashes_a_handler [OF one_call_reached [of demo_libs] this] show ?thesis by auto
qed

theorem every_thread_can_finish_witness:
  "\<exists>c'. host_runs demo_libs demo_watching c' \<and> at_rest c' \<and> same_threads demo_watching c'
     \<and> h_subs (s_hub (ho_srv c')) = []"
  using every_thread_can_finish [OF demo_paired_idle demo_watching_reached] by blast

text \<open>The device's session comes in while the revocation stands between the tombstone and the sweep.\<close>

definition demo_tombstoned :: "gotime host" where
  "demo_tombstoned = (fresh_host (snd (revoke_next demo_libs ''phone'' (RvTombstone io_ok 50) demo_paired)))
     \<lparr>ho_calls := [(CallStatus 60 (bearerPrefix @ ''tok''), Begin)], ho_revs := [\<lparr>rv_dev = ''phone'', rv_phase = RvTokens\<rparr>]\<rparr>"

theorem revocation_shuts_every_thread_out_witness:
  "\<exists>c'. host_runs demo_libs demo_tombstoned c' \<and> snd (ho_calls c' ! 0) = Resolved ''phone''
     \<and> nobody_new ''phone'' demo_tombstoned c'"
proof -
  let ?q = "CallStatus 60 (bearerPrefix @ ''tok'')"
  have "s_tokens (ho_srv demo_tombstoned) = s_tokens demo_paired"
    by (simp add: demo_tombstoned_def fresh_host_def split_def Let_def)
  then have s: "resolve ''tok'' 60 (s_tokens (ho_srv demo_tombstoned)) = (''phone'', s_tokens (ho_srv demo_tombstoned))"
    by (simp add: resolve_def demo_paired_def)
  have "fst (revoke_next demo_libs ''phone'' (RvTombstone io_ok 50) demo_paired) = RvTokens"
    using demo_revocable by (simp add: split_def Let_def)
  then have t: "revoke_next demo_libs ''phone'' (RvTombstone io_ok 50) demo_paired = (RvTokens, ho_srv demo_tombstoned)"
    by (simp add: demo_tombstoned_def fresh_host_def prod_eq_iff)
  have n: "call_next demo_libs ?q Begin (ho_srv demo_tombstoned) = (Resolved ''phone'', ho_srv demo_tombstoned)"
    by (simp add: s)
  let ?c' = "demo_tombstoned\<lparr>ho_srv := ho_srv demo_tombstoned, ho_calls := [(?q, Resolved ''phone'')]\<rparr>"
  have qs: "ho_calls demo_tombstoned = [(?q, Begin)]" by (simp add: demo_tombstoned_def)
  have r: "host_runs demo_libs demo_tombstoned ?c'"
    by (rule reach_call [OF host_runs.stay qs, of _ 1]) (simp only: One_nat_def call_run.simps n)
  have "\<not> pairing_since demo_libs ''phone'' demo_tombstoned ?c'" by (simp add: pairing_since_def)
  then show ?thesis using revocation_shuts_every_thread_out [OF t r] r by auto
qed

end
