(* ===== verification/Service.thy ===== *)
theory Service
  imports Enrolment
begin

text \<open>
  The session surface over whole runs of the server of \<open>LinkMachine\<close>: which calls ever reach the
  embedding host's executor, and what a status read returns after a publication. Also the
  clipping of the display strings a device supplies about itself.
\<close>

section \<open>What reaches the executor\<close>

text \<open>The call an operation makes to the executor in a state, if it makes one.\<close>

definition gate_open :: "string \<Rightarrow> string \<Rightarrow> gotime \<Rightarrow> Server \<Rightarrow> bool" where
  "gate_open auth capability now s \<longleftrightarrow> (\<exists>tok d v. auth = bearerPrefix @ tok
     \<and> map_of (tk_sessions (s_tokens s)) tok = Some v \<and> now < ss_expires v
     \<and> live_device (ss_deviceID v) s = Some d \<and> capability \<in> set (dv_Capabilities d))"

lemma authorize_gate: "fst (authorize auth c now s) = Reply i \<Longrightarrow> gate_open auth c now s"
proof -
  assume a: "fst (authorize auth c now s) = Reply i"
  then obtain tok where tok: "auth = bearerPrefix @ tok" "fst (resolve tok now (s_tokens s)) = i" "i \<noteq> []"
    "Allowed i c (s_reg s) = None" by (auto simp: authorize_Reply)
  then obtain v where v: "map_of (tk_sessions (s_tokens s)) tok = Some v" "now < ss_expires v" "ss_deviceID v = i"
    by (auto simp: resolve_def split: option.split_asm if_split_asm)
  from tok(4) obtain d where "live_device i s = Some d" "c \<in> set (dv_Capabilities d)"
    by (auto simp: Allowed_def live_device_def Registry_Get_def split: option.split_asm if_split_asm)
  then show ?thesis using tok(1) v unfolding gate_open_def by blast
qed

fun call_made :: "srv_op \<Rightarrow> Server \<Rightarrow> exec_call list" where
  "call_made (SSubmitAnswer io out t1 at t2 auth m) s =
     (case (fst (authorize auth CapAgentAnswer t1 s), ValidAnswer (nq_AskId m) (nq_Text m) at) of
        (Reply i, Inr a) \<Rightarrow> [CallAnswer a] | _ \<Rightarrow> [])"
| "call_made (SSubmitCommand io out t1 at t2 auth m) s =
     (case (fst (authorize auth CapAgentCommand t1 s),
            ValidCommand (kindFromProto (cq_Kind m)) (cq_SessionId m) (cq_Workspace m) (cq_Prompt m) at) of
        (Reply i, Inr c) \<Rightarrow> [CallExecute c] | _ \<Rightarrow> [])"
| "call_made op s = []"

lemma srv_step_exec: "s_exec (srv_step lb op s) = s_exec s @ call_made op s"
  by (cases op) (simp_all add: handler_effects PublishPane_def Let_def
      split: prod.split reply.split sum.split option.split)

text \<open>Who asked, and what for.\<close>

definition vetted_call :: "srv_op \<Rightarrow> Server \<Rightarrow> exec_call \<Rightarrow> bool" where
  "vetted_call op s call \<longleftrightarrow>
     (case call of
        CallAnswer a \<Rightarrow> \<exists>io out t1 at t2 auth m. op = SSubmitAnswer io out t1 at t2 auth m
          \<and> gate_open auth CapAgentAnswer t1 s \<and> ValidAnswer (nq_AskId m) (nq_Text m) at = Inr a
      | CallExecute c \<Rightarrow> command_ok c \<and> (\<exists>io out t1 at t2 auth m. op = SSubmitCommand io out t1 at t2 auth m
          \<and> gate_open auth CapAgentCommand t1 s
          \<and> ValidCommand (kindFromProto (cq_Kind m)) (cq_SessionId m) (cq_Workspace m) (cq_Prompt m) at = Inr c))"

lemma call_made_vetted: "call \<in> set (call_made op s) \<Longrightarrow> call_made op s = [call] \<and> vetted_call op s call"
  by (cases op) (auto simp: vetted_call_def authorize_gate ValidCommand_command_ok
      dest!: sym [of "Reply _"] sym [of "Inr _"] split: reply.split_asm sum.split_asm)

lemma exec_calls_come_from:
  assumes "call \<in> set (drop (length (s_exec s)) (s_exec (fold (srv_step lb) ops s)))"
  shows "\<exists>before op after. ops = before @ op # after \<and> vetted_call op (fold (srv_step lb) before s) call"
  using assms
proof (induction ops rule: rev_induct)
  case (snoc op ops)
  let ?s = "fold (srv_step lb) ops s"
  have len: "length (s_exec s) \<le> length (s_exec ?s)"
    by (induction ops rule: rev_induct) (auto simp: srv_step_exec)
  have "call \<in> set (drop (length (s_exec s)) (s_exec ?s)) \<or> call \<in> set (call_made op ?s)"
    using snoc.prems len by (auto simp: srv_step_exec)
  then show ?case
  proof
    assume "call \<in> set (drop (length (s_exec s)) (s_exec ?s))"
    then obtain before o' after where "ops = before @ o' # after" "vetted_call o' (fold (srv_step lb) before s) call"
      using snoc.IH by blast
    then show ?thesis by (intro exI [of _ before] exI [of _ o'] exI [of _ "after @ [op]"]) simp
  next
    assume "call \<in> set (call_made op ?s)"
    then show ?thesis using call_made_vetted
      by (intro exI [of _ ops] exI [of _ op] exI [of _ "[]"]) simp
  qed
qed simp

section \<open>What a status read returns\<close>

fun publishes :: "srv_op \<Rightarrow> bool" where
  "publishes (SPublish st now) = True"
| "publishes (SStatusStream (HPublish st at)) = True"
| "publishes op = False"

definition hub_truth :: "hub \<Rightarrow> Status \<times> gotime \<times> u64" where
  "hub_truth h = (h_current h, h_at h, h_seq h)"

lemma hub_truth_ops [simp]:
  "hub_truth (snd (hub_subscribe d h)) = hub_truth h" "hub_truth (hub_unsubscribe a h) = hub_truth h"
  "hub_truth (hub_dropDevice d h) = hub_truth h" "hub_truth (snd (hub_recv a h)) = hub_truth h"
  by (simp_all add: hub_truth_def hub_subscribe_def hub_unsubscribe_def hub_dropDevice_def hub_recv_eq Let_def)

lemma srv_step_truth: "\<not> publishes op \<Longrightarrow> hub_truth (s_hub (srv_step lb op s)) = hub_truth (s_hub s)"
proof (cases op)
  case (SStatusStream hop)
  then show "\<not> publishes op \<Longrightarrow> ?thesis" by (cases hop) simp_all
qed (simp_all add: handler_effects PublishPane_def Let_def split: prod.split reply.split sum.split option.split)

lemma run_truth: "list_all (\<lambda>op. \<not> publishes op) ops \<Longrightarrow> hub_truth (s_hub (fold (srv_step lb) ops s)) = hub_truth (s_hub s)"
  by (induction ops arbitrary: s) (simp_all add: srv_step_truth)

lemma GetStatus_truth:
  "GetStatus lb now auth s = (Reply x, s') \<Longrightarrow>
   (gx_Status x, gx_Seq x) = (case hub_truth (s_hub s) of (cur, at, q) \<Rightarrow> (statusToProto (lb_new lb) cur at, q))"
  by (auto simp: GetStatus_def map_reply_state_Reply Let_def hub_truth_def hub_snapshot_def)

section \<open>Properties\<close>

text \<open>C17: The executor only ever sees vetted calls. Whatever sequence of operations the server has
  gone through, every call it has made to the executor stems from one \<^verbatim>\<open>SubmitAnswer\<close> or
  \<^verbatim>\<open>SubmitCommand\<close> in that sequence, whose bearer token at that moment was an unexpired session of
  a paired, unrevoked device holding the capability the method needs, and the call carries exactly
  what the validator made of the request: a command always satisfies the projection's rules.\<close>
theorem executor_sees_vetted_calls:
  assumes "call \<in> set (s_exec (fold (srv_step lb) ops s))" and "s_exec s = []"
  shows "\<exists>before op after. ops = before @ op # after \<and> vetted_call op (fold (srv_step lb) before s) call"
  by (rule exec_calls_come_from) (use assms in simp)

theorem executor_sees_vetted_calls_witness:
  "\<exists>before op after. [SSubmitAnswer io_ok \<lparr>oc_Disposition = Delivered, oc_Note = []\<rparr> 5 6 7 (bearerPrefix @ ''tok'')
       \<lparr>nq_AskId = ''a1'', nq_Text = ''yes''\<rparr>] = before @ op # after
     \<and> vetted_call op (fold (srv_step demo_libs) before demo_paired)
         (CallAnswer \<lparr>ans_AskID = ''a1'', ans_Text = ''yes'', ans_At = 6\<rparr>)"
proof -
  let ?op = "SSubmitAnswer io_ok \<lparr>oc_Disposition = Delivered, oc_Note = []\<rparr> 5 6 7 (bearerPrefix @ ''tok'')
    \<lparr>nq_AskId = ''a1'', nq_Text = ''yes''\<rparr>"
  have v: "ValidAnswer ''a1'' ''yes'' 6 = Inr \<lparr>ans_AskID = ''a1'', ans_Text = ''yes'', ans_At = 6\<rparr>" by code_simp
  have a: "fst (authorize (bearerPrefix @ ''tok'') CapAgentAnswer 5 demo_paired) = Reply ''phone''"
    by (rule demo_authorize) (simp_all add: DefaultCapabilities_def)
  have e: "s_exec demo_paired = []" by (simp add: demo_paired_def demo_server_def)
  have "CallAnswer \<lparr>ans_AskID = ''a1'', ans_Text = ''yes'', ans_At = 6\<rparr>
      \<in> set (s_exec (fold (srv_step demo_libs) [?op] demo_paired))"
    using srv_step_exec [of demo_libs ?op demo_paired] a v by simp
  then show ?thesis by (rule executor_sees_vetted_calls) (rule e)
qed

text \<open>C18: The status a device reads is the last one published. However the server runs on after a
  \<^verbatim>\<open>Publish\<close>, as long as nothing newer is published, an answered \<^verbatim>\<open>GetStatus\<close> carries the number
  \<^verbatim>\<open>Publish\<close> returned and, decoded, the published snapshot under the host's own id, clamped and
  as the wire keeps it.\<close>
theorem published_status_is_served:
  assumes "\<And>t. asTime (lb_new lb t) = t" and "Publish lb st at s = (q, s1)"
    and "list_all (\<lambda>op. \<not> publishes op) ops"
    and "GetStatus lb now auth (fold (srv_step lb) ops s1) = (Reply x, s2)"
  defines "st' \<equiv> st\<lparr>st_HostID := HostID (lb_crypto lb) (s_id s)\<rparr>"
  shows "gx_Seq x = q \<and> q = h_seq (s_hub s) + 1
    \<and> statusFromProto asTime (Some (gx_Status x)) = wired_Status (Status_Clamp st')"
proof -
  have "hub_truth (s_hub s1) = (Status_Clamp st', at, q)" "q = h_seq (s_hub s) + 1"
    using assms(2) by (auto simp: Publish_def hub_publish_def hub_truth_def st'_def Let_def)
  moreover from this have "(gx_Status x, gx_Seq x) = (statusToProto (lb_new lb) (Status_Clamp st') at, q)"
    using GetStatus_truth [OF assms(4)] run_truth [OF assms(3), of lb s1] by simp
  ultimately show ?thesis using status_roundtrip [where asTime = asTime and new = "lb_new lb", OF assms(1)] by simp
qed

theorem published_status_is_served_witness:
  "\<exists>x. fst (GetStatus demo_libs 20 (bearerPrefix @ ''tok'') (snd (Publish demo_libs zero_Status 10 demo_paired))) = Reply x
     \<and> gx_Seq x = 1"
proof -
  let ?s = "snd (Publish demo_libs zero_Status 10 demo_paired)"
  have p: "Publish demo_libs zero_Status 10 demo_paired = (1, ?s)"
    by (simp add: Publish_def hub_publish_def Let_def demo_paired_def demo_server_def newHub_def)
  have eq: "\<And>t. id (lb_new demo_libs t) = t" by (simp add: demo_libs_def)
  have same: "?s = demo_paired\<lparr>s_hub := s_hub ?s\<rparr>" by (simp add: Publish_snd)
  have "fst (authorize (bearerPrefix @ ''tok'') CapStatusRead 20 (demo_paired\<lparr>s_hub := h\<rparr>)) = Reply ''phone''" for h
    using demo_authorize [of 20 CapStatusRead] by (simp add: DefaultCapabilities_def authorize_bearer)
  then have "fst (authorize (bearerPrefix @ ''tok'') CapStatusRead 20 ?s) = Reply ''phone''"
    by (subst same)
  then obtain x s2 where g: "GetStatus demo_libs 20 (bearerPrefix @ ''tok'') ?s = (Reply x, s2)"
    by (cases "authorize (bearerPrefix @ ''tok'') CapStatusRead 20 ?s") (auto simp: GetStatus_def Let_def hub_snapshot_def)
  have "gx_Seq x = 1"
    using published_status_is_served [where asTime = id and lb = demo_libs and ops = "[]", OF eq p] g by simp
  then show ?thesis using g by simp
qed

text \<open>\<^verbatim>\<open>clipDisplay\<close>, with its own loop, is the projection's \<^verbatim>\<open>clip\<close> at 200 bytes: the names a device
  gives itself are cut to at most 200 bytes, to a prefix, and never inside a character of
  well-formed UTF-8.\<close>
theorem clipDisplay_is_clip:
  "clipDisplay x = clip x 200 \<and> length (clipDisplay x) \<le> 200 \<and> prefix (clipDisplay x) x
   \<and> (valid_utf8 x \<longrightarrow> valid_utf8 (clipDisplay x))"
  using clip_length [of x 200] clip_prefix [of x 200] clip_valid_utf8 [of x 200] by (simp add: clipDisplay_eq)


theorem clipDisplay_is_clip_witness:
  "valid_utf8 (clipDisplay (replicate 300 (CHR ''x''))) \<and> length (clipDisplay (replicate 300 (CHR ''x''))) \<le> 200"
  using clipDisplay_is_clip [of "replicate 300 (CHR ''x'')"] valid_utf8_ascii [of "replicate 300 (CHR ''x'')"]
  by (auto simp: list_all_iff)

end
