(* ===== verification/Rights.thy ===== *)
theory Rights
  imports Registry
begin

text \<open>
  What the paired-device book promises, without keys, names, times or files: a partial map from
  device ids to the capabilities a live device holds (an unknown and a revoked device are both
  absent). The registry of \<^verbatim>\<open>src/registry/registry.go\<close> refines it operation by operation, whatever
  the file system does in the meantime.
\<close>

section \<open>The abstract book\<close>

type_synonym rights = "string \<Rightarrow> string set option"

definition known_of :: "string list \<Rightarrow> string set" where
  "known_of caps = {c \<in> set caps. KnownCapability c}"

fun rights_step :: "reg_op \<Rightarrow> rights \<Rightarrow> rights" where
  "rights_step (OpAdd io dev) R =
     (if length (dv_PublicKey dev) = PublicKeySize \<and> known_of (dv_Capabilities dev) \<noteq> {}
      then R(dv_ID dev := (if Revoked dev then None else Some (known_of (dv_Capabilities dev))))
      else R)"
| "rights_step (OpSetCapabilities io i caps) R = R(i := map_option (\<lambda>_. known_of caps) (R i))"
| "rights_step (OpTouch io i at) R = R"
| "rights_step (OpRevoke io i at) R = R(i := None)"

definition rights_allow :: "string \<Rightarrow> string \<Rightarrow> rights \<Rightarrow> bool" where
  "rights_allow i c R \<longleftrightarrow> (case R i of None \<Rightarrow> False | Some caps \<Rightarrow> c \<in> caps)"

section \<open>The book refines it\<close>

definition rights_of :: "Registry \<Rightarrow> rights" where
  "rights_of r = (\<lambda>i. case map_of (r_devices r) i of None \<Rightarrow> None
     | Some dev \<Rightarrow> if Revoked dev then None else Some (set (dv_Capabilities dev)))"

lemma set_keep_known_of: "set (keep_known caps) = known_of caps"
  by (simp add: set_keep_known known_of_def)

lemma keep_known_length: "length (keep_known caps) = 0 \<longleftrightarrow> known_of caps = {}"
  using set_keep_known_of [of caps] by auto

lemma rights_of_step: "rights_of (fst (reg_step rj op (r, d))) = rights_step op (rights_of r)"
proof (cases op)
  case (OpAdd io dev)
  have k: "(keep_known (dv_Capabilities dev) = []) = (known_of (dv_Capabilities dev) = {})"
    using keep_known_length [of "dv_Capabilities dev"] by simp
  show ?thesis
    using OpAdd k by (auto simp: Registry_Add_def Let_def rights_of_def Revoked_def set_keep_known_of
        split: prod.split)
next
  case (OpSetCapabilities io i caps)
  then show ?thesis
    by (auto simp: SetCapabilities_def Let_def rights_of_def Revoked_def set_keep_known_of
        split: option.split prod.split)
next
  case (OpTouch io i at)
  then show ?thesis
    by (auto simp: Touch_def Let_def rights_of_def Revoked_def split: option.split prod.split)
next
  case (OpRevoke io i at)
  then show ?thesis
    by (auto simp: Revoke_def Let_def rights_of_def Revoked_def split: option.split prod.split)
qed

lemma rights_of_run: "rights_of (fst (fold (reg_step rj) ops (r, d))) = fold rights_step ops (rights_of r)"
proof (induction ops arbitrary: r d)
  case (Cons op ops)
  show ?case
    using Cons.IH [of "fst (reg_step rj op (r, d))" "snd (reg_step rj op (r, d))"] rights_of_step [of rj op r d]
    by simp
qed simp

lemma Allowed_rights: "Allowed i c r = None \<longleftrightarrow> rights_allow i c (rights_of r)"
  by (auto simp: Allowed_def rights_allow_def rights_of_def split: option.split)

section \<open>Property\<close>

text \<open>The registry refines the abstract book of rights. Over any sequence of its operations, with
  whatever file-system outcomes, what \<^verbatim>\<open>Allowed\<close> answers is what the abstract book answers after the
  abstract operations: a vetted \<^verbatim>\<open>Add\<close> sets a device's rights to the known capabilities asked for,
  \<^verbatim>\<open>SetCapabilities\<close> replaces those of a live device and cannot bring back a revoked one, \<^verbatim>\<open>Revoke\<close>
  removes them, \<^verbatim>\<open>Touch\<close> changes nothing, and no operation touches another device.\<close>
theorem registry_refines_rights:
  "(Allowed i c (fst (fold (reg_step rj) ops (r, d))) = None)
     = rights_allow i c (fold rights_step ops (rights_of r))
   \<and> rights_of (fst (fold (reg_step rj) ops (r, d))) = fold rights_step ops (rights_of r)"
  by (simp add: rights_of_run Allowed_rights)

end
