(* ===== verification/Gate.thy ===== *)
theory Gate
  imports Service Rights
begin

text \<open>
  What the link server of \<^verbatim>\<open>src/link/server.go\<close> promises about access, without keys, nonces, hubs, files
  or wire: who holds which capabilities, and which session token stands for whom until when. The
  whole server refines this gate, entry point by entry point, and \<^verbatim>\<open>authorize\<close> answers as the gate does.
\<close>

section \<open>The abstract gate\<close>

record gate =
  ga_rights :: rights
  ga_sessions :: "string \<Rightarrow> (string \<times> gotime) option"

datatype gate_event =
    Enrols string "string set"
  | Grants string "string set"
  | Bars string
  | EndsSessions string
  | LogsIn string string gotime
  | Tries string gotime

fun gate_next :: "gate_event \<Rightarrow> gate \<Rightarrow> gate" where
  "gate_next (Enrols i caps) g = g\<lparr>ga_rights := (ga_rights g)(i := Some caps)\<rparr>"
| "gate_next (Grants i caps) g = g\<lparr>ga_rights := (ga_rights g)(i := map_option (\<lambda>_. caps) (ga_rights g i))\<rparr>"
| "gate_next (Bars i) g = g\<lparr>ga_rights := (ga_rights g)(i := None)\<rparr>"
| "gate_next (EndsSessions i) g = g\<lparr>ga_sessions := (\<lambda>tok. case ga_sessions g tok of None \<Rightarrow> None
     | Some (j, e) \<Rightarrow> if j = i then None else Some (j, e))\<rparr>"
| "gate_next (LogsIn i tok e) g = g\<lparr>ga_sessions := (ga_sessions g)(tok := Some (i, e))\<rparr>"
| "gate_next (Tries tok now) g = (case ga_sessions g tok of None \<Rightarrow> g
     | Some (i, e) \<Rightarrow> if now < e then g else g\<lparr>ga_sessions := (ga_sessions g)(tok := None)\<rparr>)"

definition gate_admits :: "gate \<Rightarrow> string \<Rightarrow> string \<Rightarrow> gotime \<Rightarrow> string \<Rightarrow> bool" where
  "gate_admits g auth c now i \<longleftrightarrow> i \<noteq> [] \<and> prefix bearerPrefix auth
     \<and> (case ga_sessions g (drop (length bearerPrefix) auth) of None \<Rightarrow> False
        | Some (j, e) \<Rightarrow> j = i \<and> now < e) \<and> rights_allow i c (ga_rights g)"

section \<open>The server as a gate\<close>

definition gate_of :: "Server \<Rightarrow> gate" where
  "gate_of s = \<lparr>ga_rights = rights_of (s_reg s),
     ga_sessions = (\<lambda>tok. map_option (\<lambda>v. (ss_deviceID v, ss_expires v)) (map_of (tk_sessions (s_tokens s)) tok))\<rparr>"

text \<open>The header an operation presents to \<^verbatim>\<open>authorize\<close>, and when.\<close>

fun presents :: "srv_op \<Rightarrow> (string \<times> gotime) option" where
  "presents (SGetStatus now auth) = Some (auth, now)"
| "presents (SGetDigest now auth sid) = Some (auth, now)"
| "presents (SWatchStatus now auth) = Some (auth, now)"
| "presents (SWatchPane fails now auth sid) = Some (auth, now)"
| "presents (SSubmitAnswer io out t1 at t2 auth m) = Some (auth, t1)"
| "presents (SSubmitCommand io out t1 at t2 auth m) = Some (auth, t1)"
| "presents op = None"

text \<open>What an operation means to the gate, given what it answers. A pairing refused because the book
  could not be written has enrolled the device in memory all the same.\<close>

fun gate_events :: "'ts libs \<Rightarrow> srv_op \<Rightarrow> Server \<Rightarrow> gate_event list" where
  "gate_events lb (SRevoke io i now) s =
     Bars i # (if fst (RevokeDevice lb io i now s) = None then [EndsSessions i] else [])"
| "gate_events lb (SSetCapabilities io i caps) s = [Grants i (known_of caps)]"
| "gate_events lb (SPair io t1 t2 m) s =
     (case fst (Pair lb io t1 t2 m s) of
        Reply x \<Rightarrow> [Enrols (px_DeviceId x) (set (px_GrantedCapabilities x)), EndsSessions (px_DeviceId x)]
      | Fail c (RegCause (PersistFailed e)) \<Rightarrow> [Enrols (DeviceIDFor (lb_crypto lb) (pq_DevicePublicKey m))
          (known_of (dv_Capabilities (requested_device lb m t2)))]
      | _ \<Rightarrow> [])"
| "gate_events lb (SAuthenticate io rnd t1 t2 t3 m) s =
     (case fst (Authenticate lb io rnd t1 t2 t3 m s) of
        Reply x \<Rightarrow> [LogsIn (aq_DeviceId m) (ax_SessionToken x) (t2 + tokenTTL)] | _ \<Rightarrow> [])"
| "gate_events lb op s =
     (case presents op of
        Some (auth, now) \<Rightarrow> if prefix bearerPrefix auth then [Tries (drop (length bearerPrefix) auth) now] else []
      | None \<Rightarrow> [])"

section \<open>Refinement\<close>

lemma gate_of_eqI:
  "rights_of (s_reg s') = ga_rights g \<Longrightarrow>
   (\<And>tok. map_option (\<lambda>v. (ss_deviceID v, ss_expires v)) (map_of (tk_sessions (s_tokens s')) tok) = ga_sessions g tok) \<Longrightarrow>
   gate_of s' = g"
  by (cases g) (auto simp: gate_of_def)

lemma gate_of_simps [simp]:
  "ga_rights (gate_of s) = rights_of (s_reg s)"
  "ga_sessions (gate_of s) tok = map_option (\<lambda>v. (ss_deviceID v, ss_expires v)) (map_of (tk_sessions (s_tokens s)) tok)"
  by (simp_all add: gate_of_def)

lemma gate_admits_iff: "fst (authorize auth c now s) = Reply i \<longleftrightarrow> gate_admits (gate_of s) auth c now i"
proof (cases "prefix bearerPrefix auth")
  case True
  then obtain tok where "auth = bearerPrefix @ tok" by (auto simp: prefix_def)
  then show ?thesis
    by (auto simp: authorize_bearer gate_admits_def Allowed_rights resolve_def split: option.split)
qed (auto simp: authorize_Reply gate_admits_def)

lemma Add_outcome:
  assumes "Registry_Add rj io dev r d = (e, r', d')"
  shows "(e = None \<or> (\<exists>x. e = Some (PersistFailed x)))
      \<longleftrightarrow> length (dv_PublicKey dev) = PublicKeySize \<and> known_of (dv_Capabilities dev) \<noteq> {}"
    and "rights_of r' = rights_step (OpAdd io dev) (rights_of r)"
proof -
  have p: "e = None \<or> (\<exists>x. e = Some (PersistFailed x))" if "persistLocked rj io r d = (e, d')" for r d'
    using that by (auto elim: persistLocked_cases)
  show "(e = None \<or> (\<exists>x. e = Some (PersistFailed x)))
      \<longleftrightarrow> length (dv_PublicKey dev) = PublicKeySize \<and> known_of (dv_Capabilities dev) \<noteq> {}"
    using assms p keep_known_length [of "dv_Capabilities dev"]
    by (auto simp: Registry_Add_def Let_def split: if_split_asm prod.split_asm)
  show "rights_of r' = rights_step (OpAdd io dev) (rights_of r)"
    using rights_of_step [of rj "OpAdd io dev" r d] assms by simp
qed

lemma sessions_dropDevice:
  "tokens_wf t \<Longrightarrow> map_option (\<lambda>v. (ss_deviceID v, ss_expires v)) (map_of (tk_sessions (dropDevice i t)) tok)
    = (case map_option (\<lambda>v. (ss_deviceID v, ss_expires v)) (map_of (tk_sessions t) tok) of None \<Rightarrow> None
       | Some (j, e) \<Rightarrow> if j = i then None else Some (j, e))"
  by (simp add: map_of_dropDevice split: option.split)

lemma gate_of_authorize:
  "gate_of (snd (authorize auth c now s)) =
     (if prefix bearerPrefix auth then gate_next (Tries (drop (length bearerPrefix) auth) now) (gate_of s) else gate_of s)"
  by (rule gate_of_eqI) (auto simp: authorize_snd resolve_def map_of_delete split: option.split)

text \<open>A pairing request, by how far it gets.\<close>

lemma Pair_gate:
  assumes "srv_wf s"
  shows "gate_of (snd (Pair lb io t1 t2 m s)) = fold gate_next (gate_events lb (SPair io t1 t2 m) s) (gate_of s)"
proof (cases "pair_verified lb m s \<and> OpenNow t1 (s_pairs s) \<and> pq_PairingSecret m = pm_secret (s_pairs s)")
  case False
  then have "snd (Pair lb io t1 t2 m s) = s" using Pair_unverified(1) Pair_refused by (metis snd_conv)
  moreover have "gate_events lb (SPair io t1 t2 m) s = []"
  proof (cases "pair_verified lb m s")
    case True
    then show ?thesis using False Pair_refused [OF True] by simp
  next
    case False
    then show ?thesis
      by (auto simp: Pair_def pair_verified_def split: option.split bool.split)
  qed
  ultimately show ?thesis by simp
next
  case True
  let ?d = "requested_device lb m t2" and ?i = "DeviceIDFor (lb_crypto lb) (pq_DevicePublicKey m)"
  obtain e r dsk where add: "Registry_Add (lb_json lb) io ?d (s_reg s) (s_disk s) = (e, r, dsk)" by (rule prod_cases3)
  have v: "pair_verified lb m s"
    and w: "OpenNow t1 (s_pairs s) \<and> pq_PairingSecret m = pm_secret (s_pairs s)" using True by simp_all
  note p = Pair_admitted [OF v w add] and o = Add_outcome [OF add]
  have d: "dv_ID ?d = ?i" "\<not> Revoked ?d" by (simp_all add: requested_device_def Revoked_def)
  show ?thesis
  proof (cases e)
    case None
    then obtain x where x: "fst (Pair lb io t1 t2 m s) = Reply x" using p(2) by auto
    have "Registry_Get ?i r = Some (?d\<lparr>dv_Capabilities := keep_known (dv_Capabilities ?d)\<rparr>)"
      using Add_done add None d(1) by metis
    then have "px_DeviceId x = ?i" "set (px_GrantedCapabilities x) = known_of (dv_Capabilities ?d)"
      using p(3) [OF x] by (simp_all add: set_keep_known_of)
    then show ?thesis
      using p(1) None x o d assms
      by (intro gate_of_eqI) (simp_all add: sessions_dropDevice srv_wf_def)
  next
    case (Some err)
    have ev: "fst (Pair lb io t1 t2 m s) = Fail CodeInvalidArgument (RegCause err)"
      using v w add Some Redeem_pairs [of "pq_PairingSecret m" t1 "s_pairs s"]
      by (cases "Redeem (pq_PairingSecret m) t1 (s_pairs s)") (simp add: Pair_def pair_verified_def Let_def)
    have st: "snd (Pair lb io t1 t2 m s) = s\<lparr>s_pairs := (s_pairs s)\<lparr>pm_secret := []\<rparr>, s_reg := r, s_disk := dsk\<rparr>"
      using p(1) Some by simp
    show ?thesis
    proof (cases "\<exists>x. err = PersistFailed x")
      case True
      then show ?thesis using ev st o d Some by (intro gate_of_eqI) auto
    next
      case False
      then have "gate_events lb (SPair io t1 t2 m) s = []" using ev by (cases err) auto
      then show ?thesis using False st o Some by (intro gate_of_eqI) auto
    qed
  qed
qed

lemma Authenticate_gate:
  assumes "srv_wf s"
  shows "gate_of (snd (Authenticate lb io rnd t1 t2 t3 m s))
    = fold gate_next (gate_events lb (SAuthenticate io rnd t1 t2 t3 m) s) (gate_of s)"
proof (cases "Authenticate lb io rnd t1 t2 t3 m s")
  case (Pair r s')
  show ?thesis
  proof (cases "\<exists>x. r = Reply x")
    case True
    then obtain x where a: "Authenticate lb io rnd t1 t2 t3 m s = (Reply x, s')" using Pair by auto
    obtain d v raw where d: "live_device (aq_DeviceId m) s = Some d" and raw: "rnd = Some raw"
      and x: "ax_SessionToken x = RawURLEncoding_EncodeToString raw"
      by (rule Authenticate_Reply [OF a])
    have id: "dv_ID d = aq_DeviceId m" using live_device_ID [OF assms d] by simp
    note st = Authenticate_state [OF a [unfolded raw] d]
    have "rights_of (s_reg s') = rights_of (s_reg s)"
    proof -
      have "s_reg s' = s_reg s \<or> (\<exists>i. s_reg s' = fst (reg_step (lb_json lb) (OpTouch io i t3) (s_reg s, s_disk s)))"
        using Authenticate_snd [of lb io rnd t1 t2 t3 m s] a d by (auto simp: Let_def split: if_split_asm)
      then show ?thesis using rights_of_step [of "lb_json lb" "OpTouch io _ t3"] by auto
    qed
    then show ?thesis using a st(1) x id by (intro gate_of_eqI) (auto simp: tokens_mint_def Let_def)
  next
    case False
    then have "s_tokens s' = s_tokens s \<and> s_reg s' = s_reg s" using Authenticate_refused [OF Pair] by simp
    moreover have "gate_events lb (SAuthenticate io rnd t1 t2 t3 m) s = []"
      using False Pair by (cases r) auto
    ultimately show ?thesis using Pair by (intro gate_of_eqI) auto
  qed
qed

lemma gate_of_updates [simp]:
  "gate_of (s\<lparr>s_hub := h\<rparr>) = gate_of s" "gate_of (s\<lparr>s_paneHub := p\<rparr>) = gate_of s"
  "gate_of (s\<lparr>s_exec := x\<rparr>) = gate_of s" "gate_of (s\<lparr>s_nonces := n\<rparr>) = gate_of s"
  "gate_of (s\<lparr>s_pairs := w\<rparr>) = gate_of s"
  by (simp_all add: gate_of_def)

lemma gate_of_touch [simp]: "gate_of (reg_does lb (OpTouch io i at) s) = gate_of s"
  using rights_of_step [of "lb_json lb" "OpTouch io i at" "s_reg s" "s_disk s"] by (simp add: gate_of_def)

lemma Revoke_gate:
  assumes "srv_wf s"
  shows "gate_of (snd (RevokeDevice lb io i now s)) = fold gate_next (gate_events lb (SRevoke io i now) s) (gate_of s)"
proof -
  have "rights_of (fst (reg_step (lb_json lb) (OpRevoke io i now) (s_reg s, s_disk s))) = (rights_of (s_reg s))(i := None)"
    by (simp add: rights_of_step del: reg_step.simps)
  then show ?thesis using assms
    by (intro gate_of_eqI) (auto simp: RevokeDevice_eq Let_def sessions_dropDevice srv_wf_def simp del: reg_step.simps)
qed

lemma gate_step:
  assumes "srv_wf s"
  shows "gate_of (srv_step lb op s) = fold gate_next (gate_events lb op s) (gate_of s)"
proof (cases op)
  case (SRevoke io i now)
  then show ?thesis using Revoke_gate [OF assms] by (simp only: srv_step.simps)
next
  case (SPair io t1 t2 m)
  then show ?thesis using Pair_gate [OF assms] by (simp only: srv_step.simps)
next
  case (SAuthenticate io rnd t1 t2 t3 m)
  then show ?thesis using Authenticate_gate [OF assms] by (simp only: srv_step.simps)
next
  case (SSetCapabilities io i caps)
  have "rights_of (fst (reg_step (lb_json lb) (OpSetCapabilities io i caps) (s_reg s, s_disk s)))
      = (rights_of (s_reg s))(i := map_option (\<lambda>_. known_of caps) (rights_of (s_reg s) i))"
    by (simp add: rights_of_step del: reg_step.simps)
  then show ?thesis using SSetCapabilities
    by (cases "SetCapabilities (lb_json lb) io i caps (s_reg s) (s_disk s)") (simp add: gate_of_def)
next
  case (SPublish st now)
  then show ?thesis by (simp add: Publish_snd)
next
  case (SPublishPane sid f)
  then show ?thesis by (simp add: PublishPane_def)
next
  case (SChallenge rnd now i)
  then show ?thesis by (simp add: Challenge_snd split: option.split)
qed (simp_all add: handler_effects Let_def gate_of_authorize split: reply.split sum.split)

fun gate_trace :: "'ts libs \<Rightarrow> srv_op list \<Rightarrow> Server \<Rightarrow> gate_event list" where
  "gate_trace lb [] s = []"
| "gate_trace lb (op # ops) s = gate_events lb op s @ gate_trace lb ops (srv_step lb op s)"

lemma gate_run:
  "srv_wf s \<Longrightarrow> list_all stream_op ops \<Longrightarrow>
   gate_of (fold (srv_step lb) ops s) = fold gate_next (gate_trace lb ops s) (gate_of s)"
  by (induction ops arbitrary: s) (simp_all add: gate_step wf_intros)

section \<open>Property\<close>

text \<open>C2: The server refines the access gate. Whatever sequence of host calls, RPCs and stream steps it
  runs through, with whatever clocks, random bytes and disk failures, its rights and sessions are those
  of the gate after the events those operations amount to, and a bearer header gets past \<^verbatim>\<open>authorize\<close> for a
  capability, as a device, exactly when the gate admits it: nothing else in the server's state matters.\<close>
theorem server_refines_gate:
  fixes lb :: "'ts libs"
  assumes "srv_wf s" and "list_all stream_op ops"
  defines "g \<equiv> fold gate_next (gate_trace lb ops s) (gate_of s)"
  shows "gate_of (fold (srv_step lb) ops s) = g
    \<and> (fst (authorize auth c now (fold (srv_step lb) ops s)) = Reply i \<longleftrightarrow> gate_admits g auth c now i)"
  using gate_run [OF assms(1,2), of lb] by (simp add: g_def gate_admits_iff)

theorem server_refines_gate_witness:
  "gate_admits (fold gate_next (gate_trace demo_libs [SChallenge (Some ''nn'') 5 ''phone''] demo_paired) (gate_of demo_paired))
     (bearerPrefix @ ''tok'') CapStatusRead 20 ''phone''"
proof -
  let ?ops = "[SChallenge (Some ''nn'') 5 ''phone'']"
  have o: "list_all stream_op ?ops" by simp
  have "fst (authorize (bearerPrefix @ ''tok'') CapStatusRead 20 (demo_paired\<lparr>s_nonces := n\<rparr>)) = Reply ''phone''" for n
    using demo_authorize [of 20 CapStatusRead] by (simp add: DefaultCapabilities_def authorize_bearer)
  moreover have "\<exists>n. fold (srv_step demo_libs) ?ops demo_paired = demo_paired\<lparr>s_nonces := n\<rparr>"
    by (auto simp: Challenge_snd intro: exI [of _ "s_nonces demo_paired"] split: option.split)
  ultimately show ?thesis
    using server_refines_gate [OF demo_paired_wf o, of demo_libs "bearerPrefix @ ''tok''" CapStatusRead 20 "''phone''"] by metis
qed

end
