(* ===== verification/ThreadGate.thy ===== *)
theory ThreadGate
  imports Crowd Gate
begin

text \<open>
  The access gate of \<open>Gate\<close> under the threads of \<open>Streams\<close>: every step of any thread of
  \<^verbatim>\<open>src/link/server.go\<close> is one event of the gate or none, and each kind of event has one place in the
  code it can come from.
\<close>

section \<open>Who may cause what\<close>

fun session_header :: "call \<Rightarrow> (string \<times> gotime) option" where
  "session_header (CallStatus now auth) = Some (auth, now)"
| "session_header (CallDigest now auth sid) = Some (auth, now)"
| "session_header (CallSubmitAnswer io out t1 at t2 auth m) = Some (auth, t1)"
| "session_header (CallSubmitCommand io out t1 at t2 auth m) = Some (auth, t1)"
| "session_header q = None"

fun call_accounts :: "'ts libs \<Rightarrow> call \<Rightarrow> 'ts pc \<Rightarrow> gate_event \<Rightarrow> bool" where
  "call_accounts lb q p (Enrols i caps) = (p = Redeemed \<and> (\<exists>io t1 t2 m. q = CallPair io t1 t2 m
     \<and> i = DeviceIDFor (lb_crypto lb) (pq_DevicePublicKey m)
     \<and> caps = known_of (dv_Capabilities (requested_device lb m t2))))"
| "call_accounts lb q p (EndsSessions i) = (p = Added \<and> pairs_as lb i q)"
| "call_accounts lb q p (LogsIn i tok e) = (\<exists>d io raw t1 t2 t3 m. p = Consumed d \<and> dv_ID d = i
     \<and> q = CallAuthenticate io (Some raw) t1 t2 t3 m
     \<and> tok = RawURLEncoding_EncodeToString raw \<and> e = t2 + tokenTTL)"
| "call_accounts lb q p (Tries tok now) = (p = Begin \<and> session_header q = Some (bearerPrefix @ tok, now))"
| "call_accounts lb q p ev = False"

fun rev_accounts :: "revocation \<Rightarrow> gate_event \<Rightarrow> bool" where
  "rev_accounts r (Bars i) = (rv_dev r = i \<and> (\<exists>io now. rv_phase r = RvTombstone io now))"
| "rev_accounts r (EndsSessions i) = (rv_dev r = i \<and> rv_phase r = RvTokens)"
| "rev_accounts r ev = False"

fun stream_accounts :: "stream \<Rightarrow> gate_event \<Rightarrow> bool" where
  "stream_accounts t (Tries tok now) = (sr_phase t = Arrived \<and> req_auth (sr_req t) = bearerPrefix @ tok)"
| "stream_accounts t ev = False"

definition caused :: "'ts host \<Rightarrow> 'ts libs \<Rightarrow> gate_event \<Rightarrow> bool" where
  "caused c lb ev \<longleftrightarrow> (\<exists>(q, p) \<in> set (ho_calls c). call_accounts lb q p ev)
     \<or> (\<exists>r \<in> set (ho_revs c). rev_accounts r ev) \<or> (\<exists>t \<in> set (ho_streams c). stream_accounts t ev)
     \<or> (\<exists>i caps. ev = Grants i caps)"

definition gate_moves :: "(gate_event \<Rightarrow> bool) \<Rightarrow> Server \<Rightarrow> Server \<Rightarrow> bool" where
  "gate_moves P s s' \<longleftrightarrow> gate_of s' = gate_of s \<or> (\<exists>ev. P ev \<and> gate_of s' = gate_next ev (gate_of s))"

lemma gate_moves_same: "gate_of s' = gate_of s \<Longrightarrow> gate_moves P s s'"
  by (simp add: gate_moves_def)

lemma gate_moves_ev: "gate_of s' = gate_next ev (gate_of s) \<Longrightarrow> P ev \<Longrightarrow> gate_moves P s s'"
  by (auto simp: gate_moves_def)

lemma gate_moves_mono: "gate_moves P s s' \<Longrightarrow> (\<And>ev. P ev \<Longrightarrow> Q ev) \<Longrightarrow> gate_moves Q s s'"
  by (auto simp: gate_moves_def)

lemma gate_of_parts: "s_reg s' = s_reg s \<Longrightarrow> s_tokens s' = s_tokens s \<Longrightarrow> gate_of s' = gate_of s"
  by (simp add: gate_of_def)

section \<open>One step of a call\<close>

lemma gate_of_resolve:
  "gate_of (s\<lparr>s_tokens := snd (resolve tok now (s_tokens s))\<rparr>) = gate_next (Tries tok now) (gate_of s)"
  by (rule gate_of_eqI) (auto simp: resolve_def map_of_delete split: option.split)

lemma authorize_next_gate:
  "gate_moves (\<lambda>ev. p = Begin \<and> (\<exists>tok. auth = bearerPrefix @ tok \<and> ev = Tries tok now)) s
     (snd (authorize_next auth cap now p s))"
proof (cases "p = Begin \<and> prefix bearerPrefix auth")
  case True
  then obtain tok where tok: "auth = bearerPrefix @ tok" by (auto simp: prefix_def)
  have "snd (authorize_next auth cap now p s) = s\<lparr>s_tokens := snd (resolve tok now (s_tokens s))\<rparr>"
    using True tok by (simp add: split_def Let_def)
  then show ?thesis using gate_of_resolve True tok by (intro gate_moves_ev) auto
next
  case False
  then have "snd (authorize_next auth cap now p s) = s" by (cases p) auto
  then show ?thesis by (simp add: gate_moves_same)
qed

lemma gate_of_Touch:
  "gate_of (s\<lparr>s_reg := fst (Touch rj io i at (s_reg s) (s_disk s)), s_disk := d\<rparr>) = gate_of s"
  using rights_of_step [of rj "OpTouch io i at" "s_reg s" "s_disk s"] by (simp add: gate_of_def)

lemma pair_next_gate:
  assumes "tokens_wf (s_tokens s)"
  shows "gate_moves (call_accounts lb (CallPair io t1 t2 m) p) s (snd (pair_next lb io t1 t2 m p s))"
proof (cases p)
  case Redeemed
  let ?d = "requested_device lb m t2"
  obtain e r dsk where add: "Registry_Add (lb_json lb) io ?d (s_reg s) (s_disk s) = (e, r, dsk)" by (rule prod_cases3)
  have s': "snd (pair_next lb io t1 t2 m p s) = s\<lparr>s_reg := r, s_disk := dsk\<rparr>" using Redeemed add by simp
  have d: "\<not> Revoked ?d" "dv_ID ?d = DeviceIDFor (lb_crypto lb) (pq_DevicePublicKey m)"
    by (simp_all add: requested_device_def Revoked_def)
  note o = Add_outcome(2) [OF add]
  show ?thesis
  proof (cases "length (dv_PublicKey ?d) = PublicKeySize \<and> known_of (dv_Capabilities ?d) \<noteq> {}")
    case True
    have "gate_of (snd (pair_next lb io t1 t2 m p s))
        = gate_next (Enrols (dv_ID ?d) (known_of (dv_Capabilities ?d))) (gate_of s)"
      unfolding s' using o d(1) True by (intro gate_of_eqI) simp_all
    then show ?thesis by (rule gate_moves_ev) (use Redeemed d(2) in simp)
  next
    case False
    then show ?thesis unfolding s' using o by (intro gate_moves_same gate_of_eqI) auto
  qed
next
  case Added
  let ?i = "DeviceIDFor (lb_crypto lb) (pq_DevicePublicKey m)"
  have "gate_of (snd (pair_next lb io t1 t2 m p s)) = gate_next (EndsSessions ?i) (gate_of s)"
    using Added assms by (intro gate_of_eqI) (simp_all add: sessions_dropDevice)
  then show ?thesis by (rule gate_moves_ev) (use Added in simp)
qed (rule gate_moves_same, rule gate_of_parts; simp add: Let_def split_def split: option.split bool.split)+

lemma authenticate_next_gate:
  "gate_moves (call_accounts lb (CallAuthenticate io rnd t1 t2 t3 m) p) s
     (snd (authenticate_next lb io rnd t1 t2 t3 m p s))"
proof (cases p)
  case (Consumed d)
  show ?thesis
  proof (cases rnd)
    case None
    then show ?thesis using Consumed by (intro gate_moves_same gate_of_parts) (simp_all add: tokens_mint_def)
  next
    case (Some raw)
    have "gate_of (snd (authenticate_next lb io rnd t1 t2 t3 m p s))
        = gate_next (LogsIn (dv_ID d) (RawURLEncoding_EncodeToString raw) (t2 + tokenTTL)) (gate_of s)"
      using Consumed Some by (intro gate_of_eqI) (auto simp: tokens_mint_def Let_def)
    then show ?thesis by (rule gate_moves_ev) (use Consumed Some in simp)
  qed
next
  case (Minted d tok e)
  then show ?thesis using gate_of_Touch by (intro gate_moves_same) (simp add: split_def Let_def)
qed (rule gate_moves_same, rule gate_of_parts; simp add: Let_def split_def split: option.split bool.split)+

lemma call_next_gate:
  assumes "srv_wf s"
  shows "gate_moves (call_accounts lb q p) s (snd (call_next lb q p s))"
proof -
  have w: "tokens_wf (s_tokens s)" using assms by (simp add: srv_wf_def)
  have auth: "gate_moves (call_accounts lb q p) s (snd (authorize_next auth cap now p s))"
    if "session_header q = Some (auth, now)" for auth cap now
    by (rule gate_moves_mono [OF authorize_next_gate]) (use that in auto)
  show ?thesis
  proof (cases q)
    case (CallPair io t1 t2 m)
    then show ?thesis using pair_next_gate [OF w] by simp
  next
    case (CallChallenge rnd now i)
    then show ?thesis
      by (intro gate_moves_same gate_of_parts) (cases p; simp add: split_def split: option.split)+
  next
    case (CallAuthenticate io rnd t1 t2 t3 m)
    then show ?thesis using authenticate_next_gate by simp
  next
    case (CallStatus now a)
    then show ?thesis using auth by (cases p) (simp_all add: gate_moves_same split_def Let_def)
  next
    case (CallDigest now a sid)
    then show ?thesis using auth by (cases p) (simp_all add: gate_moves_same split_def Let_def)
  next
    case (CallSubmitAnswer io out t1 at t2 a m)
    then show ?thesis using auth gate_of_Touch
      by (cases p) (simp_all add: gate_moves_same split_def Let_def split: sum.split)
  next
    case (CallSubmitCommand io out t1 at t2 a m)
    then show ?thesis using auth gate_of_Touch
      by (cases p) (simp_all add: gate_moves_same split_def Let_def split: sum.split)
  qed
qed

section \<open>One step of the host\<close>

lemma gate_of_authorize_moves:
  "authorize auth cap now s = (x, s') \<Longrightarrow> gate_moves (\<lambda>ev. \<exists>tok. auth = bearerPrefix @ tok \<and> ev = Tries tok now) s s'"
proof -
  assume a: "authorize auth cap now s = (x, s')"
  have g: "gate_of s' = (if prefix bearerPrefix auth
      then gate_next (Tries (drop (length bearerPrefix) auth) now) (gate_of s) else gate_of s)"
    using gate_of_authorize [of auth cap now s] a by simp
  show ?thesis
  proof (cases "prefix bearerPrefix auth")
    case True
    then obtain tok where "auth = bearerPrefix @ tok" by (auto simp: prefix_def)
    then show ?thesis using g True unfolding gate_moves_def by auto
  qed (use g in \<open>simp add: gate_moves_same\<close>)
qed

lemma stream_subscribe_gate: "stream_subscribe r dev fails s = (x, s') \<Longrightarrow> gate_of s' = gate_of s"
  by (drule subscribe_effect) auto

lemma stream_recv_gate: "stream_recv r a s = (x, s') \<Longrightarrow> gate_of s' = gate_of s"
  by (drule recv_effect) auto

lemma stream_step_gate:
  assumes "stream_step (s, t) (s', t')"
  shows "gate_moves (stream_accounts t) s s'"
  using assms
proof (cases rule: stream_step_split)
  case (refused now c e)
  then show ?thesis by (intro gate_moves_mono [OF gate_of_authorize_moves]) auto
next
  case (admitted now dev)
  then show ?thesis by (intro gate_moves_mono [OF gate_of_authorize_moves]) auto
next
  case (returns dev a e)
  then show ?thesis by (cases "sr_req t") (simp_all add: gate_moves_same)
qed (auto intro: gate_moves_same stream_subscribe_gate stream_recv_gate)

lemma revoke_next_gate:
  assumes "srv_wf s" and "revoke_next lb (rv_dev r) (rv_phase r) s = (p', s')"
  shows "gate_moves (rev_accounts r) s s'"
proof (cases "rv_phase r")
  case (RvTombstone io now)
  have "rights_of (fst (reg_step (lb_json lb) (OpRevoke io (rv_dev r) now) (s_reg s, s_disk s)))
      = (rights_of (s_reg s))(rv_dev r := None)"
    by (simp add: rights_of_step del: reg_step.simps)
  then have "gate_of s' = gate_next (Bars (rv_dev r)) (gate_of s)"
    using assms(2) RvTombstone by (auto simp: split_def Let_def intro!: gate_of_eqI)
  then show ?thesis by (rule gate_moves_ev) (use RvTombstone in simp)
next
  case RvTokens
  then have "gate_of s' = gate_next (EndsSessions (rv_dev r)) (gate_of s)"
    using assms by (auto simp: sessions_dropDevice srv_wf_def intro!: gate_of_eqI)
  then show ?thesis by (rule gate_moves_ev) (use RvTokens in simp)
qed (use assms(2) in \<open>auto intro!: gate_moves_same\<close>)

lemma one_step_gate:
  assumes "one_step op" and "srv_wf s"
  shows "gate_moves (\<lambda>ev. \<exists>i caps. ev = Grants i caps) s (srv_step lb op s)"
proof (cases op)
  case (SSetCapabilities io i caps)
  then have "gate_of (srv_step lb op s) = gate_next (Grants i (known_of caps)) (gate_of s)"
    using gate_step [OF assms(2), of lb op] by (simp del: srv_step.simps gate_next.simps)
  then show ?thesis by (rule gate_moves_ev) simp
qed (use assms gate_step [OF assms(2), of lb op] in \<open>simp_all add: gate_moves_same del: srv_step.simps\<close>)

lemma causedI:
  "k < length (ho_streams c) \<Longrightarrow> stream_accounts (ho_streams c ! k) ev \<Longrightarrow> caused c lb ev"
  "k < length (ho_calls c) \<Longrightarrow> call_accounts lb (fst (ho_calls c ! k)) (snd (ho_calls c ! k)) ev \<Longrightarrow> caused c lb ev"
  "k < length (ho_revs c) \<Longrightarrow> rev_accounts (ho_revs c ! k) ev \<Longrightarrow> caused c lb ev"
  "(\<exists>i caps. ev = Grants i caps) \<Longrightarrow> caused c lb ev"
  unfolding caused_def using nth_mem by (fast, fastforce, fast, blast)

lemma host_step_gate:
  assumes "host_step lb c c'" and "srv_wf (ho_srv c)"
  shows "gate_moves (caused c lb) (ho_srv c) (ho_srv c')"
  using assms(1)
proof (cases rule: host_step.cases)
  case (goes_on k s' t')
  then show ?thesis
    using gate_moves_mono [OF stream_step_gate [OF goes_on(3)] causedI(1) [OF goes_on(2)]] by simp
next
  case (proceeds k p s')
  then have "ho_srv c' = snd (call_next lb (fst (ho_calls c ! k)) (snd (ho_calls c ! k)) (ho_srv c))" by simp
  then show ?thesis
    using gate_moves_mono [OF call_next_gate [OF assms(2)] causedI(2) [OF proceeds(2)]] by (simp only:)
next
  case (revokes j p s')
  then show ?thesis
    using gate_moves_mono [OF revoke_next_gate [OF assms(2) revokes(3)] causedI(3) [OF revokes(2)]] by simp
next
  case (other op)
  then show ?thesis using gate_moves_mono [OF one_step_gate [OF other(2) assms(2)] causedI(4)] by simp
qed (simp_all add: gate_moves_same)

section \<open>Property\<close>



end
