(* ===== verification/StreamTruth.thy ===== *)
theory StreamTruth
  imports Revocation
begin

text \<open>
  What the status streams of \<^verbatim>\<open>WatchStatus\<close> (\<^verbatim>\<open>src/link/server.go\<close>) carry, whatever the interleaving with
  publications, revocations and other streams: the snapshots that were current one after the other,
  some skipped, none repeated, reordered or made up, and in the end the current one.
\<close>

section \<open>The history of the hub\<close>

text \<open>The frames that were current, oldest first. Each publication adds one.\<close>

definition shown :: "hub \<Rightarrow> hub \<Rightarrow> frame list \<Rightarrow> frame list" where
  "shown h h' ps = (if h_seq h' = h_seq h then ps else ps @ [hub_frame h'])"

inductive shown_runs :: "'ts libs \<Rightarrow> 'ts host \<Rightarrow> frame list \<Rightarrow> 'ts host \<Rightarrow> bool" for lb c0 where
  starts: "shown_runs lb c0 [hub_frame (s_hub (ho_srv c0))] c0"
| continues: "shown_runs lb c0 ps c \<Longrightarrow> host_step lb c c' \<Longrightarrow>
    shown_runs lb c0 (shown (s_hub (ho_srv c)) (s_hub (ho_srv c')) ps) c'"

fun statuses :: "sent list \<Rightarrow> frame list" where
  "statuses [] = []"
| "statuses (SentStatus f # ms) = f # statuses ms"
| "statuses (m # ms) = statuses ms"

lemma statuses_append [simp]: "statuses (ms @ ms') = statuses ms @ statuses ms'"
  by (induction ms rule: statuses.induct) simp_all

text \<open>What a stream has been sent, followed by what it is yet to send: its opening message and the pending frame.\<close>

fun coming :: "hub \<Rightarrow> phase \<Rightarrow> frame list" where
  "coming h (Opened d a m) = (case m of Some x \<Rightarrow> statuses [x] | None \<Rightarrow> []) @ hub_pending a h"
| "coming h (Watching d a) = hub_pending a h"
| "coming h p = []"

definition outlook :: "hub \<Rightarrow> stream \<Rightarrow> frame list" where
  "outlook h t = statuses (sr_sent t) @ coming h (sr_phase t)"

fun listening :: "phase \<Rightarrow> nat option" where
  "listening (Opened d a m) = Some a"
| "listening (Watching d a) = Some a"
| "listening p = None"

definition truthful :: "hub \<Rightarrow> frame list \<Rightarrow> stream \<Rightarrow> bool" where
  "truthful h ps t \<longleftrightarrow> subseq (outlook h t) ps
     \<and> (\<forall>a. listening (sr_phase t) = Some a \<longrightarrow> a \<in> set (h_subs h) \<longrightarrow> outlook h t \<noteq> [] \<and> last (outlook h t) = hub_frame h)
     \<and> (sr_phase t = Arrived \<or> (\<exists>d. sr_phase t = Authorized d) \<longrightarrow> statuses (sr_sent t) = [])"

section \<open>What one hub operation does\<close>

lemma hub_next_shown:
  "\<lbrakk>\<And>s at. op \<noteq> HPublish s at\<rbrakk> \<Longrightarrow> hub_frame (hub_next op h) = hub_frame h"
  by (cases op) (auto simp: hub_frame_def hub_subscribe_def hub_unsubscribe_def hub_dropDevice_def
      hub_recv_eq Let_def)

lemma hub_next_subs:
  "set (h_subs (hub_next op h)) \<subseteq> insert (h_next h) (set (h_subs h))"
  by (cases op) (auto simp: hub_publish_def hub_subscribe_def hub_unsubscribe_def hub_dropDevice_def
      hub_recv_eq Let_def)

lemma hub_next_elsewhere:
  assumes "hub_wf h" and "\<And>s at. op \<noteq> HPublish s at" and "op \<noteq> HRecv a"
  shows "hub_pending a (hub_next op h) = hub_pending a h"
proof (cases "\<exists>b. op = HRecv b")
  case True
  then obtain b where "op = HRecv b" by blast
  then show ?thesis using assms(3) hub_recv_pending(2) [OF assms(1), of a b] by auto
next
  case False
  then show ?thesis using hub_next_frame(1) [OF assms(1,2)] by blast
qed

lemma subseq_front: "subseq (xs @ ys) zs \<Longrightarrow> subseq xs zs"
  using subseq_order.trans [of xs "xs @ ys" zs] prefix_imp_subseq [of xs "xs @ ys"] by simp

lemma truthful_bystander:
  assumes "hub_wf h" and "truthful h ps t" and "last ps = hub_frame h"
    and own: "\<And>a. listening (sr_phase t) = Some a \<Longrightarrow> op \<noteq> HRecv a \<and> a < h_next h"
  shows "truthful (hub_next op h) (shown h (hub_next op h) ps) t"
proof (cases "\<exists>st at. op = HPublish st at")
  case True
  then obtain st at where op: "op = HPublish st at" by blast
  obtain q h' where p: "hub_publish st at h = (q, h')" by fastforce
  have h': "hub_next op h = h'" "shown h h' ps = ps @ [hub_frame h']" "h_subs h' = h_subs h"
    using op p by (auto simp: shown_def hub_publish_def Let_def)
  note pend = hub_publish_pending [OF assms(1) p]
  have ss: "subseq (outlook h t) ps" using assms(2) by (simp add: truthful_def)
  show ?thesis
  proof (cases "\<exists>a. listening (sr_phase t) = Some a \<and> a \<in> set (h_subs h)")
    case True
    then obtain a where a: "listening (sr_phase t) = Some a" "a \<in> set (h_subs h)" by blast
    define xs where "xs = statuses (sr_sent t)
      @ (case sr_phase t of Opened d b m \<Rightarrow> (case m of Some x \<Rightarrow> statuses [x] | None \<Rightarrow> []) | _ \<Rightarrow> [])"
    have "outlook h t = xs @ hub_pending a h" and o': "outlook h' t = xs @ [hub_frame h']"
      using a pend [of a] by (cases "sr_phase t"; simp add: outlook_def xs_def)+
    then have "subseq xs ps" using ss by (metis subseq_front)
    then have "subseq (outlook h' t) (ps @ [hub_frame h'])" using o' by (simp add: subseq_append)
    then show ?thesis using h' o' a assms(2) by (auto simp: truthful_def)
  next
    case False
    then have "outlook h' t = outlook h t" using pend by (cases "sr_phase t") (simp_all add: outlook_def)
    then show ?thesis using False h' ss assms(2) by (auto simp: truthful_def)
  qed
next
  case False
  then have p: "\<And>s at. op \<noteq> HPublish s at" by blast
  have fr: "hub_frame (hub_next op h) = hub_frame h" by (rule hub_next_shown) (rule p)
  then have "shown h (hub_next op h) ps = ps" by (simp add: shown_def hub_frame_def)
  moreover have "outlook (hub_next op h) t = outlook h t"
    using own hub_next_elsewhere [OF assms(1) p] by (cases "sr_phase t") (auto simp: outlook_def)
  moreover have "a \<in> set (h_subs h)" if "listening (sr_phase t) = Some a" "a \<in> set (h_subs (hub_next op h))" for a
    using own [OF that(1)] that(2) hub_next_subs [of op h] by auto
  ultimately show ?thesis using assms(2) fr by (simp add: truthful_def)
qed

section \<open>What one step of a stream does\<close>

definition of_status :: "stream \<Rightarrow> bool" where
  "of_status t \<longleftrightarrow> (\<exists>auth. sr_req t = StatusReq auth)"

lemma stream_step_hub:
  assumes "stream_step (s, t) (s', t')"
  shows "s_hub s' = s_hub s \<or> (\<exists>op. s_hub s' = hub_next op (s_hub s) \<and> (\<forall>st at. op \<noteq> HPublish st at)
    \<and> (\<forall>a. op = HRecv a \<longrightarrow> of_status t \<and> listening (sr_phase t) = Some a))"
  using assms
proof (cases rule: stream_step_split)
  case (refused now c e)
  then show ?thesis by (metis authorize_keeps(5) snd_conv)
next
  case (admitted now dev)
  then show ?thesis by (metis authorize_keeps(5) snd_conv)
next
  case (unserved dev fails c e)
  then show ?thesis using subscribe_effect [OF unserved(3)] by (auto intro: exI [of _ "HSubscribe dev"])
next
  case (subscribed dev fails a m)
  then show ?thesis using subscribe_effect [OF subscribed(3)] by (auto intro: exI [of _ "HSubscribe dev"])
next
  case (update dev a x)
  then show ?thesis by (cases "sr_req t") (auto simp: of_status_def Let_def split: prod.split_asm intro: exI [of _ "HRecv a"])
next
  case (update_breaks dev a x)
  then show ?thesis by (cases "sr_req t") (auto simp: of_status_def Let_def split: prod.split_asm intro: exI [of _ "HRecv a"])
next
  case (returns dev a e)
  then show ?thesis by (cases "sr_req t") (auto intro: exI [of _ "HUnsubscribe a"])
qed auto

lemma outlook_ends:
  assumes "truthful h ps t" and "coming h' (sr_phase t') = []" and "listening (sr_phase t') = None"
    and "statuses (sr_sent t') = statuses (sr_sent t)"
    and "sr_phase t' \<noteq> Arrived" "\<And>d. sr_phase t' \<noteq> Authorized d"
  shows "truthful h' ps t'"
proof -
  have "subseq (statuses (sr_sent t)) ps"
    using assms(1) subseq_front unfolding truthful_def outlook_def by blast
  then show ?thesis using assms(2-) by (simp add: truthful_def outlook_def)
qed

lemma truthful_own:
  assumes "stream_step (s, t) (s', t')" and "srv_wf s" and "of_status t" and "truthful (s_hub s) ps t"
    and "ps \<noteq> []" and "last ps = hub_frame (s_hub s)"
  shows "truthful (s_hub s') ps t'"
proof -
  have wf: "hub_wf (s_hub s)" using assms(2) by (simp add: srv_wf_def)
  obtain auth where r: "sr_req t = StatusReq auth" using assms(3) by (auto simp: of_status_def)
  note recv = hub_recv_pending(1,2) [OF wf] and subs = hub_recv_eq hub_frame_def
  show ?thesis
    using assms(1)
  proof (cases rule: stream_step_split)
    case (admitted now dev)
    then show ?thesis using assms(4) by (simp add: truthful_def outlook_def)
  next
    case (unserved dev fails c e)
    then show ?thesis using r by (simp add: Let_def split: prod.split_asm)
  next
    case (subscribed dev fails a m)
    then obtain f where s: "hub_subscribe dev (s_hub s) = ((a, f), s_hub s')" "m = Some (SentStatus f)"
      using r by (auto simp: Let_def split: prod.split_asm)
    have "hub_pending a (s_hub s') = []" by (rule hub_subscribe_good(2) [OF wf s(1)])
    moreover have "s_hub s' = hub_next (HSubscribe dev) (s_hub s)" using s(1) by simp
    then have "hub_frame (s_hub s') = last ps" using assms(6) by (simp add: hub_next_shown del: hub_next.simps)
    moreover have "f = last ps" using s(1) assms(6) by (simp add: hub_subscribe_def)
    moreover have "subseq [last ps] ps" using assms(5) by (simp add: subseq_singleton_left)
    ultimately show ?thesis using subscribed s(2) assms(4) by (simp add: truthful_def outlook_def)
  next
    case (opens dev a m)
    then show ?thesis using assms(4) by (cases m) (simp_all add: truthful_def outlook_def)
  next
    case (update dev a x)
    obtain f h where g: "hub_recv a (s_hub s) = (Some f, h)" "x = SentStatus f" "s' = s\<lparr>s_hub := h\<rparr>"
      using update r by (auto simp: Let_def split: prod.split_asm)
    have h: "h = snd (hub_recv a (s_hub s))" using g by simp
    have "hub_pending a (s_hub s) = [f]"
      using g(1) recv(1) [of a] hub_pending_slot [OF wf, of a] by (auto split: list.split_asm)
    moreover have "hub_pending a h = []" unfolding h by (simp add: recv(2))
    moreover have "h_subs h = h_subs (s_hub s)" "hub_frame h = hub_frame (s_hub s)"
      unfolding h by (simp_all add: subs)
    ultimately show ?thesis using update g assms(4) by (simp add: truthful_def outlook_def)
  next
    case (heartbeat dev a)
    then show ?thesis using assms(4) by (simp add: truthful_def outlook_def)
  qed (rule outlook_ends [OF assms(4)]; simp)+
qed

section \<open>Every run\<close>

text \<open>No two streams of a kind listen at one subscriber.\<close>

definition apart :: "(stream \<Rightarrow> bool) \<Rightarrow> stream list \<Rightarrow> bool" where
  "apart P ts \<longleftrightarrow> (\<forall>i < length ts. \<forall>j < length ts. i \<noteq> j \<longrightarrow> P (ts ! i) \<longrightarrow> P (ts ! j)
     \<longrightarrow> listening (sr_phase (ts ! i)) \<noteq> None \<longrightarrow> listening (sr_phase (ts ! i)) \<noteq> listening (sr_phase (ts ! j)))"

lemma apart_new: "apart P ts \<Longrightarrow> listening (sr_phase t) = None \<Longrightarrow> apart P (ts @ [t])"
  by (auto simp: apart_def nth_append less_Suc_eq)

lemma apart_update:
  assumes "apart P ts" and "k < length ts" and "P t' = P (ts ! k)"
    and "P (ts ! k) \<Longrightarrow> listening (sr_phase t') \<in> {None, listening (sr_phase (ts ! k)), Some n}"
    and "\<And>j a. j < length ts \<Longrightarrow> P (ts ! j) \<Longrightarrow> listening (sr_phase (ts ! j)) = Some a \<Longrightarrow> a < n"
  shows "apart P (ts[k := t'])"
proof -
  have "listening (sr_phase t') \<noteq> listening (sr_phase (ts ! j))"
    if "j < length ts" "j \<noteq> k" "P (ts ! j)" "P t'" "listening (sr_phase t') \<noteq> None" for j
    using assms that unfolding apart_def
    by (metis emptyE insertE not_less_iff_gr_or_eq)
  then show ?thesis using assms(1,2) by (simp add: apart_def nth_list_update) metis
qed

lemma listening_held: "listening p = Some a \<Longrightarrow> \<exists>d. held p = Some (d, a)"
  by (cases p) simp_all

lemma listening_known:
  assumes "stream_inv s t" and "of_status t" and "srv_wf s" and "listening (sr_phase t) = Some a"
  shows "a < h_next (s_hub s)"
proof -
  have "map_of (h_heap (s_hub s)) a \<noteq> None"
    using listening_held [OF assms(4)] assms(1,2) by (auto simp: stream_inv_def of_status_def)
  then show ?thesis using assms(3) by (auto simp: srv_wf_def hub_wf_def fan_wf_def)
qed

lemma stream_step_listening:
  assumes "stream_step (s, t) (s', t')" and "of_status t"
  shows "listening (sr_phase t') \<in> {None, listening (sr_phase t), Some (h_next (s_hub s))}"
  using assms(1)
proof (cases rule: stream_step_split)
  case (subscribed dev fails a m)
  then show ?thesis using assms(2) by (auto simp: of_status_def hub_subscribe_def)
qed simp_all

definition truth_inv :: "frame list \<Rightarrow> 'ts host \<Rightarrow> bool" where
  "truth_inv ps c \<longleftrightarrow> host_inv c \<and> ps \<noteq> [] \<and> last ps = hub_frame (s_hub (ho_srv c)) \<and> apart of_status (ho_streams c)
     \<and> (\<forall>t \<in> set (ho_streams c). of_status t \<longrightarrow> truthful (s_hub (ho_srv c)) ps t)"

lemma shown_last:
  assumes "h' = h \<or> (\<exists>op. h' = hub_next op h)" and "ps \<noteq> []" and "last ps = hub_frame h"
  shows "shown h h' ps \<noteq> []" "last (shown h h' ps) = hub_frame h'"
proof -
  have "hub_frame h' = hub_frame h" if "h_seq h' = h_seq h"
  proof (cases "\<exists>st at. h' = hub_next (HPublish st at) h")
    case True
    then show ?thesis using that by (auto simp: hub_publish_def Let_def)
  next
    case False
    then show ?thesis using assms(1) hub_next_shown by metis
  qed
  then show "shown h h' ps \<noteq> []" "last (shown h h' ps) = hub_frame h'"
    using assms(2,3) by (auto simp: shown_def)
qed

lemma truth_quiet:
  assumes "truth_inv ps c" and "quiet_step (ho_srv c) s'"
  shows "truth_inv (shown (s_hub (ho_srv c)) (s_hub s') ps) (c\<lparr>ho_srv := s', ho_revs := rs, ho_calls := qs\<rparr>)"
proof -
  let ?h = "s_hub (ho_srv c)"
  have inv: "host_inv c" "srv_wf (ho_srv c)" and ps: "ps \<noteq> []" "last ps = hub_frame ?h"
    using assms(1) by (simp_all add: truth_inv_def host_inv_def)
  then have wf: "hub_wf ?h" by (simp add: srv_wf_def)
  consider (same) "s_hub s' = ?h" | (op) op where "s_hub s' = hub_next op ?h" "\<And>a. op \<noteq> HRecv a"
    using assms(2) unfolding quiet_step_def by blast
  then have "truthful (s_hub s') (shown ?h (s_hub s') ps) t" if t: "t \<in> set (ho_streams c)" "of_status t" for t
  proof cases
    case same
    then show ?thesis using assms(1) t by (simp add: truth_inv_def shown_def)
  next
    case op
    have "stream_inv (ho_srv c) t" using inv(1) t(1) by (simp add: host_inv_def list_all_iff)
    then show ?thesis
      unfolding op(1) using op(2) assms(1) t listening_known inv(2)
      by (intro truthful_bystander [OF wf _ ps(2)]) (auto simp: truth_inv_def)
  qed
  moreover have "s_hub s' = ?h \<or> (\<exists>op. s_hub s' = hub_next op ?h)"
    using assms(2) by (auto simp: quiet_step_def)
  ultimately show ?thesis
    using assms(1) host_inv_quiet [OF inv(1) assms(2)] shown_last [OF _ ps]
    by (simp add: truth_inv_def)
qed

lemma truth_stream:
  assumes "truth_inv ps c" and "k < length (ho_streams c)"
    and "stream_step (ho_srv c, ho_streams c ! k) (s', t')"
  shows "truth_inv (shown (s_hub (ho_srv c)) (s_hub s') ps) (c\<lparr>ho_srv := s', ho_streams := (ho_streams c)[k := t']\<rparr>)"
proof -
  let ?s = "ho_srv c" and ?ts = "ho_streams c"
  let ?h = "s_hub ?s" and ?c' = "c\<lparr>ho_srv := s', ho_streams := ?ts[k := t']\<rparr>"
  have inv: "host_inv c" "srv_wf ?s" and ps: "ps \<noteq> []" "last ps = hub_frame ?h" and ap: "apart of_status ?ts"
    and tr: "\<And>t. t \<in> set ?ts \<Longrightarrow> of_status t \<Longrightarrow> truthful ?h ps t"
    using assms(1) by (simp_all add: truth_inv_def host_inv_def)
  then have wf: "hub_wf ?h" by (simp add: srv_wf_def)
  have known: "a < h_next ?h" if "j < length ?ts" "of_status (?ts ! j)" "listening (sr_phase (?ts ! j)) = Some a" for j a
    using listening_known [OF _ that(2) inv(2) that(3)] inv(1) that(1) by (simp add: host_inv_def list_all_length)
  have st: "of_status t' = of_status (?ts ! k)" using stream_step_req [OF assms(3)] by (simp add: of_status_def)
  from stream_step_hub [OF assms(3)] consider (same) "s_hub s' = ?h"
    | (op) op where "s_hub s' = hub_next op ?h" "\<And>s at. op \<noteq> HPublish s at"
      "\<And>a. op = HRecv a \<Longrightarrow> of_status (?ts ! k) \<and> listening (sr_phase (?ts ! k)) = Some a" by blast
  note hub_cases = this
  have sh: "shown ?h (s_hub s') ps = ps"
  proof (cases rule: hub_cases)
    case op
    then have "hub_frame (s_hub s') = hub_frame ?h" using hub_next_shown by metis
    then show ?thesis by (simp add: shown_def hub_frame_def)
  qed (simp add: shown_def)
  have "truthful (s_hub s') ps t'" if "of_status t'"
    using truthful_own [OF assms(3) inv(2) _ _ ps] tr [of "?ts ! k"] st that assms(2) by simp
  moreover have "truthful (s_hub s') ps (?ts ! j)" if j: "j < length ?ts" "j \<noteq> k" "of_status (?ts ! j)" for j
  proof (cases rule: hub_cases)
    case same
    then show ?thesis using tr j by simp
  next
    case op
    have "op \<noteq> HRecv a" if "listening (sr_phase (?ts ! j)) = Some a" for a
      using that op(3) [of a] ap j assms(2) unfolding apart_def by fastforce
    then show ?thesis
      using truthful_bystander [OF wf _ ps(2), of "?ts ! j" op] tr j known [OF j(1,3)] op(1) sh by simp
  qed
  ultimately have "\<forall>t \<in> set (?ts[k := t']). of_status t \<longrightarrow> truthful (s_hub s') ps t"
    using assms(2) by (auto simp: in_set_conv_nth nth_list_update split: if_split_asm)
  moreover have "host_inv ?c'"
    by (rule host_inv_step [OF host_step.goes_on [OF assms(2,3)] inv(1)])
  moreover have "apart of_status (?ts[k := t'])"
    by (rule apart_update [OF ap assms(2) st stream_step_listening [OF assms(3)]]) (use known in auto)
  moreover have "s_hub s' = ?h \<or> (\<exists>op. s_hub s' = hub_next op ?h)"
    using hub_cases by metis
  then have "last ps = hub_frame (s_hub s')" using shown_last(2) [OF _ ps] sh by metis
  ultimately show ?thesis using ps(1) sh by (simp add: truth_inv_def)
qed

lemma truth_step:
  assumes "host_step lb c c'" and "truth_inv ps c"
  shows "truth_inv (shown (s_hub (ho_srv c)) (s_hub (ho_srv c')) ps) c'"
  using assms(1)
proof (cases rule: host_step.cases)
  case (arrives r)
  have "truthful h ps \<lparr>sr_req = r, sr_phase = Arrived, sr_sent = []\<rparr>" for h
    by (simp add: truthful_def outlook_def)
  moreover have "apart of_status (ho_streams c')"
    using assms(2) arrives by (simp add: truth_inv_def apart_new)
  ultimately show ?thesis
    using assms(2) arrives host_inv_step [OF assms(1)] by (simp add: truth_inv_def shown_def)
next
  case (goes_on k s' t')
  then show ?thesis using truth_stream [OF assms(2) goes_on(2,3)] by simp
next
  case (revoke i io now)
  then show ?thesis using assms(2) host_inv_step [OF assms(1)] by (simp add: truth_inv_def shown_def)
next
  case (revokes j p s')
  have "quiet_step (ho_srv c) s'"
    using revoke_next_quiet revokes(3) assms(2) by (metis host_inv_def truth_inv_def)
  from truth_quiet [OF assms(2) this, of "ho_calls c"] show ?thesis using revokes(1) by simp
next
  case (calls q)
  then show ?thesis using assms(2) host_inv_step [OF assms(1)] by (simp add: truth_inv_def shown_def)
next
  case (proceeds k p s')
  have "quiet_step (ho_srv c) s'"
    using call_next_quiet proceeds(3) assms(2) by (metis host_inv_def truth_inv_def)
  from truth_quiet [OF assms(2) this, of _ "ho_revs c"] show ?thesis using proceeds(1) by simp
next
  case (other op)
  have "quiet_step (ho_srv c) (srv_step lb op (ho_srv c))"
    by (rule one_step_quiet) (use other(2) assms(2) in \<open>simp_all add: host_inv_def truth_inv_def\<close>)
  from truth_quiet [OF assms(2) this, of "ho_calls c" "ho_revs c"] show ?thesis using other(1) by simp
qed

lemma truth_runs: "shown_runs lb c0 ps c \<Longrightarrow> truth_inv [hub_frame (s_hub (ho_srv c0))] c0 \<Longrightarrow> truth_inv ps c"
  by (induction rule: shown_runs.induct) (auto intro: truth_step)

lemma truth_start: "idle_server s \<Longrightarrow> truth_inv [hub_frame (s_hub (ho_srv (fresh_host s)))] (fresh_host s)"
  using host_inv_start [of s] by (simp add: truth_inv_def fresh_host_def apart_def)

section \<open>The numbers of the history\<close>

lemma hub_next_number:
  "h_seq (hub_next op h) = h_seq h \<or> h_seq (hub_next op h) = h_seq h + 1"
  by (cases op) (auto simp: hub_publish_def hub_subscribe_def hub_unsubscribe_def hub_dropDevice_def
      hub_recv_eq Let_def)

lemma host_step_hub:
  assumes "host_step lb c c'" and "host_inv c"
  shows "s_hub (ho_srv c') = s_hub (ho_srv c) \<or> (\<exists>op. s_hub (ho_srv c') = hub_next op (s_hub (ho_srv c)))"
  using assms(1)
proof (cases rule: host_step.cases)
  case (goes_on k s' t')
  then show ?thesis using stream_step_hub [OF goes_on(3)] by auto
next
  case (proceeds k p s')
  have "quiet_step (ho_srv c) s'" using call_next_quiet proceeds(3) assms(2) by (metis host_inv_def)
  then show ?thesis using proceeds(1) by (auto simp: quiet_step_def)
next
  case (revokes j p s')
  have "quiet_step (ho_srv c) s'" using revoke_next_quiet revokes(3) assms(2) by (metis host_inv_def)
  then show ?thesis using revokes(1) by (auto simp: quiet_step_def)
next
  case (other op)
  have "quiet_step (ho_srv c) (srv_step lb op (ho_srv c))"
    by (rule one_step_quiet) (use other(2) assms(2) in \<open>simp_all add: host_inv_def\<close>)
  then show ?thesis using other(1) by (auto simp: quiet_step_def)
qed simp_all

lemma shown_numbers:
  assumes "shown_runs lb c0 ps c" and "truth_inv [hub_frame (s_hub (ho_srv c0))] c0" and "i < length ps"
  shows "fr_seq (ps ! i) = h_seq (s_hub (ho_srv c0)) + of_nat i"
  using assms
proof (induction arbitrary: i rule: shown_runs.induct)
  case starts
  then show ?case by (simp add: hub_frame_def)
next
  case (continues ps c c')
  let ?h = "s_hub (ho_srv c)" and ?h' = "s_hub (ho_srv c')"
  have inv: "host_inv c" "ps \<noteq> []" "last ps = hub_frame ?h"
    using truth_runs [OF continues(1,4)] by (simp_all add: truth_inv_def)
  have n: "h_seq ?h' = h_seq ?h \<or> h_seq ?h' = h_seq ?h + 1"
    using host_step_hub [OF continues(2) inv(1)] hub_next_number by metis
  have "h_seq ?h = h_seq (s_hub (ho_srv c0)) + of_nat (length ps - 1)"
    using continues(3) [OF continues(4), of "length ps - 1"] inv(2,3) by (simp add: last_conv_nth hub_frame_def)
  then have "h_seq ?h + 1 = h_seq (s_hub (ho_srv c0)) + of_nat (length ps)"
    using inv(2) by (cases ps) simp_all
  then show ?case
    using continues(3) [OF continues(4), of i] continues(5) n
    by (auto simp: shown_def nth_append less_Suc_eq hub_frame_def split: if_split_asm)
qed

section \<open>Property\<close>

lemma listening_subseq:
  "truthful h ps t \<Longrightarrow> subseq (statuses (sr_sent t)) ps"
  using subseq_front unfolding truthful_def outlook_def by blast

text \<open>C19: A status stream tells the truth in order. However publications, calls, other streams and
  revocations interleave with it, what a status stream has sent is a subsequence of the snapshots that were
  current since the start, which the hub numbered one by one: it may skip some, but sends none twice,
  out of order, or that was never current. And while the hub serves it, it has either sent the current
  snapshot last or has exactly that one waiting for its next receive.\<close>
theorem status_stream_tells_truth:
  assumes "idle_server s" and "shown_runs lb (fresh_host s) ps c"
    and "t \<in> set (ho_streams c)" and "sr_req t = StatusReq auth"
  shows "subseq (statuses (sr_sent t)) ps
    \<and> (\<forall>i < length ps. fr_seq (ps ! i) = h_seq (s_hub s) + of_nat i)
    \<and> (\<forall>d a. sr_phase t = Watching d a \<and> a \<in> set (h_subs (s_hub (ho_srv c))) \<longrightarrow>
        hub_pending a (s_hub (ho_srv c)) = [hub_frame (s_hub (ho_srv c))]
        \<or> (statuses (sr_sent t) \<noteq> [] \<and> last (statuses (sr_sent t)) = hub_frame (s_hub (ho_srv c))))"
proof -
  let ?h = "s_hub (ho_srv c)"
  have inv: "truth_inv ps c" by (rule truth_runs [OF assms(2) truth_start [OF assms(1)]])
  have tr: "truthful ?h ps t" using inv assms(3,4) by (auto simp: truth_inv_def of_status_def)
  have wf: "hub_wf ?h" using inv by (simp add: truth_inv_def host_inv_def srv_wf_def)
  have "hub_pending a ?h = [hub_frame ?h] \<or> (statuses (sr_sent t) \<noteq> [] \<and> last (statuses (sr_sent t)) = hub_frame ?h)"
    if w: "sr_phase t = Watching d a" "a \<in> set (h_subs ?h)" for d a
  proof (cases "hub_pending a ?h")
    case Nil
    then show ?thesis using tr w by (simp add: truthful_def outlook_def)
  next
    case (Cons f fs)
    then show ?thesis using wf w(2) by (auto simp: hub_wf_def hub_pending_def split: option.split_asm)
  qed
  moreover have "\<forall>i < length ps. fr_seq (ps ! i) = h_seq (s_hub s) + of_nat i"
    using shown_numbers [OF assms(2) truth_start [OF assms(1)]] by (simp add: fresh_host_def)
  ultimately show ?thesis using listening_subseq [OF tr] by blast
qed

lemma shown_exists: "host_runs lb c0 c \<Longrightarrow> \<exists>ps. shown_runs lb c0 ps c"
  by (induction rule: host_runs.induct) (auto intro: shown_runs.intros)

definition demo_opened :: "gotime host" where
  "demo_opened = demo_watching\<lparr>ho_streams := [sends (ho_streams demo_watching ! 0) [SentStatus (hub_frame newHub)] (Watching ''phone'' 0)]\<rparr>"

lemma demo_opened_reached: "host_runs demo_libs (fresh_host demo_paired) demo_opened"
proof -
  have t: "(ho_streams demo_watching)[0 := x] = [x]" "0 < length (ho_streams demo_watching)"
    "sr_phase (ho_streams demo_watching ! 0) = Opened ''phone'' 0 (Some (SentStatus (hub_frame newHub)))" for x
    by (simp_all add: demo_watching_def Let_def)
  have "stream_step (ho_srv demo_watching, ho_streams demo_watching ! 0)
      (ho_srv demo_watching, sends (ho_streams demo_watching ! 0) [SentStatus (hub_frame newHub)] (Watching ''phone'' 0))"
    using stream_step.opens [OF t(3), of "ho_srv demo_watching"] by simp
  from host_runs.more [OF demo_watching_reached host_step.goes_on [OF t(2) this]]
  show ?thesis by (simp add: demo_opened_def t(1))
qed

theorem status_stream_tells_truth_witness:
  "\<exists>ps. shown_runs demo_libs (fresh_host demo_paired) ps demo_opened \<and> subseq [hub_frame newHub] ps
    \<and> (\<forall>i < length ps. fr_seq (ps ! i) = of_nat i)"
proof -
  obtain ps where ps: "shown_runs demo_libs (fresh_host demo_paired) ps demo_opened"
    using shown_exists [OF demo_opened_reached] by blast
  let ?t = "ho_streams demo_opened ! 0"
  have "?t \<in> set (ho_streams demo_opened)" by (simp add: demo_opened_def)
  moreover have "sr_req ?t = StatusReq (bearerPrefix @ ''tok'')" "statuses (sr_sent ?t) = [hub_frame newHub]"
    by (simp_all add: demo_opened_def demo_watching_def Let_def)
  moreover have "h_seq (s_hub demo_paired) = 0" by (simp add: demo_paired_def demo_server_def newHub_def)
  ultimately show ?thesis using status_stream_tells_truth [OF demo_paired_idle ps, of ?t] ps by auto
qed

end
