(* ===== verification/PaneTruth.thy ===== *)
theory PaneTruth
  imports StreamTruth
begin

text \<open>
  What the pane streams of \<^verbatim>\<open>WatchPane\<close> (\<^verbatim>\<open>src/link/server.go\<close>, \<^verbatim>\<open>src/link/panehub.go\<close>) carry, whatever the
  interleaving with publications, calls, revocations and other streams: frames that were current for
  their session one after the other, some skipped, none repeated, reordered or from another session,
  and in the end the one the session retains.
\<close>

section \<open>The history of a session\<close>

definition pane_shown :: "string \<Rightarrow> paneHub \<Rightarrow> paneHub \<Rightarrow> paneFrameMsg list \<Rightarrow> paneFrameMsg list" where
  "pane_shown x h h' ps = (if pane_seq h' x = pane_seq h x then ps
     else ps @ (case retained h' x of None \<Rightarrow> [] | Some m \<Rightarrow> [m]))"

text \<open>The frames that were current for a session in the course of a run, oldest first.\<close>

inductive pane_runs :: "'ts libs \<Rightarrow> string \<Rightarrow> 'ts host \<Rightarrow> paneFrameMsg list \<Rightarrow> 'ts host \<Rightarrow> bool" for lb x c0 where
  starts: "pane_runs lb x c0 (case retained (s_paneHub (ho_srv c0)) x of None \<Rightarrow> [] | Some m \<Rightarrow> [m]) c0"
| continues: "pane_runs lb x c0 ps c \<Longrightarrow> host_step lb c c' \<Longrightarrow>
    pane_runs lb x c0 (pane_shown x (s_paneHub (ho_srv c)) (s_paneHub (ho_srv c')) ps) c'"

fun panes :: "sent list \<Rightarrow> paneFrameMsg list" where
  "panes [] = []"
| "panes (SentPane m # ms) = m # panes ms"
| "panes (y # ms) = panes ms"

lemma panes_append [simp]: "panes (ms @ ms') = panes ms @ panes ms'"
  by (induction ms rule: panes.induct) simp_all

fun pane_coming :: "paneHub \<Rightarrow> phase \<Rightarrow> paneFrameMsg list" where
  "pane_coming h (Opened d a m) = (case m of Some y \<Rightarrow> panes [y] | None \<Rightarrow> []) @ pane_pending a h"
| "pane_coming h (Watching d a) = pane_pending a h"
| "pane_coming h p = []"

definition pane_outlook :: "paneHub \<Rightarrow> stream \<Rightarrow> paneFrameMsg list" where
  "pane_outlook h t = panes (sr_sent t) @ pane_coming h (sr_phase t)"

definition newest :: "'a list \<Rightarrow> 'a option" where
  "newest xs = (if xs = [] then None else Some (last xs))"

definition of_pane :: "stream \<Rightarrow> bool" where
  "of_pane t \<longleftrightarrow> (\<exists>auth sid. sr_req t = PaneReq auth sid)"

definition for_session :: "string \<Rightarrow> stream \<Rightarrow> bool" where
  "for_session x t \<longleftrightarrow> (\<exists>auth sid. sr_req t = PaneReq auth sid \<and> TrimSpace sid = x)"

definition pane_truthful :: "string \<Rightarrow> paneHub \<Rightarrow> paneFrameMsg list \<Rightarrow> stream \<Rightarrow> bool" where
  "pane_truthful x h ps t \<longleftrightarrow> subseq (pane_outlook h t) ps
     \<and> (\<forall>a. listening (sr_phase t) = Some a \<longrightarrow> a \<in> watchers h x \<longrightarrow> retained h x = newest (pane_outlook h t))
     \<and> (sr_phase t = Arrived \<or> (\<exists>d. sr_phase t = Authorized d) \<longrightarrow> panes (sr_sent t) = [])"

section \<open>What one pane operation does\<close>

lemma retained_unsubscribe:
  "retained (pane_unsubscribe y b h) x = retained h x
   \<or> retained (pane_unsubscribe y b h) x = None \<and> watchers (pane_unsubscribe y b h) x = {}"
proof (cases "map_of (ph_sessions h) y")
  case None
  then show ?thesis by (simp add: pane_unsubscribe_def Let_def retained_def)
next
  case (Some s)
  then show ?thesis
    by (auto simp: pane_unsubscribe_eq Let_def retained_def watchers_def session_at_def closeIfUnwatched_simps)
qed

lemma retained_dropDevice:
  "retained (pane_dropDevice d h) x = retained h x
   \<or> retained (pane_dropDevice d h) x = None \<and> watchers (pane_dropDevice d h) x = {}"
proof -
  have "watchers (pane_dropDevice d h) x = set (ps_subs (swept d h x (session_at (ph_sessions h) x)))"
    by (simp add: watchers_def session_at_drop)
  then show ?thesis by (simp add: retained_def session_at_drop swept_simps(1,4) flip: set_empty)
qed

text \<open>Between publications: nothing new is retained, and what is retained goes only with the last watcher.\<close>

lemma pane_next_between:
  assumes "\<And>y f. op \<noteq> PPublish y f"
  shows "pane_seq (pane_next op h) = pane_seq h"
    and "retained (pane_next op h) x = retained h x
      \<or> retained (pane_next op h) x = None \<and> watchers (pane_next op h) x = {}"
    and "a < ph_next h \<Longrightarrow> a \<in> watchers (pane_next op h) x \<Longrightarrow> a \<in> watchers h x"
proof -
  have "pane_seq (pane_next op h) = pane_seq h \<and> (retained (pane_next op h) x = retained h x
      \<or> retained (pane_next op h) x = None \<and> watchers (pane_next op h) x = {})
    \<and> (a < ph_next h \<longrightarrow> a \<in> watchers (pane_next op h) x \<longrightarrow> a \<in> watchers h x)"
  proof (cases op)
    case (PSubscribe d y fails)
    obtain r h' where s: "pane_subscribe d y fails h = (r, h')" by fastforce
    show ?thesis
    proof (cases r)
      case None
      then show ?thesis using PSubscribe s pane_subscribe_refused(1,3,4) by fastforce
    next
      case (Some q)
      then have "pane_subscribe d y fails h = (Some (fst q, snd q), h')" using s by simp
      note v = pane_subscribe_done [OF this]
      show ?thesis using PSubscribe s v(1,3,4,7) by auto
    qed
  next
    case (PUnsubscribe y b)
    then show ?thesis using pane_unsubscribe_parts(2,4) retained_unsubscribe by auto
  next
    case (PDropDevice d)
    then show ?thesis using pane_dropDevice_parts(2,4) retained_dropDevice by auto
  qed (use assms in simp_all)
  then show "pane_seq (pane_next op h) = pane_seq h"
    and "retained (pane_next op h) x = retained h x
      \<or> retained (pane_next op h) x = None \<and> watchers (pane_next op h) x = {}"
    and "a < ph_next h \<Longrightarrow> a \<in> watchers (pane_next op h) x \<Longrightarrow> a \<in> watchers h x" by blast+
qed

lemma pane_next_elsewhere:
  assumes "pane_wf h" and "a < ph_next h" and "\<And>y f. op \<noteq> PPublish y f" and "op \<noteq> PRecv a"
  shows "pane_pending a (pane_next op h) = pane_pending a h"
proof (cases op)
  case (PSubscribe d y fails)
  obtain r h' where s: "pane_subscribe d y fails h = (r, h')" by fastforce
  show ?thesis
  proof (cases r)
    case None
    then show ?thesis using PSubscribe s pane_subscribe_refused(5) by (fastforce simp: pane_pending_def)
  next
    case (Some q)
    then have "pane_subscribe d y fails h = (Some (fst q, snd q), h')" using s by simp
    note v = pane_subscribe_done [OF this]
    show ?thesis using PSubscribe s v(5,7) assms(2) by (simp add: pane_pending_def)
  qed
next
  case (PRecv b)
  then show ?thesis using assms(1,4) by (simp add: pane_recv_pending)
qed (use assms(3) in \<open>simp_all add: pane_unsubscribe_parts(1) pane_dropDevice_parts(1)\<close>)

lemma pane_publish_elsewhere:
  "y \<noteq> x \<Longrightarrow> pane_seq (pane_publish y f h) x = pane_seq h x \<and> retained (pane_publish y f h) x = retained h x"
  by (cases "watchers h y = {}") (simp add: pane_publish_eq, simp add: pane_publish_views(3,4))

lemma newest_append: "newest (xs @ [m]) = Some m" "newest [] = None"
  by (simp_all add: newest_def)

lemma pane_bystander:
  assumes "pane_wf h" and "pane_truthful x h ps t"
    and own: "\<And>a. listening (sr_phase t) = Some a \<Longrightarrow> op \<noteq> PRecv a \<and> a < ph_next h \<and> (\<forall>y. a \<in> watchers h y \<longrightarrow> y = x)"
  shows "pane_truthful x (pane_next op h) (pane_shown x h (pane_next op h) ps) t"
proof (cases "\<exists>y f. op = PPublish y f")
  case True
  then obtain y f where op: "op = PPublish y f" by blast
  let ?h' = "pane_publish y f h"
  note w = pane_publish_same(1) [of y f h]
  show ?thesis
  proof (cases "y = x \<and> watchers h x \<noteq> {}")
    case False
    have "pane_pending a ?h' = pane_pending a h" if "listening (sr_phase t) = Some a" for a
      using own [OF that] False pane_unwatched_pending [of a h y f] by (cases "watchers h y = {}") (auto simp: pane_publish_eq)
    then have o: "pane_outlook ?h' t = pane_outlook h t" by (cases "sr_phase t") (simp_all add: pane_outlook_def)
    have "pane_seq ?h' x = pane_seq h x \<and> retained ?h' x = retained h x"
      using False pane_publish_elsewhere [of y x] by (cases "y = x") (simp_all add: pane_publish_eq)
    then show ?thesis using assms(2) o op w by (simp add: pane_truthful_def pane_shown_def)
  next
    case True
    define m where "m = \<lparr>mf_frame = PaneFrame_Clamp f, mf_seq = pane_seq h x + 1\<rparr>"
    have ne: "watchers h x \<noteq> {}" and yx: "y = x" using True by simp_all
    have v: "retained ?h' x = Some m" "pane_seq ?h' x = pane_seq h x + 1"
      using pane_publish_views(3,4) [OF ne, of f] yx by (simp_all add: m_def)
    then have sh: "pane_shown x h ?h' ps = ps @ [m]" by (simp add: pane_shown_def)
    have ss: "subseq (pane_outlook h t) ps" using assms(2) by (simp add: pane_truthful_def)
    show ?thesis
    proof (cases "\<exists>a. listening (sr_phase t) = Some a \<and> a \<in> watchers h x")
      case True
      then obtain a where a: "listening (sr_phase t) = Some a" "a \<in> watchers h x" by blast
      define xs where "xs = panes (sr_sent t)
        @ (case sr_phase t of Opened d b m \<Rightarrow> (case m of Some z \<Rightarrow> panes [z] | None \<Rightarrow> []) | _ \<Rightarrow> [])"
      have p: "pane_pending a ?h' = [m]" using pane_watched_pending [OF assms(1) a(2)] yx by (simp add: m_def)
      then have "pane_outlook h t = xs @ pane_pending a h" and o': "pane_outlook ?h' t = xs @ [m]"
        using a by (cases "sr_phase t"; simp add: pane_outlook_def xs_def)+
      then have "subseq xs ps" using ss by (metis subseq_front)
      then have "subseq (pane_outlook ?h' t) (ps @ [m])" using o' by (simp add: subseq_append)
      then show ?thesis using op sh o' v a assms(2) by (auto simp: pane_truthful_def newest_append)
    next
      case False
      have "pane_pending a ?h' = pane_pending a h" if "listening (sr_phase t) = Some a" for a
        using False that pane_unwatched_pending [of a h x f] yx by auto
      then have "pane_outlook ?h' t = pane_outlook h t" by (cases "sr_phase t") (simp_all add: pane_outlook_def)
      then show ?thesis using False op sh ss w assms(2) by (auto simp: pane_truthful_def)
    qed
  qed
next
  case False
  then have p: "\<And>y f. op \<noteq> PPublish y f" by blast
  note b = pane_next_between [OF p]
  have "pane_shown x h (pane_next op h) ps = ps" using b(1) by (simp add: pane_shown_def)
  moreover have "pane_pending a (pane_next op h) = pane_pending a h" if "listening (sr_phase t) = Some a" for a
    using own [OF that] pane_next_elsewhere [OF assms(1) _ p] by blast
  then have "pane_outlook (pane_next op h) t = pane_outlook h t"
    by (cases "sr_phase t") (simp_all add: pane_outlook_def)
  moreover have "a \<in> watchers h x \<and> retained (pane_next op h) x = retained h x"
    if "listening (sr_phase t) = Some a" "a \<in> watchers (pane_next op h) x" for a
    using own [OF that(1)] that(2) b(2) [of h x] b(3) [of a h x] by blast
  ultimately show ?thesis using assms(2) by (auto simp: pane_truthful_def)
qed

section \<open>What one step of a stream does\<close>

lemma subscribed_pane:
  "\<exists>op. snd (pane_subscribe dev sid fails (s_paneHub s)) = pane_next op (s_paneHub s)
    \<and> (\<forall>y f. op \<noteq> PPublish y f) \<and> (\<forall>a. op \<noteq> PRecv a)"
  by (rule exI [of _ "PSubscribe dev sid fails"]) simp

lemma stream_step_pane:
  assumes "stream_step (s, t) (s', t')"
  shows "s_paneHub s' = s_paneHub s \<or> (\<exists>op. s_paneHub s' = pane_next op (s_paneHub s) \<and> (\<forall>y f. op \<noteq> PPublish y f)
    \<and> (\<forall>a. op = PRecv a \<longrightarrow> of_pane t \<and> listening (sr_phase t) = Some a))"
  using assms
proof (cases rule: stream_step_split)
  case (refused now c e)
  then show ?thesis by (metis authorize_keeps(6) snd_conv)
next
  case (admitted now dev)
  then show ?thesis by (metis authorize_keeps(6) snd_conv)
next
  case (unserved dev fails c e)
  then show ?thesis using subscribe_effect [OF unserved(3)] subscribed_pane [of dev _ fails s] by auto
next
  case (subscribed dev fails a m)
  then show ?thesis using subscribe_effect [OF subscribed(3)] subscribed_pane [of dev _ fails s] by auto
next
  case (update dev a x)
  then show ?thesis by (cases "sr_req t") (auto simp: of_pane_def Let_def split: prod.split_asm intro: exI [of _ "PRecv a"])
next
  case (update_breaks dev a x)
  then show ?thesis by (cases "sr_req t") (auto simp: of_pane_def Let_def split: prod.split_asm intro: exI [of _ "PRecv a"])
next
  case (returns dev a e)
  then show ?thesis by (cases "sr_req t") (auto intro: exI [of _ "PUnsubscribe (TrimSpace _) a"])
qed auto

lemma pane_outlook_ends:
  assumes "pane_truthful x h ps t" and "pane_coming h' (sr_phase t') = []" and "listening (sr_phase t') = None"
    and "panes (sr_sent t') = panes (sr_sent t)"
    and "sr_phase t' \<noteq> Arrived" "\<And>d. sr_phase t' \<noteq> Authorized d"
  shows "pane_truthful x h' ps t'"
proof -
  have "subseq (panes (sr_sent t)) ps"
    using assms(1) subseq_front unfolding pane_truthful_def pane_outlook_def by blast
  then show ?thesis using assms(2-) by (simp add: pane_truthful_def pane_outlook_def)
qed

lemma pane_truthful_own:
  assumes "stream_step (s, t) (s', t')" and "srv_wf s" and "for_session x t" and "pane_truthful x (s_paneHub s) ps t"
    and cur: "\<And>m. retained (s_paneHub s) x = Some m \<Longrightarrow> ps \<noteq> [] \<and> last ps = m"
  shows "pane_truthful x (s_paneHub s') ps t'"
proof -
  have wf: "pane_wf (s_paneHub s)" using assms(2) by (simp add: srv_wf_def)
  obtain auth sid where r: "sr_req t = PaneReq auth sid" "TrimSpace sid = x" using assms(3) by (auto simp: for_session_def)
  show ?thesis
    using assms(1)
  proof (cases rule: stream_step_split)
    case (admitted now dev)
    then show ?thesis using assms(4) by (simp add: pane_truthful_def pane_outlook_def)
  next
    case (subscribed dev fails a m)
    obtain op h where p: "pane_subscribe dev x fails (s_paneHub s) = (Some (a, op), h)"
      and s': "s' = s\<lparr>s_paneHub := h\<rparr>" "m = map_option SentPane op"
      using subscribed r by (auto split: if_split_asm option.split_asm prod.split_asm)
    note v = pane_subscribe_done [OF p]
    have "pane_pending a h = []" using v(5) by (simp add: pane_pending_def)
    moreover have "retained h x = op" using v(3,9) by simp
    moreover have "subseq [y] ps" if "op = Some y" for y
      using cur [of y] v(9) that by (simp add: subseq_singleton_left) (metis last_in_set)
    moreover have "panes (sr_sent t') = []" using subscribed assms(4) by (simp add: pane_truthful_def)
    ultimately show ?thesis using subscribed s'
      by (cases op) (simp_all add: pane_truthful_def pane_outlook_def newest_def)
  next
    case (opens dev a m)
    then show ?thesis using assms(4) by (cases m) (simp_all add: pane_truthful_def pane_outlook_def)
  next
    case (update dev a y)
    obtain f h where g: "pane_recv a (s_paneHub s) = (Some f, h)" "y = SentPane f" "s' = s\<lparr>s_paneHub := h\<rparr>"
      using update r by (auto simp: Let_def split: prod.split_asm)
    have h: "h = snd (pane_recv a (s_paneHub s))" using g by simp
    have "length (pane_pending a (s_paneHub s)) \<le> 1"
      using fan_wf_slot [OF pane_wf_parts(5) [OF wf], of a] by (auto simp: pane_pending_def split: option.split)
    then have "pane_pending a (s_paneHub s) = [f]"
      using g(1) pane_recv_fst [of a "s_paneHub s"] by (auto split: list.split_asm)
    moreover have "pane_pending a h = []" unfolding h by (simp add: pane_recv_pending [OF wf])
    moreover have "watchers h = watchers (s_paneHub s)" "retained h = retained (s_paneHub s)"
      unfolding h by simp_all
    ultimately show ?thesis using update g assms(4) by (simp add: pane_truthful_def pane_outlook_def)
  next
    case (heartbeat dev a)
    then show ?thesis using assms(4) by (simp add: pane_truthful_def pane_outlook_def)
  qed (rule pane_outlook_ends [OF assms(4)]; simp)+
qed

lemma pane_step_listening:
  assumes "stream_step (s, t) (s', t')" and "of_pane t"
  shows "listening (sr_phase t') \<in> {None, listening (sr_phase t), Some (ph_next (s_paneHub s))}"
  using assms(1)
proof (cases rule: stream_step_split)
  case (subscribed dev fails a m)
  then obtain sid op h where "pane_subscribe dev sid fails (s_paneHub s) = (Some (a, op), h)"
    using assms(2) by (auto simp: of_pane_def split: if_split_asm option.split_asm prod.split_asm)
  from pane_subscribe_done(7) [OF this] show ?thesis using subscribed by simp
qed simp_all

section \<open>Every run\<close>

definition pane_inv :: "string \<Rightarrow> paneFrameMsg list \<Rightarrow> 'ts host \<Rightarrow> bool" where
  "pane_inv x ps c \<longleftrightarrow> host_inv c \<and> apart of_pane (ho_streams c)
     \<and> (\<forall>m. retained (s_paneHub (ho_srv c)) x = Some m \<longrightarrow> ps \<noteq> [] \<and> last ps = m)
     \<and> (\<forall>t \<in> set (ho_streams c). for_session x t \<longrightarrow> pane_truthful x (s_paneHub (ho_srv c)) ps t)"

lemma pane_inv_parts:
  assumes "pane_inv x ps c"
  shows "host_inv c" "srv_wf (ho_srv c)" "pane_wf (s_paneHub (ho_srv c))" "apart of_pane (ho_streams c)"
    "retained (s_paneHub (ho_srv c)) x = Some m \<Longrightarrow> ps \<noteq> [] \<and> last ps = m"
    "t \<in> set (ho_streams c) \<Longrightarrow> for_session x t \<Longrightarrow> pane_truthful x (s_paneHub (ho_srv c)) ps t"
  using assms by (simp_all add: pane_inv_def host_inv_def srv_wf_def)

text \<open>A subscriber a pane stream listens at is on the heap and serves that session alone.\<close>

lemma pane_known:
  assumes "host_inv c" and "t \<in> set (ho_streams c)" and "of_pane t" and "listening (sr_phase t) = Some a"
  shows "a < ph_next (s_paneHub (ho_srv c))"
    and "for_session x t \<Longrightarrow> a \<in> watchers (s_paneHub (ho_srv c)) y \<Longrightarrow> y = x"
proof -
  have i: "stream_inv (ho_srv c) t" using assms(1,2) by (simp add: host_inv_def list_all_iff)
  obtain d where d: "held (sr_phase t) = Some (d, a)" using listening_held [OF assms(4)] by blast
  have "map_of (ph_heap (s_paneHub (ho_srv c))) a \<noteq> None"
    using i d assms(3) by (auto simp: stream_inv_def of_pane_def)
  moreover have "pane_wf (s_paneHub (ho_srv c))" using assms(1) by (simp add: host_inv_def srv_wf_def)
  ultimately show "a < ph_next (s_paneHub (ho_srv c))"
    using pane_wf_parts(5) by (fastforce simp: fan_wf_def)
  show "for_session x t \<Longrightarrow> a \<in> watchers (s_paneHub (ho_srv c)) y \<Longrightarrow> y = x"
    using i d by (auto simp: stream_inv_def for_session_def)
qed

lemma pane_shown_current:
  assumes "h' = h \<or> (\<exists>op. h' = pane_next op h)" and "\<And>m. retained h x = Some m \<Longrightarrow> ps \<noteq> [] \<and> last ps = m"
    and "retained h' x = Some m"
  shows "pane_shown x h h' ps \<noteq> [] \<and> last (pane_shown x h h' ps) = m"
proof (cases "pane_seq h' x = pane_seq h x")
  case True
  note unmoved = this
  have same: "retained h x = Some m"
  proof (cases "\<exists>y f. h' = pane_publish y f h")
    case True
    then obtain y f where p: "h' = pane_publish y f h" by blast
    have "pane_seq (pane_publish x f h) x = pane_seq h x + 1" if "watchers h x \<noteq> {}"
      by (simp add: pane_publish_views(4) [OF that])
    then have "y \<noteq> x \<or> watchers h x = {}" using p unmoved by force
    then show ?thesis using p assms(3) pane_publish_elsewhere [of y x] by (cases "y = x") (simp_all add: pane_publish_eq)
  next
    case False
    have "h' = h \<or> (\<exists>op. h' = pane_next op h \<and> (\<forall>y f. op \<noteq> PPublish y f))"
      using assms(1) False pane_next.simps(1) by metis
    then show ?thesis using assms(3) pane_next_between(2) by (metis option.distinct(1))
  qed
  then show ?thesis using assms(2) same True by (simp add: pane_shown_def)
next
  case False
  then show ?thesis using assms(3) by (simp add: pane_shown_def)
qed

lemma pane_quiet:
  assumes "pane_inv x ps c" and "quiet_step (ho_srv c) s'"
  shows "pane_inv x (pane_shown x (s_paneHub (ho_srv c)) (s_paneHub s') ps) (c\<lparr>ho_srv := s', ho_revs := rs, ho_calls := qs\<rparr>)"
proof -
  let ?h = "s_paneHub (ho_srv c)"
  note p = pane_inv_parts [OF assms(1)]
  consider (same) "s_paneHub s' = ?h" | (op) op where "s_paneHub s' = pane_next op ?h" "\<And>a. op \<noteq> PRecv a"
    using assms(2) unfolding quiet_step_def by blast
  then have "pane_truthful x (s_paneHub s') (pane_shown x ?h (s_paneHub s') ps) t"
    if t: "t \<in> set (ho_streams c)" "for_session x t" for t
  proof cases
    case same
    then show ?thesis using p(6) t by (simp add: pane_shown_def)
  next
    case op
    have "of_pane t" using t(2) by (auto simp: for_session_def of_pane_def)
    then show ?thesis unfolding op(1)
      using op(2) pane_known [OF p(1) t(1)] t(2) by (intro pane_bystander [OF p(3) p(6) [OF t]]) blast
  qed
  moreover have "s_paneHub s' = ?h \<or> (\<exists>op. s_paneHub s' = pane_next op ?h)"
    using assms(2) by (auto simp: quiet_step_def)
  note pane_shown_current [OF this p(5)]
  ultimately show ?thesis using p(4) host_inv_quiet [OF p(1) assms(2)] by (simp add: pane_inv_def)
qed

lemma for_session_pane: "for_session x t \<Longrightarrow> of_pane t"
  by (auto simp: for_session_def of_pane_def)

lemma pane_stream:
  assumes "pane_inv x ps c" and "k < length (ho_streams c)"
    and "stream_step (ho_srv c, ho_streams c ! k) (s', t')"
  shows "pane_inv x (pane_shown x (s_paneHub (ho_srv c)) (s_paneHub s') ps)
    (c\<lparr>ho_srv := s', ho_streams := (ho_streams c)[k := t']\<rparr>)"
proof -
  let ?s = "ho_srv c" and ?ts = "ho_streams c"
  let ?h = "s_paneHub ?s" and ?c' = "c\<lparr>ho_srv := s', ho_streams := ?ts[k := t']\<rparr>"
  note p = pane_inv_parts [OF assms(1)]
  have known: "a < ph_next ?h \<and> (for_session x (?ts ! j) \<longrightarrow> (\<forall>y. a \<in> watchers ?h y \<longrightarrow> y = x))"
    if "j < length ?ts" "of_pane (?ts ! j)" "listening (sr_phase (?ts ! j)) = Some a" for j a
    using pane_known [OF p(1) nth_mem [OF that(1)] that(2,3)] by blast
  note req = stream_step_req [OF assms(3)]
  have st: "of_pane t' = of_pane (?ts ! k)" "for_session x t' = for_session x (?ts ! k)"
    using req by (simp_all add: of_pane_def for_session_def)
  from stream_step_pane [OF assms(3)] consider (same) "s_paneHub s' = ?h"
    | (op) op where "s_paneHub s' = pane_next op ?h" "\<And>y f. op \<noteq> PPublish y f"
      "\<And>a. op = PRecv a \<Longrightarrow> of_pane (?ts ! k) \<and> listening (sr_phase (?ts ! k)) = Some a" by blast
  note pane_cases = this
  have sh: "pane_shown x ?h (s_paneHub s') ps = ps"
  proof (cases rule: pane_cases)
    case op
    then show ?thesis using pane_next_between(1) by (simp add: pane_shown_def)
  qed (simp add: pane_shown_def)
  have "pane_truthful x (s_paneHub s') ps t'" if "for_session x t'"
    using pane_truthful_own [OF assms(3) p(2) _ _ p(5)] p(6) [of "?ts ! k"] st that assms(2) by simp
  moreover have "pane_truthful x (s_paneHub s') ps (?ts ! j)" if j: "j < length ?ts" "j \<noteq> k" "for_session x (?ts ! j)" for j
  proof (cases rule: pane_cases)
    case same
    then show ?thesis using p(6) j by simp
  next
    case op
    note oj = for_session_pane [OF j(3)]
    have "op \<noteq> PRecv a" if "listening (sr_phase (?ts ! j)) = Some a" for a
      using that op(3) [of a] p(4) j oj assms(2) unfolding apart_def by fastforce
    then have "pane_truthful x (pane_next op ?h) (pane_shown x ?h (pane_next op ?h) ps) (?ts ! j)"
      using known [OF j(1) oj] j(3) by (intro pane_bystander [OF p(3) p(6) [OF nth_mem [OF j(1)] j(3)]]) blast
    then show ?thesis using op(1) sh by simp
  qed
  ultimately have "\<forall>t \<in> set (?ts[k := t']). for_session x t \<longrightarrow> pane_truthful x (s_paneHub s') ps t"
    using assms(2) by (auto simp: in_set_conv_nth nth_list_update split: if_split_asm)
  moreover have "host_inv ?c'"
    by (rule host_inv_step [OF host_step.goes_on [OF assms(2,3)] p(1)])
  moreover have "apart of_pane (?ts[k := t'])"
    by (rule apart_update [OF p(4) assms(2) st(1) pane_step_listening [OF assms(3)]]) (use known in blast)+
  moreover have "s_paneHub s' = ?h \<or> (\<exists>op. s_paneHub s' = pane_next op ?h)"
    using pane_cases by metis
  then have "\<forall>m. retained (s_paneHub s') x = Some m \<longrightarrow> ps \<noteq> [] \<and> last ps = m"
    using pane_shown_current [of "s_paneHub s'" ?h x ps] p(5) sh by simp
  ultimately show ?thesis by (simp add: pane_inv_def sh)
qed

lemma pane_step:
  assumes "host_step lb c c'" and "pane_inv x ps c"
  shows "pane_inv x (pane_shown x (s_paneHub (ho_srv c)) (s_paneHub (ho_srv c')) ps) c'"
  using assms(1)
proof (cases rule: host_step.cases)
  case (arrives r)
  have "pane_truthful x h ps \<lparr>sr_req = r, sr_phase = Arrived, sr_sent = []\<rparr>" for h
    by (simp add: pane_truthful_def pane_outlook_def)
  moreover have "apart of_pane (ho_streams c')"
    using assms(2) arrives by (simp add: pane_inv_def apart_new)
  ultimately show ?thesis
    using assms(2) arrives host_inv_step [OF assms(1)] by (simp add: pane_inv_def pane_shown_def)
next
  case (goes_on k s' t')
  then show ?thesis using pane_stream [OF assms(2) goes_on(2,3)] by simp
next
  case (revoke i io now)
  then show ?thesis using assms(2) host_inv_step [OF assms(1)] by (simp add: pane_inv_def pane_shown_def)
next
  case (revokes j p s')
  have "quiet_step (ho_srv c) s'"
    using revoke_next_quiet revokes(3) pane_inv_parts(2) [OF assms(2)] by metis
  from pane_quiet [OF assms(2) this, of "ho_calls c"] show ?thesis using revokes(1) by simp
next
  case (calls q)
  then show ?thesis using assms(2) host_inv_step [OF assms(1)] by (simp add: pane_inv_def pane_shown_def)
next
  case (proceeds k p s')
  have "quiet_step (ho_srv c) s'"
    using call_next_quiet proceeds(3) pane_inv_parts(2) [OF assms(2)] by metis
  from pane_quiet [OF assms(2) this, of _ "ho_revs c"] show ?thesis using proceeds(1) by simp
next
  case (other op)
  have "quiet_step (ho_srv c) (srv_step lb op (ho_srv c))"
    by (rule one_step_quiet [OF other(2) pane_inv_parts(2) [OF assms(2)]])
  from pane_quiet [OF assms(2) this, of "ho_calls c" "ho_revs c"] show ?thesis using other(1) by simp
qed

lemma pane_inv_start:
  "idle_server s \<Longrightarrow> pane_inv x (case retained (s_paneHub s) x of None \<Rightarrow> [] | Some m \<Rightarrow> [m]) (fresh_host s)"
  using host_inv_start [of s] by (simp add: pane_inv_def fresh_host_def apart_def split: option.split)

lemma pane_inv_runs:
  assumes "pane_runs lb x (fresh_host s) ps c" and "idle_server s"
  shows "pane_inv x ps c"
  using assms
proof (induction rule: pane_runs.induct)
  case starts
  then show ?case using pane_inv_start [OF starts, of x] by (simp add: fresh_host_def)
next
  case (continues ps c c')
  then show ?case by (simp add: pane_step)
qed

section \<open>The numbers of the history\<close>

lemma host_step_pane:
  assumes "host_step lb c c'" and "host_inv c"
  shows "s_paneHub (ho_srv c') = s_paneHub (ho_srv c) \<or> (\<exists>op. s_paneHub (ho_srv c') = pane_next op (s_paneHub (ho_srv c)))"
proof -
  have wf: "srv_wf (ho_srv c)" using assms(2) by (simp add: host_inv_def)
  have quiet: "s_paneHub s' = s_paneHub (ho_srv c) \<or> (\<exists>op. s_paneHub s' = pane_next op (s_paneHub (ho_srv c)))"
    if "quiet_step (ho_srv c) s'" for s'
    using that by (auto simp: quiet_step_def)
  show ?thesis
    using assms(1)
  proof (cases rule: host_step.cases)
    case (goes_on k s' t')
    then show ?thesis using stream_step_pane [OF goes_on(3)] by auto
  next
    case (proceeds k p s')
    then show ?thesis using quiet [OF call_next_quiet [OF wf proceeds(3)]] by simp
  next
    case (revokes j p s')
    then show ?thesis using quiet [OF revoke_next_quiet [OF wf revokes(3)]] by simp
  next
    case (other op)
    then show ?thesis using quiet [OF one_step_quiet [OF other(2) wf]] by simp
  qed simp_all
qed

lemma pane_next_number:
  assumes "pane_seq (pane_next op h) x \<noteq> pane_seq h x"
  shows "\<exists>m. retained (pane_next op h) x = Some m \<and> mf_seq m = pane_seq h x + 1
    \<and> pane_seq (pane_next op h) x = pane_seq h x + 1"
proof -
  obtain y f where op: "op = PPublish y f" using assms pane_next_between(1) by metis
  have ne: "watchers h y \<noteq> {}" using assms op by (auto simp: pane_publish_eq)
  then have "y = x" using assms op by (auto simp: pane_publish_views(4))
  then show ?thesis using op ne pane_publish_views(3,4) [of h x f] by simp
qed

definition numbered :: "string \<Rightarrow> paneHub \<Rightarrow> paneFrameMsg list \<Rightarrow> bool" where
  "numbered x h ps \<longleftrightarrow> (ps \<noteq> [] \<longrightarrow> mf_seq (last ps) = pane_seq h x)
     \<and> (\<forall>i. Suc i < length ps \<longrightarrow> mf_seq (ps ! Suc i) = mf_seq (ps ! i) + 1)"

lemma numbered_shown:
  assumes "h' = h \<or> (\<exists>op. h' = pane_next op h)" and "numbered x h ps"
  shows "numbered x h' (pane_shown x h h' ps)"
proof (cases "pane_seq h' x = pane_seq h x")
  case False
  then obtain m where m: "retained h' x = Some m" "mf_seq m = pane_seq h x + 1" "pane_seq h' x = pane_seq h x + 1"
    using assms(1) pane_next_number by metis
  have "mf_seq ((ps @ [m]) ! Suc i) = mf_seq ((ps @ [m]) ! i) + 1" if "Suc i < length (ps @ [m])" for i
  proof (cases "Suc i < length ps")
    case False
    then have "Suc i = length ps" using that by simp
    then have "ps \<noteq> []" "i = length ps - 1" by auto
    then show ?thesis using assms(2) m(2) \<open>Suc i = length ps\<close> by (simp add: numbered_def nth_append last_conv_nth)
  qed (use assms(2) in \<open>simp add: numbered_def nth_append\<close>)
  then show ?thesis using m by (simp add: numbered_def pane_shown_def)
qed (use assms(2) in \<open>simp add: numbered_def pane_shown_def\<close>)

lemma pane_runs_numbered:
  assumes "pane_runs lb x (fresh_host s) ps c" and "idle_server s"
  shows "numbered x (s_paneHub (ho_srv c)) ps"
  using assms
proof (induction rule: pane_runs.induct)
  case starts
  have "pane_wf (s_paneHub s)" using starts by (simp add: idle_server_def srv_wf_def)
  from pane_wf_parts(4) [OF this, of x] show ?case by (auto simp: numbered_def fresh_host_def split: option.split)
next
  case (continues ps c c')
  note pane_inv_parts(1) [OF pane_inv_runs [OF continues(1,4)]]
  from host_step_pane [OF continues(2) this] show ?case
    by (rule numbered_shown) (rule continues(3) [OF continues(4)])
qed

section \<open>Property\<close>

lemma pane_truthful_sent: "pane_truthful x h ps t \<Longrightarrow> subseq (panes (sr_sent t)) ps"
  using subseq_front unfolding pane_truthful_def pane_outlook_def by blast

text \<open>C20: A pane stream tells the truth about its session. However publications, calls, other streams
  and revocations interleave with it, what a \<^verbatim>\<open>WatchPane\<close> stream has sent is a subsequence of the frames
  the hub retained for that session, one after the other, and their numbers go up by one from each to the
  next, also across the times nobody watched: it may skip frames, but sends none twice, out of order, of
  another session, or that was never retained. And while the hub serves it, the retained frame either
  waits for its next receive or is the last one it has sent.\<close>
theorem pane_stream_tells_truth:
  assumes "idle_server s" and "pane_runs lb (TrimSpace sid) (fresh_host s) ps c"
    and "t \<in> set (ho_streams c)" and "sr_req t = PaneReq auth sid"
  shows "subseq (panes (sr_sent t)) ps
    \<and> (\<forall>i. Suc i < length ps \<longrightarrow> mf_seq (ps ! Suc i) = mf_seq (ps ! i) + 1)
    \<and> (\<forall>d a. sr_phase t = Watching d a \<and> a \<in> watchers (s_paneHub (ho_srv c)) (TrimSpace sid) \<longrightarrow>
        (\<exists>m. retained (s_paneHub (ho_srv c)) (TrimSpace sid) = Some m \<and> pane_pending a (s_paneHub (ho_srv c)) = [m])
        \<or> retained (s_paneHub (ho_srv c)) (TrimSpace sid)
            = (if panes (sr_sent t) = [] then None else Some (last (panes (sr_sent t)))))"
proof -
  let ?x = "TrimSpace sid" and ?h = "s_paneHub (ho_srv c)"
  note p = pane_inv_parts [OF pane_inv_runs [OF assms(2,1)]]
  have tr: "pane_truthful ?x ?h ps t" using p(6) [OF assms(3)] assms(4) by (simp add: for_session_def)
  have "(\<exists>m. retained ?h ?x = Some m \<and> pane_pending a ?h = [m]) \<or> retained ?h ?x = newest (panes (sr_sent t))"
    if w: "sr_phase t = Watching d a" "a \<in> watchers ?h ?x" for d a
  proof (cases "pane_pending a ?h")
    case Nil
    then show ?thesis using tr w by (simp add: pane_truthful_def pane_outlook_def)
  next
    case (Cons m ms)
    have "length (pane_pending a ?h) \<le> 1"
      using fan_wf_slot [OF pane_wf_parts(5) [OF p(3)], of a] by (auto simp: pane_pending_def split: option.split)
    then show ?thesis using Cons pane_wf_parts(7) [OF p(3) w(2), of m] by simp
  qed
  then show ?thesis
    using pane_truthful_sent [OF tr] pane_runs_numbered [OF assms(2,1)] unfolding newest_def numbered_def by blast
qed

lemma pane_runs_exists: "host_runs lb c0 c \<Longrightarrow> \<exists>ps. pane_runs lb x c0 ps c"
  by (induction rule: host_runs.induct) (auto intro: pane_runs.intros)

text \<open>A phone opens the pane of session s, a frame is published and sent.\<close>

lemma demo_pane_run:
  "\<exists>m c. host_runs demo_libs (fresh_host demo_paired) c
    \<and> ho_streams c = [\<lparr>sr_req = PaneReq (bearerPrefix @ ''tok'') ''s'', sr_phase = Watching ''phone'' 0, sr_sent = [SentPane m]\<rparr>]"
proof -
  let ?r = "PaneReq (bearerPrefix @ ''tok'') ''s''"
  let ?t = "\<lparr>sr_req = ?r, sr_phase = Arrived, sr_sent = []\<rparr>"
  let ?s1 = "snd (authorize (bearerPrefix @ ''tok'') CapSessionRead 5 demo_paired)"
  let ?h2 = "snd (pane_subscribe ''phone'' ''s'' False (newPaneHub True))"
  let ?s2 = "?s1\<lparr>s_paneHub := ?h2\<rparr>"
  let ?s3 = "srv_step demo_libs (SPublishPane ''s'' demo_pane) ?s2"
  let ?s4 = "snd (stream_recv ?r 0 ?s3)"
  let ?m = "\<lparr>mf_frame = PaneFrame_Clamp demo_pane, mf_seq = 1\<rparr>"
  let ?c = "fresh_host demo_paired :: gotime host"
  have "fst (authorize (bearerPrefix @ ''tok'') CapSessionRead 5 demo_paired) = Reply ''phone''"
    by (rule demo_authorize) (simp_all add: DefaultCapabilities_def)
  then have au: "authorize (bearerPrefix @ ''tok'') CapSessionRead 5 demo_paired = (Reply ''phone'', ?s1)"
    by (simp add: prod_eq_iff)
  have hub: "s_paneHub demo_paired = newPaneHub True" by (simp add: demo_paired_def demo_server_def)
  have tr: "TrimSpace ''s'' = ''s''" by code_simp
  have ps: "pane_subscribe ''phone'' ''s'' False (newPaneHub True) = (Some (0, None), ?h2)"
    by (simp add: pane_subscribe_def newPaneHub_def session_at_def new_paneSession_def Let_def)
  have "ph_source (newPaneHub True)" by (simp add: newPaneHub_def)
  with ps have su: "stream_subscribe ?r ''phone'' False ?s1 = (Reply (0, None), ?s2)"
    by (cases "pane_subscribe ''phone'' ''s'' False (newPaneHub True)") (simp add: hub tr MaxAskIDLen_def)
  have rc: "stream_recv ?r 0 ?s3 = (Some (SentPane ?m), ?s4)"
    by (simp add: hub PublishPane_def pane_publish_def pane_subscribe_def newPaneHub_def session_at_def
        new_paneSession_def Let_def pane_recv_def heap_mod_def new_subscriber_def try_recv_def offer_eq)
  have r1: "host_runs demo_libs ?c (?c\<lparr>ho_streams := [?t]\<rparr>)"
    using host_runs.more [OF host_runs.stay host_step.arrives, of demo_libs ?c ?r] by (simp add: fresh_host_def)
  have r2: "host_runs demo_libs ?c (?c\<lparr>ho_srv := ?s1, ho_streams := [goes ?t (Authorized ''phone'')]\<rparr>)"
    using reach_stream [OF r1 _ stream_step.admitted, of ?t 5 "''phone''" ?s1] au by (simp add: fresh_host_def)
  have r3: "host_runs demo_libs ?c (?c\<lparr>ho_srv := ?s2, ho_streams := [goes ?t (Opened ''phone'' 0 None)]\<rparr>)"
    using reach_stream [OF r2 _ stream_step.subscribed, of "goes ?t (Authorized ''phone'')" "''phone''" False 0 None ?s2] su
    by (simp add: fresh_host_def)
  have r4: "host_runs demo_libs ?c (?c\<lparr>ho_srv := ?s2, ho_streams := [goes ?t (Watching ''phone'' 0)]\<rparr>)"
    using reach_stream [OF r3 _ stream_step.opens, of "goes ?t (Opened ''phone'' 0 None)" "''phone''" 0 None]
    by (simp add: fresh_host_def)
  have r5: "host_runs demo_libs ?c (?c\<lparr>ho_srv := ?s3, ho_streams := [goes ?t (Watching ''phone'' 0)]\<rparr>)"
    using host_runs.more [OF r4 host_step.other, of "SPublishPane ''s'' demo_pane"] by (simp add: fresh_host_def)
  have "host_runs demo_libs ?c (?c\<lparr>ho_srv := ?s4, ho_streams := [sends ?t [SentPane ?m] (Watching ''phone'' 0)]\<rparr>)"
    using reach_stream [OF r5 _ stream_step.update, of "goes ?t (Watching ''phone'' 0)" "''phone''" 0 "SentPane ?m" ?s4] rc
    by (simp add: fresh_host_def)
  then show ?thesis by (intro exI conjI) (assumption, simp)
qed

theorem pane_stream_tells_truth_witness:
  "\<exists>m ps c. pane_runs demo_libs ''s'' (fresh_host demo_paired) ps c
    \<and> panes (sr_sent (ho_streams c ! 0)) = [m] \<and> subseq [m] ps"
proof -
  let ?t = "\<lambda>m. \<lparr>sr_req = PaneReq (bearerPrefix @ ''tok'') ''s'', sr_phase = Watching ''phone'' 0, sr_sent = [SentPane m]\<rparr>"
  have tr: "TrimSpace ''s'' = ''s''" by code_simp
  obtain m c where c: "host_runs demo_libs (fresh_host demo_paired) c" "ho_streams c = [?t m]"
    using demo_pane_run by blast
  obtain ps where ps: "pane_runs demo_libs ''s'' (fresh_host demo_paired) ps c"
    using pane_runs_exists [OF c(1)] by blast
  have "subseq (panes (sr_sent (?t m))) ps"
    using pane_stream_tells_truth [OF demo_paired_idle, of demo_libs "''s''" ps c "?t m" "bearerPrefix @ ''tok''"] ps c(2) tr by simp
  then show ?thesis using ps c(2) by fastforce
qed

end
