(* ===== verification/History.thy ===== *)
theory History
  imports Gate
begin

text \<open>
  Every access has a history. Read backwards from a header that gets past \<^verbatim>\<open>authorize\<close>
  (\<^verbatim>\<open>src/link/server.go\<close>), a run of the server contains the login that minted its token, before that the
  challenge whose nonce was answered, and the pairing that brought the verifying key into the book.
\<close>

section \<open>Where a fact of a state comes from\<close>

lemma run_origin:
  assumes inv: "\<And>s op. I s \<Longrightarrow> ok op \<Longrightarrow> I (step op s)"
    and orig: "\<And>s op. I s \<Longrightarrow> ok op \<Longrightarrow> P (step op s) \<Longrightarrow> P s \<or> Q op s"
    and "I s" and "list_all ok ops" and "P (fold step ops s)" and "\<not> P s"
  shows "\<exists>b op a. ops = b @ op # a \<and> I (fold step b s) \<and> Q op (fold step b s)
    \<and> (\<forall>n \<le> length a. P (fold step (take n a) (step op (fold step b s))))"
  using assms(4,5)
proof (induction ops rule: rev_induct)
  case Nil
  then show ?case using assms(6) by simp
next
  case (snoc op ops)
  let ?s = "fold step ops s"
  have ok: "list_all ok ops" "ok op" using snoc.prems(1) by simp_all
  have I: "I ?s" using ok(1) assms(3) by (induction ops rule: rev_induct) (simp_all add: inv)
  have P: "P (step op ?s)" using snoc.prems(2) by simp
  show ?case
  proof (cases "P ?s")
    case True
    then obtain b o' a where a: "ops = b @ o' # a" "I (fold step b s)" "Q o' (fold step b s)"
      and since: "\<forall>n \<le> length a. P (fold step (take n a) (step o' (fold step b s)))"
      using snoc.IH [OF ok(1)] by blast
    have "P (fold step (take n (a @ [op])) (step o' (fold step b s)))" if "n \<le> length (a @ [op])" for n
    proof (cases "n \<le> length a")
      case True
      then show ?thesis using since by simp
    next
      case False
      then have "take n (a @ [op]) = a @ [op]" using that by simp
      then show ?thesis using P a(1) by simp
    qed
    then show ?thesis using a by (intro exI [of _ b] exI [of _ o'] exI [of _ "a @ [op]"]) simp
  next
    case False
    then have "Q op ?s" using orig [OF I ok(2) P] by blast
    then show ?thesis using P I by (intro exI [of _ ops] exI [of _ op] exI [of _ "[]"]) simp
  qed
qed

section \<open>Sessions\<close>

lemma gate_next_session:
  "ga_sessions (gate_next ev g) tok = Some (i, e) \<Longrightarrow> ga_sessions g tok = Some (i, e) \<or> ev = LogsIn i tok e"
  by (cases ev) (auto split: option.split_asm if_split_asm)

lemma gate_fold_session:
  "ga_sessions (fold gate_next evs g) tok = Some (i, e) \<Longrightarrow> ga_sessions g tok = Some (i, e) \<or> LogsIn i tok e \<in> set evs"
  by (induction evs arbitrary: g) (auto dest: gate_next_session)

lemma event_LogsIn:
  "LogsIn i tok e \<in> set (gate_events lb op s) \<Longrightarrow>
   \<exists>io rnd t1 t2 t3 m x. op = SAuthenticate io rnd t1 t2 t3 m \<and> fst (Authenticate lb io rnd t1 t2 t3 m s) = Reply x
     \<and> i = aq_DeviceId m \<and> tok = ax_SessionToken x \<and> e = t2 + tokenTTL"
  by (cases op) (auto dest!: sym [of "Reply _"] split: reply.split_asm if_split_asm cause.split_asm reg_error.split_asm)

lemma event_EndsSessions:
  assumes "EndsSessions i \<in> set (gate_events lb op s)"
  shows "ga_sessions (fold gate_next (gate_events lb op s) g) tok \<noteq> Some (i, e)"
proof -
  obtain ev j where "gate_events lb op s = [ev, EndsSessions j]" "i = j"
    using assms by (cases op) (auto split: reply.split_asm if_split_asm cause.split_asm reg_error.split_asm)
  then show ?thesis by (simp split: option.split)
qed

lemma session_origin:
  assumes "srv_wf s" and "list_all stream_op ops" and "tk_sessions (s_tokens s) = []"
    and "ga_sessions (gate_of (fold (srv_step lb) ops s)) tok = Some (i, e)"
  shows "\<exists>before io rnd t1 t2 t3 m after x. ops = before @ SAuthenticate io rnd t1 t2 t3 m # after
    \<and> fst (Authenticate lb io rnd t1 t2 t3 m (fold (srv_step lb) before s)) = Reply x
    \<and> aq_DeviceId m = i \<and> ax_SessionToken x = tok \<and> e = t2 + tokenTTL
    \<and> (\<forall>b op a. after = b @ op # a \<longrightarrow> EndsSessions i \<notin> set (gate_events lb op
         (fold (srv_step lb) (before @ SAuthenticate io rnd t1 t2 t3 m # b) s)))"
proof -
  let ?P = "\<lambda>s. ga_sessions (gate_of s) tok = Some (i, e)"
  let ?Q = "\<lambda>op s. LogsIn i tok e \<in> set (gate_events lb op s)"
  have o: "?P (srv_step lb op s) \<Longrightarrow> ?P s \<or> ?Q op s" if "srv_wf s" for op s
    using gate_step [OF that, of lb op] gate_fold_session [of "gate_events lb op s" "gate_of s" tok i e] by simp
  have n: "\<not> ?P s" using assms(3) by simp
  obtain before op after where ops: "ops = before @ op # after" and Q: "?Q op (fold (srv_step lb) before s)"
    and since: "\<forall>n \<le> length after. ?P (fold (srv_step lb) (take n after) (srv_step lb op (fold (srv_step lb) before s)))"
    and wf0: "srv_wf (fold (srv_step lb) before s)"
    using run_origin [where I = srv_wf and ok = stream_op and step = "srv_step lb" and P = ?P and Q = ?Q,
        OF srv_wf_step o assms(1,2,4) n] by blast
  have wf: "srv_wf (fold (srv_step lb) xs s)" if "list_all stream_op xs" for xs
    by (rule srv.run_inv [OF assms(1) that])
  have "EndsSessions i \<notin> set (gate_events lb o' (fold (srv_step lb) (before @ op # b) s))"
    if a: "after = b @ o' # a" for b o' a
  proof
    let ?s = "fold (srv_step lb) (before @ op # b) s"
    assume ends: "EndsSessions i \<in> set (gate_events lb o' ?s)"
    have "list_all stream_op (before @ op # b)" using assms(2) ops a by simp
    then have "gate_of (srv_step lb o' ?s) = fold gate_next (gate_events lb o' ?s) (gate_of ?s)"
      by (rule gate_step [OF wf])
    then have "\<not> ?P (srv_step lb o' ?s)" using event_EndsSessions [OF ends] by simp
    moreover have "?P (srv_step lb o' ?s)" using since [rule_format, of "Suc (length b)"] a by simp
    ultimately show False by blast
  qed
  moreover obtain io rnd t1 t2 t3 m x where "op = SAuthenticate io rnd t1 t2 t3 m"
    "fst (Authenticate lb io rnd t1 t2 t3 m (fold (srv_step lb) before s)) = Reply x"
    "i = aq_DeviceId m" "tok = ax_SessionToken x" "e = t2 + tokenTTL"
    using event_LogsIn [OF Q] by blast
  ultimately show ?thesis using ops by blast
qed

section \<open>Challenges and keys\<close>

lemma consume_issued:
  "map_of (ns_issued (snd (consume raw dev now n))) key = Some v \<Longrightarrow> map_of (ns_issued n) key = Some v"
  by (auto simp: consume_def Let_def map_of_delete split: option.split_asm if_split_asm)

lemma mint_issued:
  assumes "map_of (ns_issued (snd (nonces_mint dev now rnd n))) key = Some v" and "nonces_wf n"
  shows "map_of (ns_issued n) key = Some v
    \<or> (\<exists>raw. rnd = Some raw \<and> key = RawURLEncoding_EncodeToString raw \<and> v = \<lparr>nn_deviceID = dev, nn_expires = now + nonceTTL\<rparr>)"
  using assms by (auto simp: nonces_mint_def Let_def nonces_wf_def map_of_filter_distinct split: option.split_asm if_split_asm)

lemma nonce_step_origin:
  assumes "srv_wf s" and "map_of (ns_issued (s_nonces (srv_step lb op s))) key = Some v"
  shows "map_of (ns_issued (s_nonces s)) key = Some v \<or> (\<exists>raw tc i. op = SChallenge (Some raw) tc i
    \<and> key = RawURLEncoding_EncodeToString raw \<and> v = \<lparr>nn_deviceID = i, nn_expires = tc + nonceTTL\<rparr>)"
proof (cases op)
  case (SChallenge rnd tc i)
  show ?thesis
  proof (cases "live_device i s")
    case (Some d)
    have "nonces_wf (s_nonces s)" using assms(1) by (simp add: srv_wf_def)
    then show ?thesis using SChallenge Some assms(2) live_device_ID [OF assms(1) Some]
        mint_issued [of "dv_ID d" tc rnd "s_nonces s" key v]
      by (auto simp: Challenge_snd)
  qed (use SChallenge assms(2) in \<open>simp add: Challenge_snd\<close>)
next
  case (SAuthenticate io rnd t1 t2 t3 m)
  then show ?thesis using assms(2)
    by (auto simp: Authenticate_snd Let_def dest: consume_issued split: option.split_asm if_split_asm)
qed (use assms(2) in \<open>simp_all add: handler_effects PublishPane_def Let_def
    split: prod.split_asm reply.split_asm sum.split_asm option.split_asm if_split_asm\<close>)

text \<open>A request that got past every check of \<^verbatim>\<open>Pair\<close> up to the registry.\<close>

definition pair_admitted :: "'ts libs \<Rightarrow> PairRequest \<Rightarrow> gotime \<Rightarrow> Server \<Rightarrow> bool" where
  "pair_admitted lb m t1 s \<longleftrightarrow> pair_verified lb m s \<and> OpenNow t1 (s_pairs s)
     \<and> pq_PairingSecret m = pm_secret (s_pairs s)"

definition has_key :: "string \<Rightarrow> bytes \<Rightarrow> Server \<Rightarrow> bool" where
  "has_key i k s \<longleftrightarrow> (\<exists>d. Registry_Get i (s_reg s) = Some d \<and> dv_PublicKey d = k)"

lemma changes_key:
  "changes rop r j dev \<Longrightarrow> (\<exists>io dev0. rop = OpAdd io dev0 \<and> j = dv_ID dev0 \<and> dv_PublicKey dev = dv_PublicKey dev0)
    \<or> (\<exists>dev0. map_of (r_devices r) j = Some dev0 \<and> dv_PublicKey dev = dv_PublicKey dev0)"
  by (cases rop) auto

lemma reg_step_key:
  assumes "Registry_Get i (fst (reg_step rj rop (r, dsk))) = Some d"
  shows "(\<exists>d0. Registry_Get i r = Some d0 \<and> dv_PublicKey d0 = dv_PublicKey d)
    \<or> (\<exists>io dev. rop = OpAdd io dev \<and> dv_ID dev = i \<and> dv_PublicKey dev = dv_PublicKey d)"
  using reg_step_book [of rj rop r dsk] assms
  by (auto simp: Registry_Get_def dest!: changes_key split: if_split_asm)

lemma key_step_origin:
  assumes "has_key i k (srv_step lb op s)"
  shows "has_key i k s \<or> (\<exists>io t1 t2 m. op = SPair io t1 t2 m \<and> pair_admitted lb m t1 s
    \<and> pq_DevicePublicKey m = k \<and> DeviceIDFor (lb_crypto lb) k = i)"
proof (cases "\<exists>io t1 t2 m. op = SPair io t1 t2 m")
  case False
  then have "\<not> srv_enrols lb op j" for j by (cases op) auto
  then obtain rop where "s_reg (srv_step lb op s) = s_reg s
      \<or> (s_reg (srv_step lb op s) = fst (reg_step (lb_json lb) rop (s_reg s, s_disk s)) \<and> (\<forall>j. \<not> op_enrols rop j))"
    using srv_step_book [of lb op s] by (auto simp: book_of_def) (metis fst_conv)
  then show ?thesis
  proof
    assume r: "s_reg (srv_step lb op s) = fst (reg_step (lb_json lb) rop (s_reg s, s_disk s)) \<and> (\<forall>j. \<not> op_enrols rop j)"
    then have "rop \<noteq> OpAdd io dev" for io dev by auto
    then show ?thesis using assms r reg_step_key [of i "lb_json lb" rop "s_reg s" "s_disk s"] unfolding has_key_def by metis
  qed (use assms in \<open>simp add: has_key_def\<close>)
next
  case True
  then obtain io t1 t2 m where op: "op = SPair io t1 t2 m" by blast
  let ?rd = "Redeem (pq_PairingSecret m) t1 (s_pairs s)" and ?dev = "requested_device lb m t2"
  show ?thesis
  proof (cases "pair_admitted lb m t1 s")
    case False
    then have "snd (Pair lb io t1 t2 m s) = s"
      using Pair_unverified(1) Pair_refused unfolding pair_admitted_def by (metis snd_conv)
    then show ?thesis using assms op by simp
  next
    case True
    have "s_reg (srv_step lb op s) = fst (reg_step (lb_json lb) (OpAdd io ?dev) (s_reg s, s_disk s)) \<or> s_reg (srv_step lb op s) = s_reg s"
      by (simp add: op Pair_snd Let_def)
    then show ?thesis
      using assms True op reg_step_key [of i "lb_json lb" "OpAdd io ?dev" "s_reg s" "s_disk s"]
      by (auto simp: has_key_def requested_device_def)
  qed
qed

lemma nonce_origin:
  assumes "srv_wf s" and "list_all stream_op ops" and "ns_issued (s_nonces s) = []"
    and "map_of (ns_issued (s_nonces (fold (srv_step lb) ops s))) (RawURLEncoding_EncodeToString raw) = Some v"
  shows "\<exists>b tc a. ops = b @ SChallenge (Some raw) tc (nn_deviceID v) # a \<and> nn_expires v = tc + nonceTTL"
proof -
  let ?P = "\<lambda>s. map_of (ns_issued (s_nonces s)) (RawURLEncoding_EncodeToString raw) = Some v"
  let ?Q = "\<lambda>op s. \<exists>tc. op = SChallenge (Some raw) tc (nn_deviceID v) \<and> nn_expires v = tc + nonceTTL"
  have o: "?P (srv_step lb op s) \<Longrightarrow> ?P s \<or> ?Q op s" if "srv_wf s" for op s
    using nonce_step_origin [OF that, of lb op "RawURLEncoding_EncodeToString raw" v] by (auto simp: RawURLEncoding_inject)
  have n: "\<not> ?P s" using assms(3) by simp
  show ?thesis
    using run_origin [where I = srv_wf and ok = stream_op and step = "srv_step lb" and P = ?P and Q = ?Q,
        OF srv_wf_step o assms(1,2,4) n] by blast
qed

lemma key_origin:
  assumes "srv_wf s" and "list_all stream_op ops" and "has_key i k (fold (srv_step lb) ops s)"
  shows "has_key i k s \<or> (\<exists>b io t1 t2 m a. ops = b @ SPair io t1 t2 m # a
    \<and> pair_admitted lb m t1 (fold (srv_step lb) b s) \<and> pq_DevicePublicKey m = k \<and> DeviceIDFor (lb_crypto lb) k = i)"
proof (cases "has_key i k s")
  case False
  let ?Q = "\<lambda>op s. \<exists>io t1 t2 m. op = SPair io t1 t2 m \<and> pair_admitted lb m t1 s
    \<and> pq_DevicePublicKey m = k \<and> DeviceIDFor (lb_crypto lb) k = i"
  show ?thesis
    using run_origin [where I = srv_wf and ok = stream_op and step = "srv_step lb" and P = "has_key i k" and Q = ?Q,
        OF srv_wf_step key_step_origin assms(1,2,3) False] by blast
qed simp

lemma srv_step_id: "s_id (srv_step lb op s) = s_id s"
  by (cases op) (simp_all add: handler_effects PublishPane_def Let_def
      split: prod.split reply.split sum.split option.split)

lemma srv_run_id: "s_id (fold (srv_step lb) ops s) = s_id s"
  by (induction ops arbitrary: s) (simp_all add: srv_step_id)

section \<open>Property\<close>

text \<open>C4: Every access has a history. When a header gets past \<^verbatim>\<open>authorize\<close> as a device, after any run of a
  server that started without sessions and challenges, the run contains the \<^verbatim>\<open>Authenticate\<close> that handed
  out exactly that token less than a \<^verbatim>\<open>tokenTTL\<close> before; its signature over this host, the device and the
  nonce verified under the key the book then held for the device; that nonce came from an earlier
  \<^verbatim>\<open>Challenge\<close> for the same device, within its lifetime; that key was in the book from the start or came
  in by an earlier \<^verbatim>\<open>Pair\<close> whose proof verified while the window with that secret was open; and no
  operation since the login completed a revocation or a new pairing of the device.\<close>
theorem access_has_a_history:
  assumes "srv_wf s" and "list_all stream_op ops" and "tk_sessions (s_tokens s) = []"
    and "ns_issued (s_nonces s) = []" and "fst (authorize auth c now (fold (srv_step lb) ops s)) = Reply i"
  shows "\<exists>before io rnd t1 t2 t3 m after x d. let s1 = fold (srv_step lb) before s in
    ops = before @ SAuthenticate io rnd t1 t2 t3 m # after
    \<and> fst (Authenticate lb io rnd t1 t2 t3 m s1) = Reply x
    \<and> auth = bearerPrefix @ ax_SessionToken x \<and> now < t2 + tokenTTL
    \<and> aq_DeviceId m = i \<and> live_device i s1 = Some d
    \<and> VerifyAuth (lb_crypto lb) (dv_PublicKey d) (HostID (lb_crypto lb) (s_id s)) i (aq_Nonce m) (aq_Signature m)
        = Some True
    \<and> (\<exists>b tc a. before = b @ SChallenge (Some (aq_Nonce m)) tc i # a \<and> t1 < tc + nonceTTL)
    \<and> (has_key i (dv_PublicKey d) s \<or> (\<exists>b io' u1 u2 q a. before = b @ SPair io' u1 u2 q # a
        \<and> pair_admitted lb q u1 (fold (srv_step lb) b s) \<and> pq_DevicePublicKey q = dv_PublicKey d))
    \<and> (\<forall>b op a. after = b @ op # a \<longrightarrow> EndsSessions i \<notin> set (gate_events lb op
         (fold (srv_step lb) (before @ SAuthenticate io rnd t1 t2 t3 m # b) s)))"
proof -
  obtain tok e where auth: "auth = bearerPrefix @ tok" "now < e"
    and ses: "ga_sessions (gate_of (fold (srv_step lb) ops s)) tok = Some (i, e)"
    using assms(5) by (auto simp: gate_admits_iff gate_admits_def prefix_def split: option.split_asm)
  obtain before io rnd t1 t2 t3 m after x where ops: "ops = before @ SAuthenticate io rnd t1 t2 t3 m # after"
    and reply: "fst (Authenticate lb io rnd t1 t2 t3 m (fold (srv_step lb) before s)) = Reply x"
    and m: "aq_DeviceId m = i" "ax_SessionToken x = tok" "e = t2 + tokenTTL"
    and since: "\<forall>b op a. after = b @ op # a \<longrightarrow> EndsSessions i \<notin> set (gate_events lb op
         (fold (srv_step lb) (before @ SAuthenticate io rnd t1 t2 t3 m # b) s))"
    using session_origin [OF assms(1-3) ses] by blast
  let ?s = "fold (srv_step lb) before s"
  have ok: "list_all stream_op before" using assms(2) ops by simp
  have wf: "srv_wf ?s" by (rule srv.run_inv [OF assms(1) ok])
  obtain s' where a: "Authenticate lb io rnd t1 t2 t3 m ?s = (Reply x, s')" using reply by (metis prod.collapse)
  obtain d v raw where d: "live_device (aq_DeviceId m) ?s = Some d" and av: "auth_verified lb m d ?s"
    and v: "map_of (ns_issued (s_nonces ?s)) (RawURLEncoding_EncodeToString (aq_Nonce m)) = Some v"
      "t1 < nn_expires v" "nn_deviceID v = dv_ID d"
    by (rule Authenticate_Reply [OF a])
  have id: "dv_ID d = i" using live_device_ID [OF wf d] m(1) by simp
  have "\<exists>b tc a. before = b @ SChallenge (Some (aq_Nonce m)) tc i # a \<and> t1 < tc + nonceTTL"
    using nonce_origin [OF assms(1) ok assms(4) v(1)] v(2,3) id by metis
  moreover have "has_key i (dv_PublicKey d) ?s"
    using d m(1) by (auto simp: has_key_def live_device_def split: option.split_asm if_split_asm)
  then have "has_key i (dv_PublicKey d) s \<or> (\<exists>b io' u1 u2 q a. before = b @ SPair io' u1 u2 q # a
      \<and> pair_admitted lb q u1 (fold (srv_step lb) b s) \<and> pq_DevicePublicKey q = dv_PublicKey d)"
    using key_origin [OF assms(1) ok] by blast
  moreover have "VerifyAuth (lb_crypto lb) (dv_PublicKey d) (HostID (lb_crypto lb) (s_id s)) i (aq_Nonce m)
      (aq_Signature m) = Some True"
    using av id srv_run_id [of lb before s] by (simp add: auth_verified_def Device_Key_def)
  ultimately show ?thesis
    unfolding Let_def using ops reply auth m d since by blast
qed

definition demo_keyed :: Server where
  "demo_keyed = demo_server\<lparr>s_reg :=
     \<lparr>r_path = ''dev.json'', r_devices = [(''phone'', demo_stored\<lparr>dv_PublicKey := demo_devseed\<rparr>)]\<rparr>\<rparr>"

lemma demo_login:
  obtains sig where "fst (authorize (bearerPrefix @ RawURLEncoding_EncodeToString ''tok'') CapStatusRead 5
    (fold (srv_step demo_libs) [SChallenge (Some ''nn'') 0 ''phone'',
       SAuthenticate io_ok (Some ''tok'') 1 2 3 (auth_request ''phone'' ''nn'' sig)] demo_keyed)) = Reply ''phone''"
proof -
  let ?d = "demo_stored\<lparr>dv_PublicKey := demo_devseed\<rparr>"
  have live: "live_device ''phone'' demo_keyed = Some ?d"
    by (simp add: live_device_def Registry_Get_def demo_keyed_def demo_stored_def demo_device_def Revoked_def)
  obtain y s1 where c: "Challenge demo_libs (Some ''nn'') 0 ''phone'' demo_keyed = (Reply y, s1)"
    and n: "map_of (ns_issued (s_nonces s1)) (RawURLEncoding_EncodeToString ''nn'')
      = Some \<lparr>nn_deviceID = dv_ID ?d, nn_expires = 0 + nonceTTL\<rparr>" "s_reg s1 = s_reg demo_keyed"
    by (rule honest_challenge [OF live])
  have cr: "lb_crypto demo_libs = demo_crypto" by (simp add: demo_libs_def)
  have ok: "ed25519_correct (lb_crypto demo_libs)" "length demo_devseed = 32"
    by (simp_all add: cr demo_crypto_ok demo_devseed_def)
  obtain sig where sig: "SignAuth (lb_crypto demo_libs) (NewKeyFromSeed (lb_crypto demo_libs) demo_devseed)
      (HostID (lb_crypto demo_libs) (s_id s1)) ''phone'' ''nn'' = Some sig"
    using sign_then_verify [OF ok] unfolding SignAuth_def by metis
  have live1: "live_device ''phone'' s1 = Some ?d" using live n(2) by (simp add: live_device_def)
  have id: "dv_ID ?d = ''phone''" by (simp add: demo_stored_def demo_device_def)
  have key: "dv_PublicKey ?d = ed_pub_of_seed (lb_crypto demo_libs) demo_devseed" by (simp add: cr) (simp add: demo_crypto_def)
  have tm: "1 < 0 + nonceTTL" by (simp add: nonceTTL_def time_units)
  obtain x s2 where a: "Authenticate demo_libs io_ok (Some ''tok'') 1 2 3 (auth_request ''phone'' ''nn'' sig) s1 = (Reply x, s2)"
    by (rule honest_authenticate [OF ok live1 id key n(1) [unfolded id] tm sig])
  have d2: "live_device (aq_DeviceId (auth_request ''phone'' ''nn'' sig)) s1 = Some ?d"
    using live1 by (simp add: auth_request_def)
  note st = Authenticate_state [OF a d2]
  have "Allowed ''phone'' CapStatusRead (s_reg s1) = None"
    using live_device_Allowed [OF live1, of CapStatusRead] by (simp add: demo_stored_def)
  then have "fst (authorize (bearerPrefix @ RawURLEncoding_EncodeToString ''tok'') CapStatusRead 5 s2) = Reply ''phone''"
    using id by (simp add: authorize_bearer st minted_resolves tokenTTL_def time_units)
  then show thesis using that [of sig] c a by simp
qed

theorem access_has_a_history_witness:
  "\<exists>io rnd t1 t2 t3 m sig. SAuthenticate io rnd t1 t2 t3 m \<in> set [SChallenge (Some ''nn'') 0 ''phone'',
       SAuthenticate io_ok (Some ''tok'') 1 2 3 (auth_request ''phone'' ''nn'' sig)] \<and> 5 < t2 + tokenTTL"
proof -
  obtain sig where a: "fst (authorize (bearerPrefix @ RawURLEncoding_EncodeToString ''tok'') CapStatusRead 5
    (fold (srv_step demo_libs) [SChallenge (Some ''nn'') 0 ''phone'',
       SAuthenticate io_ok (Some ''tok'') 1 2 3 (auth_request ''phone'' ''nn'' sig)] demo_keyed)) = Reply ''phone''"
    by (rule demo_login)
  have wf: "srv_wf demo_keyed" using demo_server_wf
    by (simp add: demo_keyed_def srv_wf_def book_wf_def book_all_def demo_stored_def demo_device_def)
  have o: "list_all stream_op [SChallenge (Some ''nn'') 0 ''phone'',
       SAuthenticate io_ok (Some ''tok'') 1 2 3 (auth_request ''phone'' ''nn'' sig)]" by simp
  have e: "tk_sessions (s_tokens demo_keyed) = []" "ns_issued (s_nonces demo_keyed) = []"
    by (simp_all add: demo_keyed_def demo_server_def newTokens_def newNonces_def)
  show ?thesis using access_has_a_history [OF wf o e a] unfolding Let_def by (metis in_set_conv_decomp)
qed

end
