(* ===== verification/Restart.thy ===== *)
theory Restart
  imports History
begin

text \<open>
  What a crash of the host and a restart from its files leave of the link server: the book of
  \<^verbatim>\<open>src/registry/registry.go\<close> as of the last change that was acknowledged, or a later one, and nothing of
  what \<^verbatim>\<open>src/link/server.go\<close> keeps in memory.
\<close>

section \<open>Text that survives the file\<close>

lemma bits_val_bound: "bits_val bs < 2 ^ length bs"
  by (induction bs) auto

lemma chunk5_length: "ch \<in> set (chunk5 bs) \<Longrightarrow> length ch = 5"
  by (induction bs rule: chunk5.induct) auto

lemma b32_ascii: "n < 32 \<Longrightarrow> octet (b32_std ! n) < 128"
proof -
  have "list_all (\<lambda>c. octet c < 128) b32_std" by code_simp
  moreover have "length b32_std = 32" by (simp add: b32_std_def)
  ultimately show "n < 32 \<Longrightarrow> octet (b32_std ! n) < 128" by (simp add: list_all_length)
qed

lemma fingerprint_utf8: "valid_utf8 (fingerprint cr pub)"
proof (rule valid_utf8_ascii)
  have "octet c < 128" if c: "c \<in> set (idEncoding_EncodeToString bs)" for c bs
  proof -
    obtain ch where "ch \<in> set (chunk5 (concat (map byte_bits bs)))" "c = b32_std ! bits_val ch"
      using c by (auto simp: idEncoding_EncodeToString_def)
    moreover from this have "bits_val ch < 32" using bits_val_bound [of ch] chunk5_length by fastforce
    ultimately show ?thesis by (simp add: b32_ascii)
  qed
  then show "list_all (\<lambda>c. octet c < 128) (fingerprint cr pub)"
    by (auto simp: fingerprint_def ToLower_def list_all_iff)
qed

text \<open>A protobuf string is UTF-8; the decoder refuses others.\<close>

fun srv_utf8 :: "srv_op \<Rightarrow> bool" where
  "srv_utf8 (SPair io t1 t2 m) \<longleftrightarrow> valid_utf8 (pq_DeviceName m) \<and> valid_utf8 (pq_DeviceModel m)
     \<and> list_all valid_utf8 (pq_RequestedCapabilities m)"
| "srv_utf8 op \<longleftrightarrow> True"

lemma requested_utf8:
  "srv_utf8 (SPair io t1 t2 m) \<Longrightarrow> device_utf8 (requested_device lb m t2)"
proof -
  have "list_all valid_utf8 DefaultCapabilities"
    using list_all_utf8_keep_known [of DefaultCapabilities] by (simp add: keep_known_default)
  then show "srv_utf8 (SPair io t1 t2 m) \<Longrightarrow> device_utf8 (requested_device lb m t2)"
    by (simp add: device_utf8_def requested_device_def clipDisplay_eq clip_valid_utf8 DeviceIDFor_def fingerprint_utf8)
qed

section \<open>The book on disk\<close>

text \<open>A restart would load the book as it is in memory.\<close>

definition saved :: "reg_json \<Rightarrow> Server \<Rightarrow> bool" where
  "saved rj s \<longleftrightarrow> (\<exists>r'. Registry_Open rj False (r_path (s_reg s)) (s_disk s) = Inr r'
     \<and> map_of (r_devices r') = map_of (r_devices (s_reg s)))"

text \<open>The callers that are told their change of the book is done.\<close>

fun acknowledged :: "'ts libs \<Rightarrow> srv_op \<Rightarrow> Server \<Rightarrow> bool" where
  "acknowledged lb (SRevoke io i now) s \<longleftrightarrow> fst (RevokeDevice lb io i now s) = None"
| "acknowledged lb (SSetCapabilities io i caps) s \<longleftrightarrow>
     fst (SetCapabilities (lb_json lb) io i caps (s_reg s) (s_disk s)) = None"
| "acknowledged lb (SPair io t1 t2 m) s \<longleftrightarrow> (\<exists>x. fst (Pair lb io t1 t2 m s) = Reply x)"
| "acknowledged lb op s \<longleftrightarrow> False"

definition book_utf8 :: "'ts libs \<Rightarrow> Server \<Rightarrow> bool" where
  "book_utf8 lb s \<longleftrightarrow> reg_inv (lb_json lb) (book_of s)"

lemma saved_persist:
  assumes "codec_reads_back rj" and "book_wf (s_reg s)" and "book_all (\<lambda>i. device_utf8) (s_reg s)"
    and "persistLocked rj io (s_reg s) d = (None, s_disk s)"
  shows "saved rj s"
  using reload [OF assms] by (auto simp: saved_def)

text \<open>The operations of the registry behind each operation of the server, with their texts.\<close>

lemma srv_step_book_utf8:
  assumes "srv_utf8 op"
  shows "book_of (srv_step lb op s) = book_of s
   \<or> (\<exists>rop. book_of (srv_step lb op s) = reg_step (lb_json lb) rop (book_of s) \<and> op_utf8 rop)"
proof (cases "\<exists>io t1 t2 m. op = SPair io t1 t2 m")
  case True
  then obtain io t1 t2 m where op: "op = SPair io t1 t2 m" by blast
  then have "book_of (srv_step lb op s) = book_of s
    \<or> book_of (srv_step lb op s) = reg_step (lb_json lb) (OpAdd io (requested_device lb m t2)) (book_of s)"
    by (simp add: book_of_def Pair_snd Let_def)
  moreover have "op_utf8 (OpAdd io (requested_device lb m t2))" using requested_utf8 assms op by simp
  ultimately show ?thesis by blast
next
  case False
  then have "\<not> srv_enrols lb op j" for j by (cases op) auto
  then show ?thesis using srv_step_book [of lb op s] by (metis op_utf8.elims(3) op_enrols.simps(1))
qed

lemma book_utf8_step: "book_utf8 lb s \<Longrightarrow> srv_utf8 op \<Longrightarrow> book_utf8 lb (srv_step lb op s)"
  using srv_step_book_utf8 [of op lb s] reg_step_inv unfolding book_utf8_def book_of_def by metis

lemma book_utf8_run: "book_utf8 lb s \<Longrightarrow> list_all srv_utf8 ops \<Longrightarrow> book_utf8 lb (fold (srv_step lb) ops s)"
  by (induction ops arbitrary: s) (simp_all add: book_utf8_step)

lemma srv_step_path: "r_path (s_reg (srv_step lb op s)) = r_path (s_reg s)"
  using srv_step_book [of lb op s] by (auto simp: book_of_def) (metis fst_conv reg_step_path)

abbreviation book_file :: "Server \<Rightarrow> bytes option" where
  "book_file s \<equiv> s_disk s (r_path (s_reg s))"

lemma srv_step_file:
  assumes "book_utf8 lb s" and "srv_utf8 op"
  shows "saved (lb_json lb) (srv_step lb op s) \<or> book_file (srv_step lb op s) = book_file s"
proof -
  let ?s = "srv_step lb op s"
  have inv: "codec_reads_back (lb_json lb)" "book_wf (s_reg ?s)" "book_all (\<lambda>i. device_utf8) (s_reg ?s)"
    using book_utf8_step [OF assms] by (simp_all add: book_utf8_def book_of_def)
  obtain rop where "s_disk ?s = s_disk s \<or> s_disk ?s = snd (persistLocked (lb_json lb) (op_io rop) (s_reg ?s) (s_disk s))"
    using srv_step_book [of lb op s] reg_step_disk [of "lb_json lb" _ "s_reg s" "s_disk s"]
    unfolding book_of_def by (metis fst_conv snd_conv)
  then show ?thesis
  proof
    assume p: "s_disk ?s = snd (persistLocked (lb_json lb) (op_io rop) (s_reg ?s) (s_disk s))"
    obtain e where "persistLocked (lb_json lb) (op_io rop) (s_reg ?s) (s_disk s) = (e, s_disk ?s)"
      using p by (metis prod.collapse)
    then show ?thesis
    proof (cases rule: persistLocked_cases)
      case (failed x)
      then show ?thesis by (simp add: srv_step_path)
    next
      case (written raw)
      then show ?thesis using saved_persist [OF inv]
        \<open>persistLocked (lb_json lb) (op_io rop) (s_reg ?s) (s_disk s) = (e, s_disk ?s)\<close> by blast
    qed
  qed (simp add: srv_step_path)
qed

lemma acknowledged_saved:
  assumes "book_utf8 lb s" and "srv_utf8 op" and "acknowledged lb op s"
  shows "saved (lb_json lb) (srv_step lb op s)"
proof -
  let ?s = "srv_step lb op s"
  have inv: "codec_reads_back (lb_json lb)" "book_wf (s_reg ?s)" "book_all (\<lambda>i. device_utf8) (s_reg ?s)"
    using book_utf8_step [OF assms(1,2)] by (simp_all add: book_utf8_def book_of_def)
  have "\<exists>io. persistLocked (lb_json lb) io (s_reg ?s) (s_disk s) = (None, s_disk ?s)"
  proof (cases op)
    case (SRevoke io i now)
    obtain e r d where r: "Revoke (lb_json lb) io i now (s_reg s) (s_disk s) = (e, r, d)" by (rule prod_cases3)
    then have "e = None" using assms(3) SRevoke by (auto simp: RevokeDevice_eq Let_def)
    then have "persistLocked (lb_json lb) io r (s_disk s) = (None, d)"
      using r by (auto simp: Revoke_def Let_def split: option.split_asm prod.split_asm)
    moreover have "s_reg ?s = r" "s_disk ?s = d" using SRevoke r by (simp_all add: RevokeDevice_eq Let_def)
    ultimately show ?thesis by blast
  next
    case (SSetCapabilities io i caps)
    obtain e r d where r: "SetCapabilities (lb_json lb) io i caps (s_reg s) (s_disk s) = (e, r, d)" by (rule prod_cases3)
    then have "e = None" using assms(3) SSetCapabilities by simp
    then have "persistLocked (lb_json lb) io r (s_disk s) = (None, d)"
      using r by (auto simp: SetCapabilities_def Let_def split: option.split_asm prod.split_asm)
    then show ?thesis using SSetCapabilities r by auto
  next
    case (SPair io t1 t2 m)
    obtain e r d where r: "Registry_Add (lb_json lb) io (requested_device lb m t2) (s_reg s) (s_disk s) = (e, r, d)"
      by (rule prod_cases3)
    obtain x where x: "fst (Pair lb io t1 t2 m s) = Reply x" using assms(3) SPair by auto
    then have v: "pair_verified lb m s" using Pair_unverified(2) by metis
    have w: "OpenNow t1 (s_pairs s) \<and> pq_PairingSecret m = pm_secret (s_pairs s)"
      by (rule ccontr) (use x Pair_refused [OF v, of t1] in simp)
    note p = Pair_admitted [OF v w r]
    have e: "e = None" using p(2) x by blast
    then have "persistLocked (lb_json lb) io r (s_disk s) = (None, d)"
      using r by (auto simp: Registry_Add_def Let_def split: if_split_asm prod.split_asm)
    moreover have "s_reg ?s = r" "s_disk ?s = d" using SPair p(1) e by (simp_all add: Let_def)
    ultimately show ?thesis by blast
  qed (use assms(3) in simp_all)
  then show ?thesis using saved_persist [OF inv] by blast
qed

section \<open>A crash after any run\<close>

text \<open>The book a restart finds is the one in memory after the first \<open>n\<close> operations.\<close>

definition recovers :: "'ts libs \<Rightarrow> Server \<Rightarrow> srv_op list \<Rightarrow> nat \<Rightarrow> bool" where
  "recovers lb s ops n \<longleftrightarrow> n \<le> length ops \<and> (\<exists>r'. Registry_Open (lb_json lb) False (r_path (s_reg s))
       (s_disk (fold (srv_step lb) ops s)) = Inr r'
     \<and> map_of (r_devices r') = map_of (r_devices (s_reg (fold (srv_step lb) (take n ops) s))))"

lemma srv_run_path: "r_path (s_reg (fold (srv_step lb) ops s)) = r_path (s_reg s)"
  by (induction ops arbitrary: s) (simp_all add: srv_step_path)

lemma Open_file: "d p = d' p \<Longrightarrow> Registry_Open rj rf p d = Registry_Open rj rf p d'"
  by (simp add: Registry_Open_def ReadFile_def)

lemma crash_recovery:
  assumes "book_utf8 lb s" and "saved (lb_json lb) s" and "list_all srv_utf8 ops"
  shows "\<exists>n. recovers lb s ops n
    \<and> (\<forall>m < length ops. acknowledged lb (ops ! m) (fold (srv_step lb) (take m ops) s) \<longrightarrow> m < n)"
  using assms(3)
proof (induction ops rule: rev_induct)
  case Nil
  then show ?case using assms(2) by (simp add: recovers_def saved_def)
next
  case (snoc op ops)
  let ?s = "fold (srv_step lb) ops s"
  have ok: "list_all srv_utf8 ops" "srv_utf8 op" using snoc.prems by simp_all
  obtain n where n: "recovers lb s ops n"
    and ack: "\<forall>m < length ops. acknowledged lb (ops ! m) (fold (srv_step lb) (take m ops) s) \<longrightarrow> m < n"
    using snoc.IH [OF ok(1)] by blast
  have u: "book_utf8 lb ?s" by (rule book_utf8_run [OF assms(1) ok(1)])
  have path: "r_path (s_reg ?s) = r_path (s_reg s)" "r_path (s_reg (srv_step lb op ?s)) = r_path (s_reg s)"
    by (simp_all add: srv_run_path srv_step_path)
  show ?case
  proof (cases "saved (lb_json lb) (srv_step lb op ?s)")
    case True
    then have "recovers lb s (ops @ [op]) (Suc (length ops))" using path(2) by (simp add: recovers_def saved_def)
    then show ?thesis by (intro exI [of _ "Suc (length ops)"]) simp
  next
    case False
    then have same: "book_file (srv_step lb op ?s) = book_file ?s" using srv_step_file [OF u ok(2)] by blast
    have "Registry_Open (lb_json lb) False (r_path (s_reg s)) (s_disk (srv_step lb op ?s))
        = Registry_Open (lb_json lb) False (r_path (s_reg s)) (s_disk ?s)"
      by (rule Open_file) (use same path in simp)
    then have "recovers lb s (ops @ [op]) n" using n by (auto simp: recovers_def)
    moreover have "\<not> acknowledged lb op ?s" using acknowledged_saved [OF u ok(2)] False by blast
    ultimately show ?thesis using ack by (intro exI [of _ n]) (auto simp: nth_append less_Suc_eq)
  qed
qed

lemma NewServer_blank:
  assumes "NewServer opt d = Some s" and "o_Registry opt = Some r"
  shows "s_reg s = r" "fst (authorize auth c now s) \<noteq> Reply i"
proof -
  have s: "s_reg s = r" "tk_sessions (s_tokens s) = []"
    using assms by (auto simp: NewServer_def newTokens_def split: option.split_asm bool.split_asm)
  then show "s_reg s = r" by simp
  show "fst (authorize auth c now s) \<noteq> Reply i" using s(2) by (auto simp: authorize_Reply resolve_def)
qed

section \<open>Property\<close>

text \<open>C21: A restart comes back with what was acknowledged, and with nothing else in memory. However the host
  ran and whichever of its writes failed, at whatever step, a server restarted from the file afterwards
  knows exactly the devices, with the same keys and rights, that the old one knew at some instant after
  the last revocation, change of rights or pairing whose caller was told it succeeded; and no token of
  the old server opens anything, so every device has to authenticate again.\<close>
theorem restart_recovers_the_book:
  assumes "book_utf8 lb s" and "saved (lb_json lb) s" and "list_all srv_utf8 ops"
  shows "\<exists>n \<le> length ops.
    (\<forall>m < length ops. acknowledged lb (ops ! m) (fold (srv_step lb) (take m ops) s) \<longrightarrow> m < n)
    \<and> (\<exists>r'. Registry_Open (lb_json lb) False (r_path (s_reg s)) (s_disk (fold (srv_step lb) ops s)) = Inr r'
        \<and> (\<forall>opt d s2. o_Registry opt = Some r' \<and> NewServer opt d = Some s2 \<longrightarrow>
            (\<forall>i. live_device i s2 = live_device i (fold (srv_step lb) (take n ops) s))
            \<and> (\<forall>auth c now i. fst (authorize auth c now s2) \<noteq> Reply i)))"
proof -
  obtain n where n: "recovers lb s ops n"
    and ack: "\<forall>m < length ops. acknowledged lb (ops ! m) (fold (srv_step lb) (take m ops) s) \<longrightarrow> m < n"
    using crash_recovery [OF assms] by blast
  obtain r' where r: "Registry_Open (lb_json lb) False (r_path (s_reg s)) (s_disk (fold (srv_step lb) ops s)) = Inr r'"
    "map_of (r_devices r') = map_of (r_devices (s_reg (fold (srv_step lb) (take n ops) s)))" "n \<le> length ops"
    using n by (auto simp: recovers_def)
  have "live_device i s2 = live_device i (fold (srv_step lb) (take n ops) s)"
    and "fst (authorize auth c now s2) \<noteq> Reply i"
    if "o_Registry opt = Some r'" "NewServer opt d = Some s2" for opt d s2 i auth c now
    using NewServer_blank [OF that(2,1)] r(2) by (simp_all add: live_device_def Registry_Get_def)
  then show ?thesis using r ack by blast
qed

text \<open>Its witness: the demo book, saved, and a revocation that reaches the disk.\<close>

definition demo_saved :: Server where
  "demo_saved = demo_server\<lparr>s_reg := demo_book, s_disk := [''dev.json'' \<mapsto> ''live'']\<rparr>"

definition demo_disk_libs :: "gotime libs" where
  "demo_disk_libs = demo_libs\<lparr>lb_json := demo_reg_json\<rparr>"

definition demo_options :: "Registry \<Rightarrow> Options" where
  "demo_options r = \<lparr>o_Identity = Some demo_identity, o_Registry = Some r, o_Pairing = None, o_Executor = True,
     o_HostName = ''Mac'', o_Panes = True, o_Digests = None, o_Heartbeat = 0\<rparr>"

theorem restart_recovers_the_book_witness:
  "\<exists>r' s2. Registry_Open demo_reg_json False ''dev.json''
       (s_disk (srv_step demo_disk_libs (SRevoke io_ok ''phone'' 99) demo_saved)) = Inr r'
     \<and> NewServer (demo_options r') Map.empty = Some s2 \<and> live_device ''phone'' s2 = None"
proof -
  let ?op = "SRevoke io_ok ''phone'' 99"
  have j: "lb_json demo_disk_libs = demo_reg_json" by (simp add: demo_disk_libs_def)
  have u: "book_utf8 demo_disk_libs demo_saved"
    using demo_reg_ok by (simp add: book_utf8_def book_of_def j demo_saved_def)
  have s: "saved (lb_json demo_disk_libs) demo_saved"
    by (simp add: saved_def j demo_saved_def Registry_Open_def ReadFile_def demo_book_def)
      (simp add: demo_reg_json_def demo_stored_def demo_device_def)
  have o: "list_all srv_utf8 [?op]" by simp
  have rv: "fst (RevokeDevice demo_disk_libs io_ok ''phone'' 99 demo_saved) = None"
    "live_device ''phone'' (srv_step demo_disk_libs ?op demo_saved) = None"
    using demo_revoked by (simp_all add: RevokeDevice_eq Let_def j demo_saved_def live_device_def Registry_Get_def Revoked_def)
  obtain n r' where n: "n \<le> 1" "0 < n"
    and r: "Registry_Open demo_reg_json False (r_path (s_reg demo_saved))
       (s_disk (fold (srv_step demo_disk_libs) [?op] demo_saved)) = Inr r'"
    and all: "\<forall>opt d s2. o_Registry opt = Some r' \<and> NewServer opt d = Some s2 \<longrightarrow>
            (\<forall>i. live_device i s2 = live_device i (fold (srv_step demo_disk_libs) (take n [?op]) demo_saved))"
    using restart_recovers_the_book [OF u s o] rv(1) unfolding j by auto
  obtain s2 where s2: "NewServer (demo_options r') Map.empty = Some s2"
    by (simp add: NewServer_def demo_options_def)
  have opt: "o_Registry (demo_options r') = Some r'" by (simp add: demo_options_def)
  have "live_device ''phone'' s2 = live_device ''phone'' (fold (srv_step demo_disk_libs) (take n [?op]) demo_saved)"
    using all s2 opt by blast
  moreover have "take n [?op] = [?op]" using n by simp
  ultimately have "live_device ''phone'' s2 = None" using rv(2) by simp
  then show ?thesis using r s2 by (auto simp: demo_saved_def demo_book_def)
qed

end
