(* ===== verification/Edgesign.thy ===== *)
theory Edgesign
  imports Crypto
begin

text \<open>
  \<^verbatim>\<open>src/edgesign/edgesign.go\<close> and \<^verbatim>\<open>src/edgesign/grant.go\<close>: Ed25519 authenticity of the
  edge rail's two envelopes and of approval grants, and the device-side checklist that decides
  whether a command may spend a grant. The protobuf timestamp is a type parameter with its
  \<^verbatim>\<open>AsTime\<close> as an argument; the JSON codec of a grant and the RFC 3339 parser are the fields
  of \<open>grant_lib\<close>. A result \<open>None\<close> is the panic of \<^verbatim>\<open>crypto/ed25519\<close> on a key of the wrong
  size; a key that may be nil is an option.
\<close>

unbundle bit_operations_syntax

section \<open>Envelopes\<close>

record Any =
  any_TypeUrl :: string
  any_Value :: bytes

record 'ts EdgeCommand =
  ec_ProtocolVersion :: string
  ec_CommandId :: string
  ec_LogicalOperationId :: string
  ec_Attempt :: u32
  ec_DeviceId :: string
  ec_TaskId :: string
  ec_WorkflowRunId :: string
  ec_ResourceType :: string
  ec_ResourceId :: string
  ec_FencingToken :: u64
  ec_ExpectedAggregateVersion :: u64
  ec_ExpiresAt :: "'ts option"
  ec_IdempotencyKey :: string
  ec_ApprovalGrantId :: string
  ec_PolicyContextHash :: string
  ec_Payload :: "Any option"
  ec_PayloadDigest :: bytes
  ec_CloudSignature :: bytes
  ec_ApprovalGrant :: bytes
  ec_LedgerPayload :: bytes

record 'ts EdgeEvent =
  ev_EventId :: string
  ev_DeviceId :: string
  ev_DeviceSequence :: u64
  ev_CommandId :: string
  ev_Type :: string
  ev_OccurredAt :: "'ts option"
  ev_FencingToken :: u64
  ev_Payload :: "Any option"
  ev_PayloadDigest :: bytes
  ev_DeviceSignature :: bytes
  ev_Traceparent :: string

section \<open>Keys\<close>

definition NewKey :: "crypto \<Rightarrow> bytes option \<Rightarrow> (bytes \<times> bytes) option" where
  "NewKey cr rnd = map_option
     (\<lambda>seed. (PrivateKey_Public (NewKeyFromSeed cr seed), NewKeyFromSeed cr seed)) rnd"

datatype seed_error = SeedNotBase64 | SeedSizeWrong nat

definition EncodeSeed :: "bytes \<Rightarrow> string" where
  "EncodeSeed sk = StdEncoding_EncodeToString (PrivateKey_Seed sk)"

definition DecodeSeed :: "crypto \<Rightarrow> string \<Rightarrow> seed_error + bytes" where
  "DecodeSeed cr encoded =
    (case StdEncoding_DecodeString encoded of
       None \<Rightarrow> Inl SeedNotBase64
     | Some seed \<Rightarrow>
         (if length seed \<noteq> SeedSize then Inl (SeedSizeWrong (length seed))
          else Inr (NewKeyFromSeed cr seed)))"

section \<open>Canonical encodings\<close>

definition commandDomain :: bytes where
  "commandDomain = ''rook-edge-command/v1''"

definition eventDomain :: bytes where
  "eventDomain = ''rook-edge-event/v1''"

definition edge_canonical :: "bytes \<Rightarrow> bytes list \<Rightarrow> bytes" where
  "edge_canonical label fs =
     foldl (\<lambda>out f. out @ PutUint64 (word_of_nat (length f)) @ f)
       (PutUint64 (word_of_nat (length label)) @ label) fs"

definition payload_sum :: "crypto \<Rightarrow> Any option \<Rightarrow> bytes" where
  "payload_sum cr pl = (case pl of None \<Rightarrow> [] | Some a \<Rightarrow> sha256 cr (any_Value a))"

definition payload_type :: "Any option \<Rightarrow> bytes" where
  "payload_type pl = (case pl of None \<Rightarrow> [] | Some a \<Rightarrow> any_TypeUrl a)"

text \<open>\<open>uint64(ts.AsTime().UnixNano())\<close>, zero when the timestamp is absent.\<close>

definition stamp_nanos :: "('ts \<Rightarrow> gotime) \<Rightarrow> 'ts option \<Rightarrow> u64" where
  "stamp_nanos asTime ts =
     (case ts of None \<Rightarrow> 0 | Some x \<Rightarrow> word_of_int (UnixNano (asTime x)))"

definition commandBytes :: "crypto \<Rightarrow> ('ts \<Rightarrow> gotime) \<Rightarrow> 'ts EdgeCommand \<Rightarrow> bytes" where
  "commandBytes cr asTime cmd = edge_canonical commandDomain
    [ec_ProtocolVersion cmd, ec_CommandId cmd, ec_LogicalOperationId cmd,
     PutUint64 (ucast (ec_Attempt cmd)), ec_DeviceId cmd, ec_TaskId cmd, ec_WorkflowRunId cmd,
     ec_ResourceType cmd, ec_ResourceId cmd, PutUint64 (ec_FencingToken cmd),
     PutUint64 (ec_ExpectedAggregateVersion cmd), PutUint64 (stamp_nanos asTime (ec_ExpiresAt cmd)),
     ec_IdempotencyKey cmd, ec_ApprovalGrantId cmd, ec_PolicyContextHash cmd,
     payload_type (ec_Payload cmd), payload_sum cr (ec_Payload cmd), ec_PayloadDigest cmd]"

definition eventBytes :: "crypto \<Rightarrow> ('ts \<Rightarrow> gotime) \<Rightarrow> 'ts EdgeEvent \<Rightarrow> bytes" where
  "eventBytes cr asTime ev = edge_canonical eventDomain
    [ev_EventId ev, ev_DeviceId ev, PutUint64 (ev_DeviceSequence ev), ev_CommandId ev, ev_Type ev,
     PutUint64 (stamp_nanos asTime (ev_OccurredAt ev)), PutUint64 (ev_FencingToken ev),
     payload_type (ev_Payload ev), payload_sum cr (ev_Payload ev), ev_PayloadDigest ev]"

definition SignCommand ::
    "crypto \<Rightarrow> ('ts \<Rightarrow> gotime) \<Rightarrow> bytes \<Rightarrow> 'ts EdgeCommand \<Rightarrow> 'ts EdgeCommand option" where
  "SignCommand cr asTime sk cmd = map_option (\<lambda>sig. cmd\<lparr>ec_CloudSignature := sig\<rparr>)
     (ed25519_Sign cr sk (commandBytes cr asTime cmd))"

definition VerifyCommand ::
    "crypto \<Rightarrow> ('ts \<Rightarrow> gotime) \<Rightarrow> bytes \<Rightarrow> 'ts EdgeCommand \<Rightarrow> bool option" where
  "VerifyCommand cr asTime pk cmd =
     (if length (ec_CloudSignature cmd) > 0
      then ed25519_Verify cr pk (commandBytes cr asTime cmd) (ec_CloudSignature cmd)
      else Some False)"

definition SignEvent ::
    "crypto \<Rightarrow> ('ts \<Rightarrow> gotime) \<Rightarrow> bytes \<Rightarrow> 'ts EdgeEvent \<Rightarrow> 'ts EdgeEvent option" where
  "SignEvent cr asTime sk ev = map_option (\<lambda>sig. ev\<lparr>ev_DeviceSignature := sig\<rparr>)
     (ed25519_Sign cr sk (eventBytes cr asTime ev))"

definition VerifyEvent ::
    "crypto \<Rightarrow> ('ts \<Rightarrow> gotime) \<Rightarrow> bytes \<Rightarrow> 'ts EdgeEvent \<Rightarrow> bool option" where
  "VerifyEvent cr asTime pk ev =
     (if length (ev_DeviceSignature ev) > 0
      then ed25519_Verify cr pk (eventBytes cr asTime ev) (ev_DeviceSignature ev)
      else Some False)"

section \<open>Approval grants\<close>

record GrantDoc =
  g_Schema :: string
  g_GrantID :: string
  g_RequestID :: string
  g_ActorID :: string
  g_ActionType :: string
  g_ActionDigest :: string
  g_ResourceScope :: "string list"
  g_WorkflowRunID :: string
  g_IssuedAt :: string
  g_ExpiresAt :: string
  g_SingleUse :: bool
  g_ServerSignature :: string

record grant_lib =
  gl_Marshal :: "GrantDoc \<Rightarrow> bytes option"
  gl_Unmarshal :: "bytes \<Rightarrow> GrantDoc option"
  gl_ParseTime :: "string \<Rightarrow> gotime option"

definition GrantSchema :: string where
  "GrantSchema = ''rook.approval_grant.v1''"

definition ActionDigest :: "crypto \<Rightarrow> string \<Rightarrow> string \<Rightarrow> string \<Rightarrow> string \<Rightarrow> bytes \<Rightarrow> string" where
  "ActionDigest cr workflowRunID deviceID resourceType resourceID ledgerPayload =
     hex_EncodeToString (sha256 cr (workflowRunID @ ''|'' @ deviceID @ ''|'' @ resourceType
       @ ''|'' @ resourceID @ ''|'' @ ledgerPayload))"

datatype grant_error =
    NoGrantDocument | NoLedgerPayload | LedgerMismatch | GrantNotJSON | BadSchema
  | WrongGrant | BadGrantSignature | BadExpiry | GrantExpired | WrongRun | ScopeMissing string
  | WrongAction | GrantMarshal

text \<open>The outer option is the panic; a marshalling failure leaves the signature cleared.\<close>

definition SignGrant ::
    "crypto \<Rightarrow> grant_lib \<Rightarrow> bytes \<Rightarrow> GrantDoc \<Rightarrow> (grant_error option \<times> GrantDoc) option" where
  "SignGrant cr gl sk doc =
    (let cleared = doc\<lparr>g_ServerSignature := []\<rparr> in
     case gl_Marshal gl cleared of
       None \<Rightarrow> Some (Some GrantMarshal, cleared)
     | Some raw \<Rightarrow> map_option
         (\<lambda>sig. (None, cleared\<lparr>g_ServerSignature := StdEncoding_EncodeToString sig\<rparr>))
         (ed25519_Sign cr sk raw))"

definition VerifyGrantSignature :: "crypto \<Rightarrow> grant_lib \<Rightarrow> bytes \<Rightarrow> GrantDoc \<Rightarrow> bool option" where
  "VerifyGrantSignature cr gl pk doc =
    (case StdEncoding_DecodeString (g_ServerSignature doc) of
       None \<Rightarrow> Some False
     | Some sig \<Rightarrow>
         (if length sig = 0 then Some False
          else case gl_Marshal gl (doc\<lparr>g_ServerSignature := []\<rparr>) of
            None \<Rightarrow> Some False
          | Some raw \<Rightarrow> ed25519_Verify cr pk raw sig))"

definition VerifiedLedgerPayload :: "crypto \<Rightarrow> 'ts EdgeCommand \<Rightarrow> grant_error + bytes" where
  "VerifiedLedgerPayload cr cmd =
    (if length (ec_LedgerPayload cmd) = 0 then Inl NoLedgerPayload
     else if sha256 cr (ec_LedgerPayload cmd) \<noteq> ec_PayloadDigest cmd then Inl LedgerMismatch
     else Inr (ec_LedgerPayload cmd))"

definition command_scopes :: "'ts EdgeCommand \<Rightarrow> string list" where
  "command_scopes cmd =
     [''device:'' @ ec_DeviceId cmd, ec_ResourceType cmd @ '':'' @ ec_ResourceId cmd]"

definition command_digest :: "crypto \<Rightarrow> 'ts EdgeCommand \<Rightarrow> bytes \<Rightarrow> string" where
  "command_digest cr cmd payload = ''sha256:'' @ ActionDigest cr (ec_WorkflowRunId cmd)
     (ec_DeviceId cmd) (ec_ResourceType cmd) (ec_ResourceId cmd) payload"

text \<open>The checks after the signature, from the expiry on.\<close>

definition grant_covers ::
    "crypto \<Rightarrow> grant_lib \<Rightarrow> 'ts EdgeCommand \<Rightarrow> gotime \<Rightarrow> bytes \<Rightarrow> GrantDoc \<Rightarrow> grant_error + GrantDoc" where
  "grant_covers cr gl cmd now payload doc =
    (case gl_ParseTime gl (g_ExpiresAt doc) of
       None \<Rightarrow> Inl BadExpiry
     | Some expires \<Rightarrow>
         (if now > expires then Inl GrantExpired
          else if g_WorkflowRunID doc \<noteq> ec_WorkflowRunId cmd then Inl WrongRun
          else case find (\<lambda>sc. sc \<notin> set (g_ResourceScope doc)) (command_scopes cmd) of
            Some sc \<Rightarrow> Inl (ScopeMissing sc)
          | None \<Rightarrow>
              (if g_ActionDigest doc \<noteq> command_digest cr cmd payload then Inl WrongAction
               else Inr doc)))"

definition VerifyCommandGrant ::
    "crypto \<Rightarrow> grant_lib \<Rightarrow> bytes option \<Rightarrow> 'ts EdgeCommand \<Rightarrow> gotime
     \<Rightarrow> (grant_error + GrantDoc) option" where
  "VerifyCommandGrant cr gl cloudKey cmd now =
    (if length (ec_ApprovalGrant cmd) = 0 then Some (Inl NoGrantDocument)
     else case VerifiedLedgerPayload cr cmd of
       Inl e \<Rightarrow> Some (Inl e)
     | Inr payload \<Rightarrow>
         (case gl_Unmarshal gl (ec_ApprovalGrant cmd) of
            None \<Rightarrow> Some (Inl GrantNotJSON)
          | Some doc \<Rightarrow>
              (if g_Schema doc \<noteq> GrantSchema then Some (Inl BadSchema)
               else if g_GrantID doc \<noteq> ec_ApprovalGrantId cmd then Some (Inl WrongGrant)
               else case cloudKey of
                 None \<Rightarrow> Some (grant_covers cr gl cmd now payload doc)
               | Some key \<Rightarrow>
                   (case VerifyGrantSignature cr gl key doc of
                      None \<Rightarrow> None
                    | Some False \<Rightarrow> Some (Inl BadGrantSignature)
                    | Some True \<Rightarrow> Some (grant_covers cr gl cmd now payload doc)))))"

section \<open>Lemmas\<close>

interpretation edge_enc: canonical_encoding edge_canonical
  by unfold_locales (simp add: edge_canonical_def foldl_append_fields prefixed_def)

lemma fits_edge_domains [simp]: "fits commandDomain" "fits eventDomain"
  by (simp_all add: fits_def commandDomain_def eventDomain_def)

lemma fits_PutUint64 [simp]: "fits (PutUint64 v)"
  by (simp add: fits_def)

lemma fits_payload_sum: "sha256_sized cr \<Longrightarrow> fits (payload_sum cr pl)"
  by (auto simp: fits_def payload_sum_def sha256_sized_def split: option.splits)

lemma ucast_attempt_inject: "ucast (a :: u32) = (ucast b :: u64) \<longleftrightarrow> a = b"
  by transfer simp

text \<open>What a command's and an event's encoding is made of.\<close>

definition command_view where
  "command_view cr asTime cmd =
    ((ec_ProtocolVersion cmd, ec_CommandId cmd, ec_LogicalOperationId cmd, ec_Attempt cmd,
      ec_DeviceId cmd, ec_TaskId cmd, ec_WorkflowRunId cmd, ec_ResourceType cmd, ec_ResourceId cmd),
     (ec_FencingToken cmd, ec_ExpectedAggregateVersion cmd, stamp_nanos asTime (ec_ExpiresAt cmd),
      ec_IdempotencyKey cmd, ec_ApprovalGrantId cmd, ec_PolicyContextHash cmd,
      payload_type (ec_Payload cmd), payload_sum cr (ec_Payload cmd), ec_PayloadDigest cmd))"

definition event_view where
  "event_view cr asTime ev =
    (ev_EventId ev, ev_DeviceId ev, ev_DeviceSequence ev, ev_CommandId ev, ev_Type ev,
     stamp_nanos asTime (ev_OccurredAt ev), ev_FencingToken ev,
     payload_type (ev_Payload ev), payload_sum cr (ev_Payload ev), ev_PayloadDigest ev)"

definition command_fits :: "'ts EdgeCommand \<Rightarrow> bool" where
  "command_fits cmd \<longleftrightarrow> list_all fits
     [ec_ProtocolVersion cmd, ec_CommandId cmd, ec_LogicalOperationId cmd, ec_DeviceId cmd,
      ec_TaskId cmd, ec_WorkflowRunId cmd, ec_ResourceType cmd, ec_ResourceId cmd,
      ec_IdempotencyKey cmd, ec_ApprovalGrantId cmd, ec_PolicyContextHash cmd,
      payload_type (ec_Payload cmd), ec_PayloadDigest cmd]"

definition event_fits :: "'ts EdgeEvent \<Rightarrow> bool" where
  "event_fits ev \<longleftrightarrow> list_all fits
     [ev_EventId ev, ev_DeviceId ev, ev_CommandId ev, ev_Type ev, payload_type (ev_Payload ev),
      ev_PayloadDigest ev]"

lemma commandBytes_iff:
  assumes "sha256_sized cr" and "command_fits c" and "command_fits c'"
  shows "commandBytes cr asTime c = commandBytes cr asTime c'
    \<longleftrightarrow> command_view cr asTime c = command_view cr asTime c'"
proof
  assume "commandBytes cr asTime c = commandBytes cr asTime c'"
  from edge_enc.unambiguous [OF this [unfolded commandBytes_def]] assms
  show "command_view cr asTime c = command_view cr asTime c'"
    by (simp add: command_fits_def command_view_def fits_payload_sum PutUint64_inject
        ucast_attempt_inject)
next
  assume "command_view cr asTime c = command_view cr asTime c'"
  then show "commandBytes cr asTime c = commandBytes cr asTime c'"
    by (simp add: command_view_def commandBytes_def)
qed

lemma eventBytes_iff:
  assumes "sha256_sized cr" and "event_fits e" and "event_fits e'"
  shows "eventBytes cr asTime e = eventBytes cr asTime e'
    \<longleftrightarrow> event_view cr asTime e = event_view cr asTime e'"
proof
  assume "eventBytes cr asTime e = eventBytes cr asTime e'"
  from edge_enc.unambiguous [OF this [unfolded eventBytes_def]] assms
  show "event_view cr asTime e = event_view cr asTime e'"
    by (simp add: event_fits_def event_view_def fits_payload_sum PutUint64_inject)
next
  assume "event_view cr asTime e = event_view cr asTime e'"
  then show "eventBytes cr asTime e = eventBytes cr asTime e'"
    by (simp add: event_view_def eventBytes_def)
qed

lemma command_event_disjoint: "commandBytes cr asTime c \<noteq> eventBytes cr asTime e"
  unfolding commandBytes_def eventBytes_def
  by (rule edge_enc.domain_separated) (simp_all, simp add: commandDomain_def eventDomain_def)

lemma commandBytes_signature [simp]:
  "commandBytes cr asTime (c\<lparr>ec_CloudSignature := s\<rparr>) = commandBytes cr asTime c"
  by (simp add: commandBytes_def)

lemma eventBytes_signature [simp]:
  "eventBytes cr asTime (e\<lparr>ev_DeviceSignature := s\<rparr>) = eventBytes cr asTime e"
  by (simp add: eventBytes_def)

lemma find_missing_scope:
  "find (\<lambda>sc. sc \<notin> set S) xs = None \<longleftrightarrow> set xs \<subseteq> set S"
  by (auto simp: find_None_iff)

lemma grant_covers_Inr:
  "grant_covers cr gl cmd now payload doc = Inr g \<longleftrightarrow> g = doc
   \<and> (\<exists>ex. gl_ParseTime gl (g_ExpiresAt doc) = Some ex \<and> now \<le> ex)
   \<and> g_WorkflowRunID doc = ec_WorkflowRunId cmd
   \<and> set (command_scopes cmd) \<subseteq> set (g_ResourceScope doc)
   \<and> g_ActionDigest doc = command_digest cr cmd payload"
  by (auto simp: grant_covers_def simp flip: find_missing_scope split: option.splits if_splits)

lemma VerifiedLedgerPayload_Inr:
  "VerifiedLedgerPayload cr cmd = Inr pl \<longleftrightarrow>
   pl = ec_LedgerPayload cmd \<and> pl \<noteq> [] \<and> sha256 cr pl = ec_PayloadDigest cmd"
  by (auto simp: VerifiedLedgerPayload_def)

text \<open>The device's checklist as one formula.\<close>

definition grant_checklist ::
    "crypto \<Rightarrow> grant_lib \<Rightarrow> bytes option \<Rightarrow> 'ts EdgeCommand \<Rightarrow> gotime \<Rightarrow> GrantDoc \<Rightarrow> bool" where
  "grant_checklist cr gl cloudKey cmd now doc \<longleftrightarrow>
     ec_ApprovalGrant cmd \<noteq> [] \<and> gl_Unmarshal gl (ec_ApprovalGrant cmd) = Some doc
   \<and> ec_LedgerPayload cmd \<noteq> [] \<and> sha256 cr (ec_LedgerPayload cmd) = ec_PayloadDigest cmd
   \<and> g_Schema doc = GrantSchema \<and> g_GrantID doc = ec_ApprovalGrantId cmd
   \<and> (case cloudKey of None \<Rightarrow> True | Some key \<Rightarrow> VerifyGrantSignature cr gl key doc = Some True)
   \<and> (case gl_ParseTime gl (g_ExpiresAt doc) of None \<Rightarrow> False | Some ex \<Rightarrow> now \<le> ex)
   \<and> g_WorkflowRunID doc = ec_WorkflowRunId cmd
   \<and> set (command_scopes cmd) \<subseteq> set (g_ResourceScope doc)
   \<and> g_ActionDigest doc = command_digest cr cmd (ec_LedgerPayload cmd)"

lemma VerifyCommandGrant_Inr:
  "VerifyCommandGrant cr gl ck cmd now = Some (Inr doc) \<longleftrightarrow> grant_checklist cr gl ck cmd now doc"
  unfolding VerifyCommandGrant_def grant_checklist_def
  by (auto simp: grant_covers_Inr VerifiedLedgerPayload_def
      split: option.splits sum.splits if_splits bool.splits)

lemma SignGrant_verifies:
  assumes "ed25519_correct cr" and "length seed = 32"
    and "SignGrant cr gl (NewKeyFromSeed cr seed) doc = Some (None, doc')"
  shows "VerifyGrantSignature cr gl (ed_pub_of_seed cr seed) doc' = Some True"
proof -
  obtain raw where raw: "gl_Marshal gl (doc\<lparr>g_ServerSignature := []\<rparr>) = Some raw"
    using assms(3) by (auto simp: SignGrant_def Let_def split: option.splits)
  obtain sig where "ed25519_Sign cr (NewKeyFromSeed cr seed) raw = Some sig" "sig \<noteq> []"
    "ed25519_Verify cr (ed_pub_of_seed cr seed) raw sig = Some True"
    using sign_then_verify [OF assms(1,2)] by metis
  then show ?thesis using raw assms(3)
    by (auto simp: SignGrant_def VerifyGrantSignature_def b64_decode_encode Let_def)
qed

lemma VerifyCommandGrant_total:
  "(case ck of None \<Rightarrow> True | Some key \<Rightarrow> length key = PublicKeySize) \<Longrightarrow>
   VerifyCommandGrant cr gl ck cmd now \<noteq> None"
  by (auto simp: VerifyCommandGrant_def VerifyGrantSignature_def ed25519_Verify_def
      split: option.splits sum.splits if_splits bool.splits)

lemma seed_roundtrip:
  "length seed = 32 \<Longrightarrow>
   DecodeSeed cr (EncodeSeed (NewKeyFromSeed cr seed)) = Inr (NewKeyFromSeed cr seed)"
  by (simp add: DecodeSeed_def EncodeSeed_def b64_decode_encode key_parts SeedSize_def)

definition bar_free :: "string \<Rightarrow> bool" where
  "bar_free s \<longleftrightarrow> CHR ''|'' \<notin> set s"

definition action_preimage :: "string \<Rightarrow> string \<Rightarrow> string \<Rightarrow> string \<Rightarrow> bytes \<Rightarrow> bytes" where
  "action_preimage run dev rt rid payload =
     run @ ''|'' @ dev @ ''|'' @ rt @ ''|'' @ rid @ ''|'' @ payload"

lemma action_preimage_inject:
  assumes "action_preimage run d rt rid pl = action_preimage run d' rt' rid' pl'"
    and "list_all bar_free [d, rt, rid, d', rt', rid']"
  shows "d = d' \<and> rt = rt' \<and> rid = rid' \<and> pl = pl'"
proof -
  have free: "CHR ''|'' \<notin> set d" "CHR ''|'' \<notin> set d'" "CHR ''|'' \<notin> set rt"
    "CHR ''|'' \<notin> set rt'" "CHR ''|'' \<notin> set rid" "CHR ''|'' \<notin> set rid'"
    using assms(2) by (simp_all add: bar_free_def)
  have "d @ CHR ''|'' # rt @ CHR ''|'' # rid @ CHR ''|'' # pl
      = d' @ CHR ''|'' # rt' @ CHR ''|'' # rid' @ CHR ''|'' # pl'"
    using assms(1) by (simp add: action_preimage_def)
  from split_at_first [OF this] free have
    d: "d = d'" and 1: "rt @ CHR ''|'' # rid @ CHR ''|'' # pl = rt' @ CHR ''|'' # rid' @ CHR ''|'' # pl'"
    by simp_all
  from split_at_first [OF 1] free have
    rt: "rt = rt'" and 2: "rid @ CHR ''|'' # pl = rid' @ CHR ''|'' # pl'" by simp_all
  from split_at_first [OF 2] free d rt show ?thesis by simp
qed

lemma ActionDigest_preimage:
  "ActionDigest cr run d rt rid pl = hex_EncodeToString (sha256 cr (action_preimage run d rt rid pl))"
  by (simp add: ActionDigest_def action_preimage_def)

text \<open>Without the separator-free hypothesis the digest does not determine the action, whatever
  the hash: a bar can move from one field to the next.\<close>

lemma ActionDigest_shifts:
  "ActionDigest cr run (d @ ''|'' @ x) rt rid pl = ActionDigest cr run d (x @ ''|'' @ rt) rid pl"
  by (simp add: ActionDigest_def)

section \<open>A concrete grant for the witnesses\<close>

definition demo_command :: "gotime EdgeCommand" where
  "demo_command = \<lparr>ec_ProtocolVersion = ''1'', ec_CommandId = ''cmd'', ec_LogicalOperationId = ''op'',
     ec_Attempt = 1, ec_DeviceId = ''mac'', ec_TaskId = ''t'', ec_WorkflowRunId = ''run'',
     ec_ResourceType = ''agent'', ec_ResourceId = ''a1'', ec_FencingToken = 4,
     ec_ExpectedAggregateVersion = 2, ec_ExpiresAt = Some 900, ec_IdempotencyKey = ''i'',
     ec_ApprovalGrantId = ''g'', ec_PolicyContextHash = ''p'',
     ec_Payload = Some \<lparr>any_TypeUrl = ''T'', any_Value = ''v''\<rparr>,
     ec_PayloadDigest = sha256 demo_crypto ''go'', ec_CloudSignature = [],
     ec_ApprovalGrant = ''doc'', ec_LedgerPayload = ''go''\<rparr>"

definition demo_grant :: GrantDoc where
  "demo_grant = \<lparr>g_Schema = GrantSchema, g_GrantID = ''g'', g_RequestID = ''r'', g_ActorID = ''h'',
     g_ActionType = ''say'', g_ActionDigest = command_digest demo_crypto demo_command ''go'',
     g_ResourceScope = [''device:mac'', ''agent:a1''], g_WorkflowRunID = ''run'',
     g_IssuedAt = [], g_ExpiresAt = [], g_SingleUse = True, g_ServerSignature = []\<rparr>"

definition demo_grant_lib :: grant_lib where
  "demo_grant_lib = \<lparr>gl_Marshal = (\<lambda>d. Some (g_GrantID d)), gl_Unmarshal = (\<lambda>b. Some demo_grant),
     gl_ParseTime = (\<lambda>s. Some 1000)\<rparr>"

lemma demo_command_fits: "command_fits demo_command" "command_fits (demo_command\<lparr>ec_DeviceId := d\<rparr>) \<longleftrightarrow> fits d"
  by (simp_all add: command_fits_def demo_command_def fits_def payload_type_def demo_crypto_def)

lemma demo_grant_accepted:
  "VerifyCommandGrant demo_crypto demo_grant_lib None (demo_command\<lparr>ec_Attempt := n\<rparr>) 1000
   = Some (Inr demo_grant)"
  by (simp add: VerifyCommandGrant_Inr grant_checklist_def demo_command_def demo_grant_def
      demo_grant_lib_def command_scopes_def command_digest_def)

section \<open>Properties\<close>

text \<open>C32: The two edge envelopes sign exactly what they say they sign. Two commands have the same
  signed bytes exactly when they agree on every field the encoding lists, each on its own (a
  payload through its type and digest, the expiry through its nanoseconds), two events likewise,
  and no command shares its bytes with an event.\<close>
theorem envelope_bytes_bind:
  assumes "sha256_sized cr" and "command_fits c" and "command_fits c'"
    and "event_fits e" and "event_fits e'"
  shows "(commandBytes cr asTime c = commandBytes cr asTime c'
      \<longleftrightarrow> command_view cr asTime c = command_view cr asTime c')
    \<and> (eventBytes cr asTime e = eventBytes cr asTime e'
      \<longleftrightarrow> event_view cr asTime e = event_view cr asTime e')
    \<and> commandBytes cr asTime c \<noteq> eventBytes cr asTime e"
  using commandBytes_iff [OF assms(1-3)] eventBytes_iff [OF assms(1,4,5)]
  by (simp add: command_event_disjoint)

theorem envelope_bytes_bind_witness:
  "commandBytes demo_crypto id demo_command
   \<noteq> commandBytes demo_crypto id (demo_command\<lparr>ec_DeviceId := ''ma''\<rparr>)"
proof -
  define e :: "gotime EdgeEvent" where "e = \<lparr>ev_EventId = [], ev_DeviceId = [], ev_DeviceSequence = 0, ev_CommandId = [],
    ev_Type = [], ev_OccurredAt = None, ev_FencingToken = 0, ev_Payload = None,
    ev_PayloadDigest = [], ev_DeviceSignature = [], ev_Traceparent = []\<rparr>"
  have e: "event_fits e" by (simp add: e_def event_fits_def payload_type_def fits_def)
  have c: "command_fits (demo_command\<lparr>ec_DeviceId := ''ma''\<rparr>)"
    by (simp add: demo_command_fits(2) fits_def)
  show ?thesis
    using envelope_bytes_bind [OF demo_crypto_ok(1) demo_command_fits(1) c e e, of id]
    by (simp add: command_view_def demo_command_def)
qed

text \<open>What the holder of a key signs, everyone with its public key accepts: \<^verbatim>\<open>SignCommand\<close> and
  \<^verbatim>\<open>SignEvent\<close> with a key restored from its encoded seed return the envelope with only the
  signature filled in, and the matching verification accepts it; an envelope with no signature
  is refused under every key, without touching the key.\<close>
theorem signed_envelopes_verify:
  assumes "ed25519_correct cr" and "length seed = 32"
    and "DecodeSeed cr (EncodeSeed (NewKeyFromSeed cr seed)) = Inr sk"
  shows "\<exists>s s'. SignCommand cr asTime sk c = Some (c\<lparr>ec_CloudSignature := s\<rparr>)
    \<and> VerifyCommand cr asTime (PrivateKey_Public sk) (c\<lparr>ec_CloudSignature := s\<rparr>) = Some True
    \<and> SignEvent cr asTime sk e = Some (e\<lparr>ev_DeviceSignature := s'\<rparr>)
    \<and> VerifyEvent cr asTime (PrivateKey_Public sk) (e\<lparr>ev_DeviceSignature := s'\<rparr>) = Some True
    \<and> VerifyCommand cr asTime pk (c\<lparr>ec_CloudSignature := []\<rparr>) = Some False
    \<and> VerifyEvent cr asTime pk (e\<lparr>ev_DeviceSignature := []\<rparr>) = Some False"
proof -
  have sk: "sk = NewKeyFromSeed cr seed"
    using assms(2,3) by (simp add: seed_roundtrip)
  have pub: "PrivateKey_Public sk = ed_pub_of_seed cr seed"
    using assms(2) sk by (simp add: key_parts)
  obtain s where s: "ed25519_Sign cr sk (commandBytes cr asTime c) = Some s" "s \<noteq> []"
    "ed25519_Verify cr (ed_pub_of_seed cr seed) (commandBytes cr asTime c) s = Some True"
    using sign_then_verify [OF assms(1,2)] unfolding sk by metis
  obtain s' where s': "ed25519_Sign cr sk (eventBytes cr asTime e) = Some s'" "s' \<noteq> []"
    "ed25519_Verify cr (ed_pub_of_seed cr seed) (eventBytes cr asTime e) s' = Some True"
    using sign_then_verify [OF assms(1,2)] unfolding sk by metis
  show ?thesis using s s' pub
    by (auto simp: SignCommand_def VerifyCommand_def SignEvent_def VerifyEvent_def)
qed

theorem signed_envelopes_verify_witness:
  "\<exists>s. SignCommand demo_crypto id (NewKeyFromSeed demo_crypto (replicate 32 (CHR ''k''))) demo_command
     = Some (demo_command\<lparr>ec_CloudSignature := s\<rparr>)"
proof -
  have l: "length (replicate 32 (CHR ''k'')) = 32" by simp
  show ?thesis
    using signed_envelopes_verify [OF demo_crypto_ok(2) l seed_roundtrip [OF l], of id demo_command]
    by blast
qed

text \<open>A command may spend a grant exactly when the whole checklist holds: a grant document and a
  ledger payload are present, the payload is the one the envelope's digest names, the document
  parses, has the schema and is the grant the command names, its signature verifies when the
  cloud has a key, it has not expired, and run, scope and action digest match. With no key, or one
  of the right size, the check never panics.\<close>
theorem VerifyCommandGrant_checklist:
  "(VerifyCommandGrant cr gl ck cmd now = Some (Inr doc) \<longleftrightarrow> grant_checklist cr gl ck cmd now doc)
   \<and> ((case ck of None \<Rightarrow> True | Some key \<Rightarrow> length key = PublicKeySize)
      \<longrightarrow> VerifyCommandGrant cr gl ck cmd now \<noteq> None)"
  using VerifyCommandGrant_total [of ck cr gl cmd now] by (simp add: VerifyCommandGrant_Inr)

theorem VerifyCommandGrant_checklist_witness:
  "VerifyCommandGrant demo_crypto demo_grant_lib (Some (replicate 32 (CHR ''k''))) demo_command 1000
   \<noteq> None \<and> \<not> grant_checklist demo_crypto demo_grant_lib None demo_command 1001 demo_grant"
  using VerifyCommandGrant_checklist [of demo_crypto demo_grant_lib "Some (replicate 32 (CHR ''k''))"
      demo_command 1000 demo_grant]
  by (simp add: PublicKeySize_def grant_checklist_def demo_grant_lib_def)

text \<open>C33: One grant authorises one action. If two commands both pass the checklist with the same
  grant document, they name the same grant and the same workflow run; and if their identifiers
  carry no bar and the digest does not collide on the two actions, they also address the same
  device and resource and carry the same ledger payload.\<close>
theorem one_grant_one_action:
  assumes "VerifyCommandGrant cr gl ck c now = Some (Inr doc)"
    and "VerifyCommandGrant cr gl ck' c' now' = Some (Inr doc)"
  shows "ec_ApprovalGrantId c = ec_ApprovalGrantId c' \<and> ec_WorkflowRunId c = ec_WorkflowRunId c'
    \<and> (let pre = (\<lambda>x. action_preimage (ec_WorkflowRunId x) (ec_DeviceId x) (ec_ResourceType x)
             (ec_ResourceId x) (ec_LedgerPayload x)) in
       list_all bar_free [ec_DeviceId c, ec_ResourceType c, ec_ResourceId c,
         ec_DeviceId c', ec_ResourceType c', ec_ResourceId c']
       \<and> (sha256 cr (pre c) = sha256 cr (pre c') \<longrightarrow> pre c = pre c')
       \<longrightarrow> ec_DeviceId c = ec_DeviceId c' \<and> ec_ResourceType c = ec_ResourceType c'
         \<and> ec_ResourceId c = ec_ResourceId c' \<and> ec_LedgerPayload c = ec_LedgerPayload c')"
proof -
  have both: "grant_checklist cr gl ck c now doc" "grant_checklist cr gl ck' c' now' doc"
    using assms by (simp_all add: VerifyCommandGrant_Inr)
  have run: "ec_WorkflowRunId c = ec_WorkflowRunId c'"
    using both by (simp add: grant_checklist_def)
  have "command_digest cr c (ec_LedgerPayload c) = command_digest cr c' (ec_LedgerPayload c')"
    using both by (simp add: grant_checklist_def)
  then have "sha256 cr (action_preimage (ec_WorkflowRunId c) (ec_DeviceId c) (ec_ResourceType c)
        (ec_ResourceId c) (ec_LedgerPayload c))
      = sha256 cr (action_preimage (ec_WorkflowRunId c') (ec_DeviceId c') (ec_ResourceType c')
        (ec_ResourceId c') (ec_LedgerPayload c'))"
    by (simp add: command_digest_def ActionDigest_preimage hex_EncodeToString_inject)
  then show ?thesis
    using both run action_preimage_inject unfolding Let_def grant_checklist_def by metis
qed

theorem one_grant_one_action_witness:
  "VerifyCommandGrant demo_crypto demo_grant_lib None (demo_command\<lparr>ec_Attempt := 1\<rparr>) 1000
     = Some (Inr demo_grant)
   \<and> ec_LedgerPayload (demo_command\<lparr>ec_Attempt := 1\<rparr>) = ec_LedgerPayload (demo_command\<lparr>ec_Attempt := 2\<rparr>)"
  using one_grant_one_action [OF demo_grant_accepted [of 1] demo_grant_accepted [of 2]]
    demo_grant_accepted [of 1]
  by (simp add: Let_def demo_command_def bar_free_def)

end
