(* ===== verification/EdgeClient.thy ===== *)
theory EdgeClient
  imports Edgesign
begin

text \<open>
  \<^verbatim>\<open>src/edgeclient/client.go\<close> and \<^verbatim>\<open>src/edge/edge.go\<close>: the device side of the edge rail. One pass of
  \<^verbatim>\<open>SyncOnce\<close> is a function of the answers of the cloud and of the embedding program; every call it
  makes to either is logged in order. What lies outside is an argument, a field of \<open>edge_env\<close>: the
  RPC answers, the executor and the agent hook (by the position of the command in the batch, so they
  may answer differently each time), clock readings, \<^verbatim>\<open>anypb.New\<close> and the JSON of a refusal.
  \<open>None\<close> for a whole pass is a panic of \<^verbatim>\<open>crypto/ed25519\<close>.
\<close>

section \<open>Constants and messages\<close>

definition edge_ProtocolVersion :: string where
  "edge_ProtocolVersion = ''rook-edge/1''"

definition EventTypeCommandResult :: string where
  "EventTypeCommandResult = ''com.rook.edge.command_result.v1''"

definition EventTypeAgentEvent :: string where
  "EventTypeAgentEvent = ''com.rook.edge.agent_event.v1''"

record RegisterDeviceRequest =
  rdq_ProtocolVersion :: string
  rdq_DeviceName :: string
  rdq_Platform :: string
  rdq_Capabilities :: "string list"
  rdq_PublicKey :: bytes

text \<open>A nil byte slice is \<open>None\<close>: the client tests the cloud key both for nil and for its length.\<close>

record RegisterDeviceResponse =
  rdx_DeviceId :: string
  rdx_CloudPublicKey :: "bytes option"

record 'ts SyncEdgeResponse =
  sex_Commands :: "'ts EdgeCommand list"
  sex_AckedDeviceSequence :: u64
  sex_PollIntervalSeconds :: u32

record EventRejection =
  erj_DeviceSequence :: u64
  erj_Reason :: string

record SubmitEventsResponse =
  svx_AckedDeviceSequence :: u64
  svx_Rejections :: "EventRejection list"

record CommandResult =
  crs_CommandId :: string
  crs_Status :: string
  crs_ResultJson :: bytes

record AgentEvent =
  aev_SessionId :: string
  aev_Kind :: string
  aev_Summary :: string
  aev_DataJson :: bytes

record AgentUpdate =
  au_SessionID :: string
  au_Kind :: string
  au_Summary :: string
  au_DataJSON :: bytes

record Client =
  cl_Key :: "bytes option"
  cl_cloudKey :: "bytes option"

record SyncReport =
  rp_Commands :: nat
  rp_Reported :: nat
  rp_AckedSeq :: u64
  rp_PollSeconds :: u32
  rp_Rejections :: "string list"

text \<open>The codes the client distinguishes.\<close>

datatype rpc_code = Unauthenticated | Unimplemented | OtherCode

datatype event_error = EmptyStatus | EmptyAgentUpdate | AnyFailed

datatype sync_error =
    SyncFailed rpc_code
  | AckFailed string rpc_code
  | ResultEventFailed string event_error
  | AgentEventFailed string event_error
  | SubmitFailed rpc_code

datatype refusal = CloudSignatureBad | LedgerBad grant_error | GrantBad grant_error

record 'ts edge_env =
  en_crypto :: crypto
  en_asTime :: "'ts \<Rightarrow> gotime"
  en_grants :: grant_lib
  en_now :: "nat \<Rightarrow> gotime"
  en_stamp :: "u64 \<Rightarrow> 'ts"
  en_reason_json :: "refusal \<Rightarrow> bytes"
  en_result_any :: "CommandResult \<Rightarrow> Any option"
  en_agent_any :: "AgentEvent \<Rightarrow> Any option"
  en_ack :: "nat \<Rightarrow> rpc_code option"
  en_execute :: "nat \<Rightarrow> 'ts EdgeCommand \<Rightarrow> string \<times> bytes"
  en_agent :: "(nat \<Rightarrow> 'ts EdgeCommand \<Rightarrow> string \<Rightarrow> bytes \<Rightarrow> AgentUpdate list) option"
  en_submit :: "'ts EdgeEvent list \<Rightarrow> rpc_code + SubmitEventsResponse"

datatype 'ts edge_call = DoAck string | DoExecute "'ts EdgeCommand" | DoSubmit "'ts EdgeEvent list"

section \<open>The credential\<close>

text \<open>The interceptor of \<^verbatim>\<open>NewRPC\<close>: \<open>nxt\<close> is the rest of the chain, a function of the request header.\<close>

definition WrapUnary :: "string \<Rightarrow> ((string, string) gomap \<Rightarrow> 'r) \<Rightarrow> (string, string) gomap \<Rightarrow> 'r" where
  "WrapUnary token nxt header = nxt (AList.update ''Authorization'' (''Bearer '' @ token) header)"

text \<open>A stream is stamped after its connection has been made and before anything is sent on it: \<open>nxt\<close>
  gives the connection's own header.\<close>

definition WrapStreamingClient ::
    "string \<Rightarrow> ('spec \<Rightarrow> (string, string) gomap) \<Rightarrow> 'spec \<Rightarrow> (string, string) gomap" where
  "WrapStreamingClient token nxt spec = AList.update ''Authorization'' (''Bearer '' @ token) (nxt spec)"

lemma every_call_carries_the_token:
  "map_of (WrapUnary token (\<lambda>h. h) header) ''Authorization'' = Some (''Bearer '' @ token)"
  "map_of (WrapStreamingClient token nxt spec) ''Authorization'' = Some (''Bearer '' @ token)"
  by (simp_all add: WrapUnary_def WrapStreamingClient_def)

section \<open>Registration\<close>

definition register_request :: "string \<Rightarrow> string \<Rightarrow> string list \<Rightarrow> Client \<Rightarrow> RegisterDeviceRequest" where
  "register_request name platform capabilities c =
     \<lparr>rdq_ProtocolVersion = edge_ProtocolVersion, rdq_DeviceName = name, rdq_Platform = platform,
      rdq_Capabilities = capabilities,
      rdq_PublicKey = (case cl_Key c of None \<Rightarrow> [] | Some sk \<Rightarrow> PrivateKey_Public sk)\<rparr>"

text \<open>\<open>rpc\<close> is what the cloud answers to the request.\<close>

definition Register ::
    "(RegisterDeviceRequest \<Rightarrow> rpc_code + RegisterDeviceResponse) \<Rightarrow> string \<Rightarrow> string \<Rightarrow> string list \<Rightarrow> Client
     \<Rightarrow> (rpc_code + string) \<times> Client" where
  "Register rpc name platform capabilities c =
    (case rpc (register_request name platform capabilities c) of
       Inl e \<Rightarrow> (Inl e, c)
     | Inr res \<Rightarrow> (Inr (rdx_DeviceId res), c\<lparr>cl_cloudKey := rdx_CloudPublicKey res\<rparr>))"

definition CloudSigning :: "Client \<Rightarrow> bool" where
  "CloudSigning c \<longleftrightarrow> (case cl_cloudKey c of None \<Rightarrow> False | Some k \<Rightarrow> length k > 0)"

section \<open>The checks before execution\<close>

text \<open>\<open>Some None\<close> is the empty reason, \<open>None\<close> a panic.\<close>

definition refuse :: "'ts edge_env \<Rightarrow> bytes option \<Rightarrow> gotime \<Rightarrow> 'ts EdgeCommand \<Rightarrow> refusal option option" where
  "refuse en cloudKey now cmd =
    (let signed = (case cloudKey of None \<Rightarrow> Some True
                   | Some key \<Rightarrow> VerifyCommand (en_crypto en) (en_asTime en) key cmd);
         ledger = (if length (ec_LedgerPayload cmd) > 0
                   then (case VerifiedLedgerPayload (en_crypto en) cmd of Inl e \<Rightarrow> Some e | Inr p \<Rightarrow> None)
                   else None)
     in case signed of
          None \<Rightarrow> None
        | Some False \<Rightarrow> Some (Some CloudSignatureBad)
        | Some True \<Rightarrow>
            (case ledger of
               Some e \<Rightarrow> Some (Some (LedgerBad e))
             | None \<Rightarrow>
                 (if ec_ApprovalGrantId cmd \<noteq> []
                  then case VerifyCommandGrant (en_crypto en) (en_grants en) cloudKey cmd now of
                    None \<Rightarrow> None
                  | Some (Inl e) \<Rightarrow> Some (Some (GrantBad e))
                  | Some (Inr doc) \<Rightarrow> Some None
                  else Some None)))"

section \<open>Events\<close>

definition resultEvent ::
    "'ts edge_env \<Rightarrow> 'ts EdgeCommand \<Rightarrow> u64 \<Rightarrow> string \<Rightarrow> bytes \<Rightarrow> event_error + 'ts EdgeEvent" where
  "resultEvent en cmd seq status resultJSON =
    (if status = [] then Inl EmptyStatus
     else case en_result_any en \<lparr>crs_CommandId = ec_CommandId cmd, crs_Status = status, crs_ResultJson = resultJSON\<rparr> of
       None \<Rightarrow> Inl AnyFailed
     | Some payload \<Rightarrow> Inr
        \<lparr>ev_EventId = ''devevt_'' @ ec_CommandId cmd @ ''_'' @ status,
         ev_DeviceId = ec_DeviceId cmd, ev_DeviceSequence = seq, ev_CommandId = ec_CommandId cmd,
         ev_Type = EventTypeCommandResult, ev_OccurredAt = Some (en_stamp en seq), ev_FencingToken = 0,
         ev_Payload = Some payload, ev_PayloadDigest = sha256 (en_crypto en) (any_Value payload),
         ev_DeviceSignature = [], ev_Traceparent = []\<rparr>)"

definition agentEvent ::
    "'ts edge_env \<Rightarrow> 'ts EdgeCommand \<Rightarrow> u64 \<Rightarrow> nat \<Rightarrow> AgentUpdate \<Rightarrow> event_error + 'ts EdgeEvent" where
  "agentEvent en cmd seq i upd =
    (if au_SessionID upd = [] \<or> au_Kind upd = [] then Inl EmptyAgentUpdate
     else case en_agent_any en \<lparr>aev_SessionId = au_SessionID upd, aev_Kind = au_Kind upd,
         aev_Summary = au_Summary upd, aev_DataJson = au_DataJSON upd\<rparr> of
       None \<Rightarrow> Inl AnyFailed
     | Some payload \<Rightarrow> Inr
        \<lparr>ev_EventId = ''devevt_'' @ ec_CommandId cmd @ ''_agent_'' @ FormatInt (int i) @ ''_'' @ au_Kind upd,
         ev_DeviceId = ec_DeviceId cmd, ev_DeviceSequence = seq, ev_CommandId = ec_CommandId cmd,
         ev_Type = EventTypeAgentEvent, ev_OccurredAt = Some (en_stamp en seq), ev_FencingToken = 0,
         ev_Payload = Some payload, ev_PayloadDigest = sha256 (en_crypto en) (any_Value payload),
         ev_DeviceSignature = [], ev_Traceparent = []\<rparr>)"

definition sign_if_keyed :: "'ts edge_env \<Rightarrow> Client \<Rightarrow> 'ts EdgeEvent \<Rightarrow> 'ts EdgeEvent option" where
  "sign_if_keyed en c ev =
    (case cl_Key c of None \<Rightarrow> Some ev | Some sk \<Rightarrow> SignEvent (en_crypto en) (en_asTime en) sk ev)"

section \<open>One pass\<close>

text \<open>The local variables of the pass, with the calls it has made so far.\<close>

record 'ts pass =
  pa_seq :: u64
  pa_events :: "'ts EdgeEvent list"
  pa_log :: "'ts edge_call list"

text \<open>The outer option is the panic, the sum the early return.\<close>

type_synonym 'ts pass_result = "(sync_error option \<times> 'ts pass) option"

fun agent_events ::
    "'ts edge_env \<Rightarrow> Client \<Rightarrow> 'ts EdgeCommand \<Rightarrow> nat \<Rightarrow> AgentUpdate list \<Rightarrow> 'ts pass \<Rightarrow> 'ts pass_result" where
  "agent_events en c cmd i [] p = Some (None, p)"
| "agent_events en c cmd i (upd # upds) p =
    (let seq = pa_seq p + 1; p1 = p\<lparr>pa_seq := seq\<rparr> in
     case agentEvent en cmd seq i upd of
       Inl e \<Rightarrow> Some (Some (AgentEventFailed (ec_CommandId cmd) e), p1)
     | Inr ev \<Rightarrow>
         (case sign_if_keyed en c ev of
            None \<Rightarrow> None
          | Some ev' \<Rightarrow> agent_events en c cmd (Suc i) upds (p1\<lparr>pa_events := pa_events p1 @ [ev']\<rparr>)))"

text \<open>The status and result of the command at position \<open>n\<close>: rejected with the reason, or executed.\<close>

definition run_command ::
    "'ts edge_env \<Rightarrow> Client \<Rightarrow> nat \<Rightarrow> 'ts EdgeCommand \<Rightarrow> 'ts pass \<Rightarrow> ((string \<times> bytes) \<times> 'ts pass) option" where
  "run_command en c n cmd p =
    (case refuse en (cl_cloudKey c) (en_now en n) cmd of
       None \<Rightarrow> None
     | Some (Some reason) \<Rightarrow> Some ((''rejected'', en_reason_json en reason), p)
     | Some None \<Rightarrow> Some (en_execute en n cmd, p\<lparr>pa_log := pa_log p @ [DoExecute cmd]\<rparr>))"

definition sync_command ::
    "'ts edge_env \<Rightarrow> Client \<Rightarrow> nat \<Rightarrow> 'ts EdgeCommand \<Rightarrow> 'ts pass \<Rightarrow> 'ts pass_result" where
  "sync_command en c n cmd p0 =
    (let p = p0\<lparr>pa_log := pa_log p0 @ [DoAck (ec_CommandId cmd)]\<rparr> in
     case en_ack en n of
       Some code \<Rightarrow> Some (Some (AckFailed (ec_CommandId cmd) code), p)
     | None \<Rightarrow>
         (case run_command en c n cmd p of
            None \<Rightarrow> None
          | Some ((status, resultJSON), p1) \<Rightarrow>
              (let seq = pa_seq p1 + 1; p2 = p1\<lparr>pa_seq := seq\<rparr> in
               case resultEvent en cmd seq status resultJSON of
                 Inl e \<Rightarrow> Some (Some (ResultEventFailed (ec_CommandId cmd) e), p2)
               | Inr ev \<Rightarrow>
                   (case sign_if_keyed en c ev of
                      None \<Rightarrow> None
                    | Some ev' \<Rightarrow>
                        (let p3 = p2\<lparr>pa_events := pa_events p2 @ [ev']\<rparr> in
                         case en_agent en of
                           None \<Rightarrow> Some (None, p3)
                         | Some agent \<Rightarrow> agent_events en c cmd 0 (agent n cmd status resultJSON) p3)))))"

fun sync_commands ::
    "'ts edge_env \<Rightarrow> Client \<Rightarrow> nat \<Rightarrow> 'ts EdgeCommand list \<Rightarrow> 'ts pass \<Rightarrow> 'ts pass_result" where
  "sync_commands en c n [] p = Some (None, p)"
| "sync_commands en c n (cmd # cmds) p =
    (case sync_command en c n cmd p of
       None \<Rightarrow> None
     | Some (Some e, p') \<Rightarrow> Some (Some e, p')
     | Some (None, p') \<Rightarrow> sync_commands en c (Suc n) cmds p')"

definition zero_SyncReport :: SyncReport where
  "zero_SyncReport = \<lparr>rp_Commands = 0, rp_Reported = 0, rp_AckedSeq = 0, rp_PollSeconds = 0, rp_Rejections = []\<rparr>"

definition rejection_line :: "EventRejection \<Rightarrow> string" where
  "rejection_line rej = ''seq '' @ FormatInt (uint (erj_DeviceSequence rej)) @ '': '' @ erj_Reason rej"

text \<open>\<open>sync\<close> is the cloud's answer to \<^verbatim>\<open>SyncEdge\<close>.\<close>

definition SyncOnce ::
    "'ts edge_env \<Rightarrow> Client \<Rightarrow> rpc_code + 'ts SyncEdgeResponse
     \<Rightarrow> (SyncReport \<times> sync_error option \<times> 'ts edge_call list) option" where
  "SyncOnce en c sync =
    (case sync of
       Inl code \<Rightarrow> Some (zero_SyncReport, Some (SyncFailed code), [])
     | Inr msg \<Rightarrow>
         (let report = zero_SyncReport\<lparr>rp_Commands := length (sex_Commands msg),
                rp_AckedSeq := sex_AckedDeviceSequence msg, rp_PollSeconds := sex_PollIntervalSeconds msg\<rparr>
          in case sync_commands en c 0 (sex_Commands msg)
                    \<lparr>pa_seq = sex_AckedDeviceSequence msg, pa_events = [], pa_log = []\<rparr> of
               None \<Rightarrow> None
             | Some (Some e, p) \<Rightarrow> Some (report, Some e, pa_log p)
             | Some (None, p) \<Rightarrow>
                 (if length (pa_events p) = 0 then Some (report, None, pa_log p)
                  else
                   (let log = pa_log p @ [DoSubmit (pa_events p)] in
                    case en_submit en (pa_events p) of
                      Inl code \<Rightarrow> Some (report, Some (SubmitFailed code), log)
                    | Inr res \<Rightarrow> Some (report\<lparr>rp_Reported := length (pa_events p),
                        rp_AckedSeq := svx_AckedDeviceSequence res,
                        rp_Rejections := map rejection_line (svx_Rejections res)\<rparr>,
                        None, log)))))"

section \<open>What a pass is made of\<close>

text \<open>The outcome of the command at position \<open>n\<close>, the session facts reported with it, the calls
  it causes, and the kinds of its events.\<close>

definition outcome :: "'ts edge_env \<Rightarrow> Client \<Rightarrow> nat \<Rightarrow> 'ts EdgeCommand \<Rightarrow> string \<times> bytes" where
  "outcome en c n cmd =
    (case refuse en (cl_cloudKey c) (en_now en n) cmd of
       Some (Some reason) \<Rightarrow> (''rejected'', en_reason_json en reason)
     | _ \<Rightarrow> en_execute en n cmd)"

definition updates :: "'ts edge_env \<Rightarrow> Client \<Rightarrow> nat \<Rightarrow> 'ts EdgeCommand \<Rightarrow> AgentUpdate list" where
  "updates en c n cmd = (case en_agent en of None \<Rightarrow> []
     | Some agent \<Rightarrow> agent n cmd (fst (outcome en c n cmd)) (snd (outcome en c n cmd)))"

definition calls :: "'ts edge_env \<Rightarrow> Client \<Rightarrow> nat \<times> 'ts EdgeCommand \<Rightarrow> 'ts edge_call list" where
  "calls en c = (\<lambda>(n, cmd). DoAck (ec_CommandId cmd)
     # (if en_ack en n = None \<and> refuse en (cl_cloudKey c) (en_now en n) cmd = Some None
        then [DoExecute cmd] else []))"

definition kinds :: "'ts edge_env \<Rightarrow> Client \<Rightarrow> nat \<times> 'ts EdgeCommand \<Rightarrow> (string \<times> string) list" where
  "kinds en c = (\<lambda>(n, cmd). (ec_CommandId cmd, EventTypeCommandResult)
     # replicate (length (updates en c n cmd)) (ec_CommandId cmd, EventTypeAgentEvent))"

definition event_kind :: "'ts EdgeEvent \<Rightarrow> string \<times> string" where
  "event_kind ev = (ev_CommandId ev, ev_Type ev)"

definition numbered :: "u64 \<Rightarrow> 'ts EdgeEvent list \<Rightarrow> bool" where
  "numbered a evs \<longleftrightarrow> map ev_DeviceSequence evs = map (\<lambda>k. a + 1 + of_nat k) [0..<length evs]"

text \<open>The digest is the payload's, and the signature the one the client's key makes over the rest.\<close>

definition sealed :: "'ts edge_env \<Rightarrow> Client \<Rightarrow> 'ts EdgeEvent \<Rightarrow> bool" where
  "sealed en c ev \<longleftrightarrow>
     (case ev_Payload ev of None \<Rightarrow> False
      | Some pl \<Rightarrow> ev_PayloadDigest ev = sha256 (en_crypto en) (any_Value pl))
   \<and> (case cl_Key c of None \<Rightarrow> ev_DeviceSignature ev = []
      | Some sk \<Rightarrow> SignEvent (en_crypto en) (en_asTime en) sk ev = Some ev)"

definition pass_ok :: "'ts edge_env \<Rightarrow> Client \<Rightarrow> u64 \<Rightarrow> (string \<times> string) list \<Rightarrow> 'ts pass \<Rightarrow> bool" where
  "pass_ok en c a ks p \<longleftrightarrow> numbered a (pa_events p)
     \<and> pa_seq p = a + of_nat (length (pa_events p))
     \<and> map event_kind (pa_events p) = ks \<and> list_all (sealed en c) (pa_events p)"

section \<open>Lemmas\<close>

lemma numbered_snoc:
  "numbered a (evs @ [ev]) \<longleftrightarrow> numbered a evs \<and> ev_DeviceSequence ev = a + 1 + of_nat (length evs)"
  by (simp add: numbered_def)

lemma sign_if_keyed_Some:
  assumes "sign_if_keyed en c ev = Some ev'" and "ev_DeviceSignature ev = []"
    and "ev_Payload ev = Some pl" and "ev_PayloadDigest ev = sha256 (en_crypto en) (any_Value pl)"
  shows "sealed en c ev'" and "event_kind ev' = event_kind ev"
    and "ev_DeviceSequence ev' = ev_DeviceSequence ev"
  using assms
  by (auto simp: sign_if_keyed_def sealed_def SignEvent_def event_kind_def split: option.splits)

lemma resultEvent_Inr:
  assumes "resultEvent en cmd seq status js = Inr ev"
  shows "ev_DeviceSignature ev = []" and "ev_DeviceSequence ev = seq"
    and "event_kind ev = (ec_CommandId cmd, EventTypeCommandResult)"
    and "\<exists>pl. ev_Payload ev = Some pl \<and> ev_PayloadDigest ev = sha256 (en_crypto en) (any_Value pl)"
  using assms by (auto simp: resultEvent_def event_kind_def split: if_splits option.splits)

lemma agentEvent_Inr:
  assumes "agentEvent en cmd seq i upd = Inr ev"
  shows "ev_DeviceSignature ev = []" and "ev_DeviceSequence ev = seq"
    and "event_kind ev = (ec_CommandId cmd, EventTypeAgentEvent)"
    and "\<exists>pl. ev_Payload ev = Some pl \<and> ev_PayloadDigest ev = sha256 (en_crypto en) (any_Value pl)"
  using assms by (auto simp: agentEvent_def event_kind_def split: if_splits option.splits)

lemma pass_ok_append:
  assumes "pass_ok en c a ks p" and "sealed en c ev" and "event_kind ev = k"
    and "ev_DeviceSequence ev = pa_seq p + 1"
  shows "pass_ok en c a (ks @ [k]) (p\<lparr>pa_seq := pa_seq p + 1, pa_events := pa_events p @ [ev]\<rparr>)"
  using assms by (auto simp: pass_ok_def numbered_snoc)

lemma pass_ok_log [simp]: "pass_ok en c a ks (p\<lparr>pa_log := l\<rparr>) = pass_ok en c a ks p"
  by (simp add: pass_ok_def)

lemma agent_events_log:
  "agent_events en c cmd i upds p = Some (r, p') \<Longrightarrow> pa_log p' = pa_log p"
  by (induction en c cmd i upds p rule: agent_events.induct)
    (auto simp: Let_def split: sum.splits option.splits)

lemma agent_events_ok:
  assumes "agent_events en c cmd i upds p = Some (None, p')" and "pass_ok en c a ks p"
  shows "pass_ok en c a (ks @ replicate (length upds) (ec_CommandId cmd, EventTypeAgentEvent)) p'"
  using assms
proof (induction en c cmd i upds p arbitrary: ks rule: agent_events.induct)
  case (1 en c cmd i p)
  then show ?case by simp
next
  case (2 en c cmd i upd upds p)
  from "2.prems"(1) obtain ev ev' where ev: "agentEvent en cmd (pa_seq p + 1) i upd = Inr ev"
    and s: "sign_if_keyed en c ev = Some ev'"
    and go: "agent_events en c cmd (Suc i) upds
        (p\<lparr>pa_seq := pa_seq p + 1, pa_events := pa_events p @ [ev']\<rparr>) = Some (None, p')"
    by (auto simp: Let_def split: sum.splits option.splits)
  obtain pl where "ev_Payload ev = Some pl" "ev_PayloadDigest ev = sha256 (en_crypto en) (any_Value pl)"
    using agentEvent_Inr(4) [OF ev] by blast
  note sg = sign_if_keyed_Some [OF s agentEvent_Inr(1) [OF ev] this]
  have "pass_ok en c a (ks @ [(ec_CommandId cmd, EventTypeAgentEvent)])
      (p\<lparr>pa_seq := pa_seq p + 1, pa_events := pa_events p @ [ev']\<rparr>)"
    using "2.prems"(2) sg agentEvent_Inr [OF ev] by (intro pass_ok_append) auto
  with "2.IH" [OF refl refl ev s, of "ks @ [(ec_CommandId cmd, EventTypeAgentEvent)]"] go
  show ?case by simp
qed

lemma run_command_Some:
  assumes "run_command en c n cmd p = Some (o', p')"
  shows "o' = outcome en c n cmd" and "pa_seq p' = pa_seq p" and "pa_events p' = pa_events p"
    and "pa_log p' = pa_log p @ (if refuse en (cl_cloudKey c) (en_now en n) cmd = Some None
        then [DoExecute cmd] else [])"
  using assms by (auto simp: run_command_def outcome_def split: option.splits)

lemma sync_command_log:
  assumes "sync_command en c n cmd p = Some (r, p')"
  shows "pa_log p' = pa_log p @ calls en c (n, cmd)"
proof (cases "en_ack en n")
  case (Some code)
  with assms show ?thesis by (auto simp: sync_command_def calls_def Let_def)
next
  case None
  with assms obtain o' p1 where
    run: "run_command en c n cmd (p\<lparr>pa_log := pa_log p @ [DoAck (ec_CommandId cmd)]\<rparr>) = Some (o', p1)"
    and "pa_log p' = pa_log p1"
    by (auto simp: sync_command_def Let_def split: option.splits sum.splits prod.splits
        dest: agent_events_log)
  with run_command_Some(4) [OF run] None show ?thesis by (simp add: calls_def)
qed

lemma sync_command_ok:
  assumes "sync_command en c n cmd p = Some (None, p')" and "pass_ok en c a ks p"
  shows "pass_ok en c a (ks @ kinds en c (n, cmd)) p' \<and> en_ack en n = None"
proof -
  let ?p = "p\<lparr>pa_log := pa_log p @ [DoAck (ec_CommandId cmd)]\<rparr>"
  from assms(1) obtain p1 status js ev ev' where ack: "en_ack en n = None"
    and run: "run_command en c n cmd ?p = Some ((status, js), p1)"
    and ev: "resultEvent en cmd (pa_seq p1 + 1) status js = Inr ev"
    and s: "sign_if_keyed en c ev = Some ev'"
    and go: "(case en_agent en of
        None \<Rightarrow> Some (None, p1\<lparr>pa_seq := pa_seq p1 + 1, pa_events := pa_events p1 @ [ev']\<rparr>)
      | Some agent \<Rightarrow> agent_events en c cmd 0 (agent n cmd status js)
          (p1\<lparr>pa_seq := pa_seq p1 + 1, pa_events := pa_events p1 @ [ev']\<rparr>)) = Some (None, p')"
    by (auto simp: sync_command_def Let_def split: option.splits sum.splits prod.splits)
  have out: "status = fst (outcome en c n cmd)" "js = snd (outcome en c n cmd)"
    using run_command_Some(1) [OF run] by (simp_all flip: run_command_Some(1) [OF run])
  have p1: "pass_ok en c a ks p1"
    using run_command_Some(2,3) [OF run] assms(2) by (simp add: pass_ok_def)
  obtain pl where "ev_Payload ev = Some pl" "ev_PayloadDigest ev = sha256 (en_crypto en) (any_Value pl)"
    using resultEvent_Inr(4) [OF ev] by blast
  note sg = sign_if_keyed_Some [OF s resultEvent_Inr(1) [OF ev] this]
  have "pass_ok en c a (ks @ [(ec_CommandId cmd, EventTypeCommandResult)])
      (p1\<lparr>pa_seq := pa_seq p1 + 1, pa_events := pa_events p1 @ [ev']\<rparr>)"
    using p1 sg resultEvent_Inr [OF ev] by (intro pass_ok_append) auto
  with go ack show ?thesis
    by (auto simp: kinds_def updates_def out split: option.splits dest: agent_events_ok)
qed

lemma sync_commands_log:
  "sync_commands en c n cmds p = Some (r, p') \<Longrightarrow>
   \<exists>k. pa_log p' = pa_log p @ concat (map (calls en c) (take k (enumerate n cmds)))
     \<and> (r = None \<longrightarrow> length cmds \<le> k)"
proof (induction en c n cmds p rule: sync_commands.induct)
  case (1 en c n p)
  then show ?case by auto
next
  case (2 en c n cmd cmds p)
  then obtain r1 p1 where s: "sync_command en c n cmd p = Some (r1, p1)"
    by (auto split: option.splits)
  show ?case
  proof (cases r1)
    case (Some e)
    with 2 s sync_command_log [OF s] show ?thesis by (auto intro!: exI [of _ "Suc 0"])
  next
    case None
    with s "2.prems" have "sync_commands en c (Suc n) cmds p1 = Some (r, p')" by simp
    with "2.IH" [of "(r1, p1)" r1 p1] s None obtain k where
      "pa_log p' = pa_log p1 @ concat (map (calls en c) (take k (enumerate (Suc n) cmds)))
       \<and> (r = None \<longrightarrow> length cmds \<le> k)" by auto
    with sync_command_log [OF s] show ?thesis by (intro exI [of _ "Suc k"]) simp
  qed
qed

lemma sync_commands_ok:
  assumes "sync_commands en c n cmds p = Some (None, p')" and "pass_ok en c a ks p"
  shows "pass_ok en c a (ks @ concat (map (kinds en c) (enumerate n cmds))) p'"
  using assms
proof (induction en c n cmds p arbitrary: ks rule: sync_commands.induct)
  case (1 en c n p)
  then show ?case by simp
next
  case (2 en c n cmd cmds p)
  then obtain p1 where s: "sync_command en c n cmd p = Some (None, p1)"
    and go: "sync_commands en c (Suc n) cmds p1 = Some (None, p')"
    by (auto split: option.splits)
  from sync_command_ok [OF s "2.prems"(2)] have "pass_ok en c a (ks @ kinds en c (n, cmd)) p1" by simp
  from "2.IH" [OF s refl refl go this] show ?case by simp
qed

lemma refuse_passes:
  assumes "refuse en ck now cmd = Some None"
  shows "ck = Some key \<Longrightarrow> VerifyCommand (en_crypto en) (en_asTime en) key cmd = Some True"
    and "ec_LedgerPayload cmd \<noteq> [] \<Longrightarrow>
      sha256 (en_crypto en) (ec_LedgerPayload cmd) = ec_PayloadDigest cmd"
    and "ec_ApprovalGrantId cmd \<noteq> [] \<Longrightarrow>
      \<exists>doc. grant_checklist (en_crypto en) (en_grants en) ck cmd now doc"
  using assms
  by (auto simp: refuse_def Let_def VerifiedLedgerPayload_def simp flip: VerifyCommandGrant_Inr
      split: option.splits bool.splits if_splits sum.splits)

lemma refuse_total:
  "(case ck of None \<Rightarrow> True | Some key \<Rightarrow> length key = PublicKeySize) \<Longrightarrow> refuse en ck now cmd \<noteq> None"
  using VerifyCommandGrant_total [of ck "en_crypto en" "en_grants en" cmd now]
  by (auto simp: refuse_def Let_def VerifyCommand_def ed25519_Verify_def
      split: option.splits bool.splits sum.splits)

lemma sign_if_keyed_total:
  "(case cl_Key c of None \<Rightarrow> True | Some sk \<Rightarrow> length sk = PrivateKeySize) \<Longrightarrow>
   sign_if_keyed en c ev \<noteq> None"
  by (auto simp: sign_if_keyed_def SignEvent_def ed25519_Sign_def split: option.splits)

definition usable_keys :: "Client \<Rightarrow> bool" where
  "usable_keys c \<longleftrightarrow> (case cl_cloudKey c of None \<Rightarrow> True | Some key \<Rightarrow> length key = PublicKeySize)
     \<and> (case cl_Key c of None \<Rightarrow> True | Some sk \<Rightarrow> length sk = PrivateKeySize)"

lemma agent_events_total:
  "usable_keys c \<Longrightarrow> agent_events en c cmd i upds p \<noteq> None"
proof (induction en c cmd i upds p rule: agent_events.induct)
  case (1 en c cmd i p)
  then show ?case by simp
next
  case (2 en c cmd i upd upds p)
  with sign_if_keyed_total [of c] show ?case
    by (auto simp: Let_def usable_keys_def simp del: not_None_eq split: sum.splits option.splits)
qed

lemma sync_command_total:
  assumes "usable_keys c"
  shows "sync_command en c n cmd p \<noteq> None"
proof -
  have r: "refuse en (cl_cloudKey c) (en_now en n) cmd \<noteq> None"
    using assms by (intro refuse_total) (simp add: usable_keys_def)
  have s: "sign_if_keyed en c ev \<noteq> None" for ev
    using assms by (intro sign_if_keyed_total) (simp add: usable_keys_def)
  show ?thesis
    using r s agent_events_total [OF assms, of en cmd]
    by (fastforce simp: sync_command_def run_command_def Let_def simp del: not_None_eq
        split: option.splits sum.splits prod.splits)
qed

lemma sync_commands_total: "usable_keys c \<Longrightarrow> sync_commands en c n cmds p \<noteq> None"
proof (induction en c n cmds p rule: sync_commands.induct)
  case (1 en c n p)
  then show ?case by simp
next
  case (2 en c n cmd cmds p)
  with sync_command_total [of c en n cmd p] show ?case
    by (auto simp del: not_None_eq split: option.splits)
qed

lemma length_calls: "length (calls en c x) \<le> 2"
  by (simp add: calls_def split: prod.splits)

lemma length_concat_calls: "length (concat (map (calls en c) xs)) \<le> 2 * length xs"
proof (induction xs)
  case (Cons x xs)
  then show ?case using length_calls [of en c x] by simp
qed simp

lemma DoSubmit_not_in_calls: "DoSubmit evs \<notin> set (concat (map (calls en c) xs))"
  by (auto simp: calls_def)

lemma SyncOnce_split:
  assumes "SyncOnce en c (Inr msg) = Some (report, err, log)"
  shows "\<exists>r p k. sync_commands en c 0 (sex_Commands msg)
       \<lparr>pa_seq = sex_AckedDeviceSequence msg, pa_events = [], pa_log = []\<rparr> = Some (r, p)
    \<and> pa_log p = concat (map (calls en c) (take k (enumerate 0 (sex_Commands msg))))
    \<and> k \<le> length (sex_Commands msg) \<and> (r = None \<longrightarrow> k = length (sex_Commands msg))
    \<and> log = pa_log p @ (if r = None \<and> pa_events p \<noteq> [] then [DoSubmit (pa_events p)] else [])"
proof -
  let ?n = "length (sex_Commands msg)"
  obtain r p where s: "sync_commands en c 0 (sex_Commands msg)
       \<lparr>pa_seq = sex_AckedDeviceSequence msg, pa_events = [], pa_log = []\<rparr> = Some (r, p)"
    using assms by (auto simp: SyncOnce_def Let_def split: option.splits)
  from sync_commands_log [OF s] obtain k where
    k: "pa_log p = concat (map (calls en c) (take k (enumerate 0 (sex_Commands msg))))"
      "r = None \<longrightarrow> ?n \<le> k" by auto
  have "pa_log p = concat (map (calls en c) (take (min k ?n) (enumerate 0 (sex_Commands msg))))"
    using k(1) by (cases "k \<le> ?n") (simp_all add: min_def)
  moreover have "log = pa_log p @ (if r = None \<and> pa_events p \<noteq> [] then [DoSubmit (pa_events p)] else [])"
    using assms s by (auto simp: SyncOnce_def Let_def split: option.splits sum.splits if_splits)
  ultimately show ?thesis using s k(2) by (intro exI [of _ r] exI [of _ p] exI [of _ "min k ?n"]) simp
qed

lemma executed_in_calls:
  assumes "concat (map (calls en c) xs) = as @ DoExecute cmd # bs"
  shows "\<exists>n as'. (n, cmd) \<in> set xs \<and> as = as' @ [DoAck (ec_CommandId cmd)]
    \<and> refuse en (cl_cloudKey c) (en_now en n) cmd = Some None"
  using assms
proof (induction xs arbitrary: as)
  case Nil
  then show ?case by simp
next
  case (Cons x xs)
  obtain n cmd' where x: "x = (n, cmd')" by (cases x)
  let ?here = "en_ack en n = None \<and> refuse en (cl_cloudKey c) (en_now en n) cmd' = Some None"
  show ?case
  proof (cases "?here \<and> as = [DoAck (ec_CommandId cmd')] \<and> cmd' = cmd")
    case True
    then show ?thesis using x by auto
  next
    case False
    then obtain as1 where "as = calls en c x @ as1"
      and "concat (map (calls en c) xs) = as1 @ DoExecute cmd # bs"
      using Cons.prems x by (auto simp: calls_def Cons_eq_append_conv split: if_splits)
    with Cons.IH [of as1] show ?thesis by auto
  qed
qed

lemma sync_commands_sealed:
  assumes "sync_commands en c 0 cmds \<lparr>pa_seq = a, pa_events = [], pa_log = []\<rparr> = Some (None, p)"
  shows "numbered a (pa_events p)"
    and "map event_kind (pa_events p) = concat (map (kinds en c) (enumerate 0 cmds))"
    and "ev \<in> set (pa_events p) \<Longrightarrow> sealed en c ev"
  using sync_commands_ok [OF assms, of a "[]"]
  by (auto simp: pass_ok_def numbered_def list_all_iff)

lemma sealed_verifies:
  assumes "sealed en c ev" and "cl_Key c = Some (NewKeyFromSeed (en_crypto en) seed)"
    and "ed25519_correct (en_crypto en)" and "length seed = 32"
  shows "VerifyEvent (en_crypto en) (en_asTime en) (ed_pub_of_seed (en_crypto en) seed) ev = Some True"
proof -
  obtain sig where sig: "ed25519_Sign (en_crypto en) (NewKeyFromSeed (en_crypto en) seed)
      (eventBytes (en_crypto en) (en_asTime en) ev) = Some sig" "sig \<noteq> []"
    "ed25519_Verify (en_crypto en) (ed_pub_of_seed (en_crypto en) seed)
      (eventBytes (en_crypto en) (en_asTime en) ev) sig = Some True"
    using sign_then_verify [OF assms(3,4)] by metis
  then have "ev\<lparr>ev_DeviceSignature := sig\<rparr> = ev"
    using assms(1,2) by (simp add: sealed_def SignEvent_def split: option.splits)
  then have "ev_DeviceSignature ev = sig" by (metis EdgeEvent.select_convs(10) EdgeEvent.surjective EdgeEvent.update_convs(10))
  with sig show ?thesis by (simp add: VerifyEvent_def)
qed

lemma sync_commands_error:
  "sync_commands en c n cmds p = Some (r, p') \<Longrightarrow> r \<noteq> Some (SubmitFailed code)"
proof (induction en c n cmds p rule: sync_commands.induct)
  case (1 en c n p)
  then show ?case by simp
next
  case (2 en c n cmd cmds p)
  have "agent_events en c cmd i upds q = Some (r', q') \<Longrightarrow> r' \<noteq> Some (SubmitFailed code)" for i upds q r' q'
    by (induction en c cmd i upds q rule: agent_events.induct)
      (auto simp: Let_def split: sum.splits option.splits)
  then have "sync_command en c n cmd p = Some (r', q') \<Longrightarrow> r' \<noteq> Some (SubmitFailed code)" for r' q'
    by (fastforce simp: sync_command_def Let_def split: sum.splits option.splits prod.splits)
  with 2 show ?case by (fastforce split: option.splits prod.splits)
qed

lemma FormatInt_0: "FormatInt (int 0) = ''0''"
  by (simp add: FormatInt_def dec_nat.simps [of 0] dec_digit_def) code_simp

lemma executed_before_submit:
  "as @ DoExecute cmd # bs = xs @ (if b then [DoSubmit evs] else []) \<Longrightarrow>
   \<exists>bs'. xs = as @ DoExecute cmd # bs'"
  by (cases b; cases bs rule: rev_cases) (auto simp flip: append_assoc append_Cons,
      metis append.assoc append_Cons)

section \<open>A concrete pass for the witnesses\<close>

definition demo_edge_env :: "gotime edge_env" where
  "demo_edge_env = \<lparr>en_crypto = demo_crypto, en_asTime = (\<lambda>t. t), en_grants = demo_grant_lib,
     en_now = (\<lambda>n. 1000), en_stamp = (\<lambda>q. uint q), en_reason_json = (\<lambda>r. ''{}''),
     en_result_any = (\<lambda>r. Some \<lparr>any_TypeUrl = ''R'', any_Value = crs_Status r\<rparr>),
     en_agent_any = (\<lambda>a. Some \<lparr>any_TypeUrl = ''A'', any_Value = aev_Kind a\<rparr>),
     en_ack = (\<lambda>n. if n < 2 then None else Some OtherCode),
     en_execute = (\<lambda>n cmd. (''succeeded'', ''{}'')),
     en_agent = Some (\<lambda>n cmd st js. [\<lparr>au_SessionID = ''s'', au_Kind = ''started'', au_Summary = [], au_DataJSON = []\<rparr>]),
     en_submit = (\<lambda>evs. Inr \<lparr>svx_AckedDeviceSequence = 9 + of_nat (length evs), svx_Rejections = []\<rparr>)\<rparr>"

definition demo_sync :: "nat \<Rightarrow> gotime SyncEdgeResponse" where
  "demo_sync n = \<lparr>sex_Commands = replicate n demo_command, sex_AckedDeviceSequence = 9,
     sex_PollIntervalSeconds = 5\<rparr>"

definition demo_client :: Client where
  "demo_client = \<lparr>cl_Key = Some (NewKeyFromSeed demo_crypto (replicate 32 (CHR ''k''))), cl_cloudKey = None\<rparr>"

lemma demo_edge_env_simps [simp]:
  "en_crypto demo_edge_env = demo_crypto" "en_asTime demo_edge_env = (\<lambda>t. t)"
  "en_grants demo_edge_env = demo_grant_lib" "en_now demo_edge_env n = 1000"
  "n < 2 \<Longrightarrow> en_ack demo_edge_env n = None" "en_ack demo_edge_env 2 = Some OtherCode"
  "en_execute demo_edge_env n cmd = (''succeeded'', ''{}'')"
  "en_result_any demo_edge_env r = Some \<lparr>any_TypeUrl = ''R'', any_Value = crs_Status r\<rparr>"
  "en_agent_any demo_edge_env a = Some \<lparr>any_TypeUrl = ''A'', any_Value = aev_Kind a\<rparr>"
  "en_agent demo_edge_env = Some (\<lambda>n cmd st js. [\<lparr>au_SessionID = ''s'', au_Kind = ''started'', au_Summary = [], au_DataJSON = []\<rparr>])"
  "en_submit demo_edge_env evs = Inr \<lparr>svx_AckedDeviceSequence = 9 + of_nat (length evs), svx_Rejections = []\<rparr>"
  by (simp_all add: demo_edge_env_def)

lemma demo_client_simps [simp]:
  "cl_cloudKey demo_client = None" "ec_CommandId demo_command = ''cmd''"
  "cl_Key demo_client = Some (NewKeyFromSeed demo_crypto (replicate 32 (CHR ''k'')))"
  by (simp_all add: demo_client_def demo_command_def)

lemma demo_refuse: "refuse demo_edge_env None 1000 demo_command = Some None"
proof -
  have "VerifyCommandGrant demo_crypto demo_grant_lib None demo_command 1000 = Some (Inr demo_grant)"
    using demo_grant_accepted [of 1] by (simp add: demo_command_def)
  then show ?thesis
    by (simp add: refuse_def Let_def VerifiedLedgerPayload_def) (simp add: demo_command_def)
qed

lemma demo_sign: "SignEvent demo_crypto f (NewKeyFromSeed demo_crypto (replicate 32 (CHR ''k''))) ev
   = Some (ev\<lparr>ev_DeviceSignature := replicate 32 (CHR ''k'') @ eventBytes demo_crypto f ev\<rparr>)"
  by (simp add: SignEvent_def ed25519_Sign_def NewKeyFromSeed_def PrivateKeySize_def demo_crypto_def)

lemma demo_sync_command:
  "n < 2 \<Longrightarrow> \<exists>p'. sync_command demo_edge_env demo_client n demo_command p = Some (None, p')
     \<and> length (pa_events p') = length (pa_events p) + 2
     \<and> pa_log p' = pa_log p @ [DoAck ''cmd'', DoExecute demo_command]"
  using demo_refuse
  by (simp add: sync_command_def run_command_def Let_def resultEvent_def agentEvent_def
      sign_if_keyed_def demo_sign del: fun_upd_apply)

lemma demo_pass:
  "\<exists>evs report. SyncOnce demo_edge_env demo_client (Inr (demo_sync 1)) = Some (report, None,
      [DoAck ''cmd'', DoExecute demo_command, DoSubmit evs])"
proof -
  obtain p where "sync_commands demo_edge_env demo_client 0 [demo_command]
      \<lparr>pa_seq = 9, pa_events = [], pa_log = []\<rparr> = Some (None, p)" and "length (pa_events p) = 2"
    and "pa_log p = [DoAck ''cmd'', DoExecute demo_command]"
    using demo_sync_command [of 0 "\<lparr>pa_seq = 9, pa_events = [], pa_log = []\<rparr>"] by auto
  then show ?thesis by (auto simp: SyncOnce_def demo_sync_def Let_def)
qed

lemma demo_failed_pass:
  "\<exists>report. SyncOnce demo_edge_env demo_client (Inr (demo_sync 3)) = Some (report,
      Some (AckFailed ''cmd'' OtherCode),
      [DoAck ''cmd'', DoExecute demo_command, DoAck ''cmd'', DoExecute demo_command, DoAck ''cmd''])"
proof -
  let ?p = "\<lparr>pa_seq = 9, pa_events = [], pa_log = []\<rparr> :: gotime pass"
  obtain p1 where p1: "sync_command demo_edge_env demo_client 0 demo_command ?p = Some (None, p1)"
    "pa_log p1 = [DoAck ''cmd'', DoExecute demo_command]"
    using demo_sync_command [of 0 ?p] by auto
  obtain p2 where p2: "sync_command demo_edge_env demo_client 1 demo_command p1 = Some (None, p2)"
    "pa_log p2 = [DoAck ''cmd'', DoExecute demo_command, DoAck ''cmd'', DoExecute demo_command]"
    using demo_sync_command [of 1 p1] p1 by auto
  have "sync_command demo_edge_env demo_client 2 demo_command p2 = Some (Some (AckFailed ''cmd'' OtherCode),
      p2\<lparr>pa_log := pa_log p2 @ [DoAck ''cmd'']\<rparr>)"
    by (simp add: sync_command_def)
  with p1 p2 show ?thesis
    by (simp add: SyncOnce_def demo_sync_def Let_def numeral_3_eq_3 numeral_2_eq_2)
qed

section \<open>Properties\<close>

text \<open>The device executes nothing it has not checked. Whenever a pass hands a command to the
  executor, the cloud offered that command in this pass, the call before is the acknowledgement of
  that very command, its cloud signature verifies under the registered key (when there is one), a
  ledger payload that rode along is the one the digest names, and if it spends a grant the whole
  grant checklist holds at the clock reading of this check.\<close>
theorem executed_commands_were_vetted:
  assumes "SyncOnce en c sync = Some (report, err, as @ DoExecute cmd # bs)"
  shows "\<exists>msg n as'. sync = Inr msg \<and> n < length (sex_Commands msg) \<and> sex_Commands msg ! n = cmd
    \<and> as = as' @ [DoAck (ec_CommandId cmd)]
    \<and> (\<forall>key. cl_cloudKey c = Some key \<longrightarrow> VerifyCommand (en_crypto en) (en_asTime en) key cmd = Some True)
    \<and> (ec_LedgerPayload cmd \<noteq> [] \<longrightarrow>
        sha256 (en_crypto en) (ec_LedgerPayload cmd) = ec_PayloadDigest cmd)
    \<and> (ec_ApprovalGrantId cmd \<noteq> [] \<longrightarrow>
        (\<exists>doc. grant_checklist (en_crypto en) (en_grants en) (cl_cloudKey c) cmd (en_now en n) doc))"
proof -
  obtain msg where sync: "sync = Inr msg" using assms by (cases sync) (auto simp: SyncOnce_def)
  obtain r p k where "sync_commands en c 0 (sex_Commands msg)
       \<lparr>pa_seq = sex_AckedDeviceSequence msg, pa_events = [], pa_log = []\<rparr> = Some (r, p)"
    and l: "pa_log p = concat (map (calls en c) (take k (enumerate 0 (sex_Commands msg))))"
    and log: "as @ DoExecute cmd # bs
      = pa_log p @ (if r = None \<and> pa_events p \<noteq> [] then [DoSubmit (pa_events p)] else [])"
    using SyncOnce_split [OF assms [unfolded sync]] by blast
  from executed_before_submit [OF log] obtain bs' where
    "concat (map (calls en c) (take k (enumerate 0 (sex_Commands msg)))) = as @ DoExecute cmd # bs'"
    unfolding l by blast
  from executed_in_calls [OF this] obtain n as' where
    n: "(n, cmd) \<in> set (take k (enumerate 0 (sex_Commands msg)))"
    and as: "as = as' @ [DoAck (ec_CommandId cmd)]"
    and ok: "refuse en (cl_cloudKey c) (en_now en n) cmd = Some None" by blast
  have "n < length (sex_Commands msg) \<and> sex_Commands msg ! n = cmd"
    using in_set_takeD [OF n] by (simp add: in_set_enumerate_eq)
  with sync as refuse_passes [OF ok] show ?thesis by blast
qed

theorem executed_commands_were_vetted_witness:
  "\<exists>as bs report. SyncOnce demo_edge_env demo_client (Inr (demo_sync 1))
     = Some (report, None, as @ DoExecute demo_command # bs) \<and> as \<noteq> []"
proof -
  obtain evs report where *: "SyncOnce demo_edge_env demo_client (Inr (demo_sync 1)) = Some (report, None,
      [DoAck ''cmd''] @ DoExecute demo_command # [DoSubmit evs])"
    using demo_pass unfolding append.simps by blast
  from executed_commands_were_vetted [OF *] * show ?thesis by blast
qed

text \<open>C15: A pass that ends without an error reports every command once and in order. Its calls are,
  command by command, the acknowledgement and then the execution unless the command is refused,
  and then one submission, skipped only when there is nothing to submit. The submitted events carry
  consecutive device sequences from the cloud's cursor on; for each command the receipt comes first
  and its session facts right behind it; every digest is its payload's, and every signature is the
  client key's, so with a well-formed key the cloud's verification accepts every event.\<close>
theorem pass_reports_in_order:
  assumes "SyncOnce en c (Inr msg) = Some (report, None, log)"
  shows "\<exists>evs. let cs = enumerate 0 (sex_Commands msg) in
    log = concat (map (calls en c) cs) @ (if evs = [] then [] else [DoSubmit evs])
    \<and> numbered (sex_AckedDeviceSequence msg) evs
    \<and> map event_kind evs = concat (map (kinds en c) cs)
    \<and> (\<forall>ev\<in>set evs. sealed en c ev)
    \<and> (\<forall>seed. ed25519_correct (en_crypto en) \<and> length seed = 32
        \<and> cl_Key c = Some (NewKeyFromSeed (en_crypto en) seed) \<longrightarrow>
        (\<forall>ev\<in>set evs. VerifyEvent (en_crypto en) (en_asTime en) (ed_pub_of_seed (en_crypto en) seed) ev
          = Some True))
    \<and> rp_Commands report = length cs \<and> rp_Reported report = length evs"
proof -
  obtain r p k where s: "sync_commands en c 0 (sex_Commands msg)
       \<lparr>pa_seq = sex_AckedDeviceSequence msg, pa_events = [], pa_log = []\<rparr> = Some (r, p)"
    and l: "pa_log p = concat (map (calls en c) (take k (enumerate 0 (sex_Commands msg))))"
    and k: "r = None \<Longrightarrow> k = length (sex_Commands msg)"
    and log: "log = pa_log p @ (if r = None \<and> pa_events p \<noteq> [] then [DoSubmit (pa_events p)] else [])"
    using SyncOnce_split [OF assms] by blast
  have r: "r = None" and rep: "rp_Commands report = length (sex_Commands msg)"
    "rp_Reported report = length (pa_events p)"
    using assms s by (auto simp: SyncOnce_def Let_def zero_SyncReport_def
        split: option.splits sum.splits if_splits)
  show ?thesis
    using sync_commands_sealed [OF s [unfolded r]] sealed_verifies [of en c] log l k [OF r] r rep
    by (intro exI [of _ "pa_events p"]) (simp add: Let_def)
qed

theorem pass_reports_in_order_witness:
  "\<exists>evs report. SyncOnce demo_edge_env demo_client (Inr (demo_sync 1))
      = Some (report, None, [DoAck ''cmd'', DoExecute demo_command, DoSubmit evs])
    \<and> map event_kind evs = [(''cmd'', EventTypeCommandResult), (''cmd'', EventTypeAgentEvent)]"
proof -
  obtain evs report where *: "SyncOnce demo_edge_env demo_client (Inr (demo_sync 1)) = Some (report, None,
      [DoAck ''cmd'', DoExecute demo_command, DoSubmit evs])"
    using demo_pass by blast
  from pass_reports_in_order [OF *] obtain evs' where
    "map event_kind evs' = concat (map (kinds demo_edge_env demo_client) (enumerate 0 [demo_command]))"
    and "[DoAck ''cmd'', DoExecute demo_command, DoSubmit evs]
      = concat (map (calls demo_edge_env demo_client) (enumerate 0 [demo_command])) @
        (if evs' = [] then [] else [DoSubmit evs'])"
    by (auto simp: Let_def demo_sync_def)
  then have "evs' = evs \<and> map event_kind evs = [(''cmd'', EventTypeCommandResult), (''cmd'', EventTypeAgentEvent)]"
    using demo_refuse by (simp add: calls_def kinds_def updates_def split: if_splits)
  with * show ?thesis by (intro exI [of _ evs] exI [of _ report]) simp
qed



text \<open>Event identities follow cause and outcome. A receipt's id is the same for two reports of
  one command exactly when the status is the same; the same outcome yields the same event but for
  its sequence number, its time and what the signature covers of them; a session fact's id is fixed
  by its position and kind. Yet the two families meet: a receipt whose status reads
  \<^verbatim>\<open>agent_0_\<close> and a kind has the id of the first session fact of that kind.\<close>
theorem event_identity:
  assumes "resultEvent en cmd q status js = Inr e" and "resultEvent en cmd q' status' js' = Inr e'"
    and "agentEvent en cmd q1 i upd = Inr a" and "agentEvent en cmd q2 i upd' = Inr a'"
  shows "(ev_EventId e = ev_EventId e' \<longleftrightarrow> status = status')
    \<and> ((status, js) = (status', js') \<longrightarrow>
        e' = e\<lparr>ev_DeviceSequence := q', ev_OccurredAt := Some (en_stamp en q')\<rparr>)
    \<and> (ev_EventId a = ev_EventId a' \<longleftrightarrow> au_Kind upd = au_Kind upd')
    \<and> (i = 0 \<and> status = ''agent_0_'' @ au_Kind upd \<longrightarrow> ev_EventId e = ev_EventId a)"
  using assms
  using FormatInt_0
  by (auto simp: resultEvent_def agentEvent_def split: if_splits option.splits)

theorem event_identity_witness:
  "\<exists>e a. resultEvent demo_edge_env demo_command 1 ''agent_0_failed'' [] = Inr e
    \<and> agentEvent demo_edge_env demo_command 2 0
        \<lparr>au_SessionID = ''s'', au_Kind = ''failed'', au_Summary = [], au_DataJSON = []\<rparr> = Inr a
    \<and> ev_EventId e = ev_EventId a"
proof -
  let ?u = "\<lparr>au_SessionID = ''s'', au_Kind = ''failed'', au_Summary = [], au_DataJSON = []\<rparr>"
  obtain e where e: "resultEvent demo_edge_env demo_command 1 ''agent_0_failed'' [] = Inr e"
    by (simp add: resultEvent_def)
  obtain a where a: "agentEvent demo_edge_env demo_command 2 0 ?u = Inr a"
    by (simp add: agentEvent_def)
  from event_identity [OF e e a a] e a show ?thesis by simp
qed

text \<open>C37: A pass always comes back. When the keys the client holds have the sizes of the two key
  kinds, no answer of the cloud, the executor or the agent hook makes a pass panic: it returns a
  report, after at most two calls per offered command and one submission.\<close>
theorem pass_always_returns:
  assumes "usable_keys c"
  shows "\<exists>report err log. SyncOnce en c sync = Some (report, err, log)
    \<and> length log \<le> 2 * rp_Commands report + 1"
proof (cases sync)
  case (Inl code)
  then show ?thesis by (simp add: SyncOnce_def)
next
  case (Inr msg)
  obtain report err log where *: "SyncOnce en c (Inr msg) = Some (report, err, log)"
    and "rp_Commands report = length (sex_Commands msg)"
  proof -
    obtain r p where s: "sync_commands en c 0 (sex_Commands msg)
        \<lparr>pa_seq = sex_AckedDeviceSequence msg, pa_events = [], pa_log = []\<rparr> = Some (r, p)"
      using sync_commands_total [OF assms] by fast
    show thesis
    proof (cases "r = None \<and> pa_events p \<noteq> []")
      case True
      with s that show thesis
        by (cases "en_submit en (pa_events p)") (simp_all add: SyncOnce_def Let_def zero_SyncReport_def)
    next
      case False
      with s that show thesis
        by (cases r) (simp_all add: SyncOnce_def Let_def zero_SyncReport_def)
    qed
  qed
  moreover have "length log \<le> 2 * length (sex_Commands msg) + 1"
  proof -
    obtain r p k where "sync_commands en c 0 (sex_Commands msg)
         \<lparr>pa_seq = sex_AckedDeviceSequence msg, pa_events = [], pa_log = []\<rparr> = Some (r, p)"
      and "pa_log p = concat (map (calls en c) (take k (enumerate 0 (sex_Commands msg))))"
      and "k \<le> length (sex_Commands msg)"
      and "log = pa_log p @ (if r = None \<and> pa_events p \<noteq> [] then [DoSubmit (pa_events p)] else [])"
      using SyncOnce_split [OF *] by blast
    then show ?thesis
      using length_concat_calls [of en c "take k (enumerate 0 (sex_Commands msg))"] by simp
  qed
  ultimately show ?thesis using Inr by simp
qed

theorem pass_always_returns_witness:
  "usable_keys demo_client \<and> SyncOnce demo_edge_env demo_client (Inr (demo_sync 7)) \<noteq> None"
proof -
  have k: "usable_keys demo_client"
    by (simp add: usable_keys_def NewKeyFromSeed_def PrivateKeySize_def demo_crypto_def)
  from pass_always_returns [OF k, of demo_edge_env "Inr (demo_sync 7)"] k show ?thesis by auto
qed

end
