(* ===== verification/EdgeHonest.thy ===== *)
theory EdgeHonest
  imports EdgeClient
begin

text \<open>
  The other half of the checks of \<^verbatim>\<open>src/edgeclient/client.go\<close>: what an honest cloud signs with
  \<^verbatim>\<open>SignGrant\<close> and \<^verbatim>\<open>SignCommand\<close> of \<^verbatim>\<open>src/edgesign\<close> gets through them, is executed and reported, whatever
  else is in the batch.
\<close>

section \<open>What an honest cloud sends\<close>

text \<open>A grant document that says what the command does.\<close>

definition grant_for :: "crypto \<Rightarrow> 'ts EdgeCommand \<Rightarrow> GrantDoc \<Rightarrow> bool" where
  "grant_for cr cmd doc \<longleftrightarrow> g_Schema doc = GrantSchema \<and> g_GrantID doc = ec_ApprovalGrantId cmd
     \<and> g_WorkflowRunID doc = ec_WorkflowRunId cmd \<and> g_ResourceScope doc = command_scopes cmd
     \<and> g_ActionDigest doc = command_digest cr cmd (ec_LedgerPayload cmd)"

text \<open>The steps of issuing a command with its grant; \<open>None\<close> is a failure of one of them.\<close>

definition issue ::
    "crypto \<Rightarrow> ('ts \<Rightarrow> gotime) \<Rightarrow> grant_lib \<Rightarrow> bytes \<Rightarrow> GrantDoc \<Rightarrow> 'ts EdgeCommand \<Rightarrow> 'ts EdgeCommand option" where
  "issue cr asTime gl sk doc cmd =
    (case SignGrant cr gl sk doc of
       Some (None, doc') \<Rightarrow>
         (case gl_Marshal gl doc' of
            Some raw \<Rightarrow> SignCommand cr asTime sk (cmd\<lparr>ec_ApprovalGrant := raw\<rparr>) | None \<Rightarrow> None)
     | _ \<Rightarrow> None)"

lemma SignCommand_verifies:
  assumes "ed25519_correct cr" and "length seed = 32"
    and "SignCommand cr asTime (NewKeyFromSeed cr seed) cmd = Some cmd'"
  shows "VerifyCommand cr asTime (ed_pub_of_seed cr seed) cmd' = Some True"
    and "\<exists>sig. cmd' = cmd\<lparr>ec_CloudSignature := sig\<rparr>"
proof -
  obtain sig where "ed25519_Sign cr (NewKeyFromSeed cr seed) (commandBytes cr asTime cmd) = Some sig" "sig \<noteq> []"
    "ed25519_Verify cr (ed_pub_of_seed cr seed) (commandBytes cr asTime cmd) sig = Some True"
    using sign_then_verify [OF assms(1,2)] by metis
  moreover from this have c: "cmd' = cmd\<lparr>ec_CloudSignature := sig\<rparr>" using assms(3) by (simp add: SignCommand_def)
  moreover have "commandBytes cr asTime (cmd\<lparr>ec_CloudSignature := sig\<rparr>) = commandBytes cr asTime cmd"
    by (simp add: commandBytes_def)
  ultimately show "VerifyCommand cr asTime (ed_pub_of_seed cr seed) cmd' = Some True"
    by (simp add: VerifyCommand_def)
  show "\<exists>sig. cmd' = cmd\<lparr>ec_CloudSignature := sig\<rparr>" using c by blast
qed

lemma issued_passes:
  assumes cr: "ed25519_correct (en_crypto en)" "length seed = 32"
    and codec: "\<And>d raw. gl_Marshal (en_grants en) d = Some raw \<Longrightarrow> raw \<noteq> [] \<and> gl_Unmarshal (en_grants en) raw = Some d"
    and issued: "issue (en_crypto en) (en_asTime en) (en_grants en) (NewKeyFromSeed (en_crypto en) seed) doc cmd = Some cmd'"
    and ledger: "ec_LedgerPayload cmd \<noteq> []" "ec_PayloadDigest cmd = sha256 (en_crypto en) (ec_LedgerPayload cmd)"
    and grant: "grant_for (en_crypto en) cmd doc"
    and intime: "gl_ParseTime (en_grants en) (g_ExpiresAt doc) = Some ex" "now \<le> ex"
  shows "refuse en (Some (ed_pub_of_seed (en_crypto en) seed)) now cmd' = Some None"
proof -
  let ?cr = "en_crypto en" and ?gl = "en_grants en"
  obtain doc' raw where g: "SignGrant ?cr ?gl (NewKeyFromSeed ?cr seed) doc = Some (None, doc')"
    and raw: "gl_Marshal ?gl doc' = Some raw"
    and s: "SignCommand ?cr (en_asTime en) (NewKeyFromSeed ?cr seed) (cmd\<lparr>ec_ApprovalGrant := raw\<rparr>) = Some cmd'"
    using issued by (auto simp: issue_def split: option.split_asm)
  note v = SignCommand_verifies [OF cr s]
  obtain sig where cmd': "cmd' = cmd\<lparr>ec_ApprovalGrant := raw, ec_CloudSignature := sig\<rparr>" using v(2) by blast
  obtain gs where doc': "doc' = doc\<lparr>g_ServerSignature := gs\<rparr>"
    using g by (auto simp: SignGrant_def Let_def split: option.split_asm)
  have same: "command_scopes cmd' = command_scopes cmd" "command_digest ?cr cmd' p = command_digest ?cr cmd p" for p
    by (simp_all add: cmd' command_scopes_def command_digest_def)
  have "grant_checklist ?cr ?gl (Some (ed_pub_of_seed ?cr seed)) cmd' now doc'"
    using codec [OF raw] ledger grant intime SignGrant_verifies [OF cr g]
    unfolding grant_checklist_def same by (simp add: cmd' doc' grant_for_def)
  then have "VerifyCommandGrant ?cr ?gl (Some (ed_pub_of_seed ?cr seed)) cmd' now = Some (Inr doc')"
    by (simp add: VerifyCommandGrant_Inr)
  then show ?thesis using v(1) ledger by (simp add: refuse_def Let_def VerifiedLedgerPayload_def cmd')
qed

section \<open>A pass in which everybody answers\<close>

text \<open>The cloud takes every call, and the executor and the agent hook report well-formed outcomes.\<close>

definition cooperative :: "'ts edge_env \<Rightarrow> bool" where
  "cooperative en \<longleftrightarrow> (\<forall>n. en_ack en n = None) \<and> (\<forall>n cmd. fst (en_execute en n cmd) \<noteq> [])
     \<and> (\<forall>r. en_result_any en r \<noteq> None) \<and> (\<forall>a. en_agent_any en a \<noteq> None)
     \<and> (\<forall>ag n cmd st js u. en_agent en = Some ag \<longrightarrow> u \<in> set (ag n cmd st js) \<longrightarrow> au_SessionID u \<noteq> [] \<and> au_Kind u \<noteq> [])
     \<and> (\<forall>evs. \<exists>res. en_submit en evs = Inr res)"

lemma agent_events_done:
  assumes "cooperative en" and "usable_keys c" and "\<forall>u \<in> set upds. au_SessionID u \<noteq> [] \<and> au_Kind u \<noteq> []"
  shows "\<exists>p'. agent_events en c cmd i upds p = Some (None, p') \<and> set (pa_events p) \<subseteq> set (pa_events p')"
  using assms(3)
proof (induction upds arbitrary: i p)
  case (Cons u upds)
  let ?q = "pa_seq p + 1"
  have "en_agent_any en a \<noteq> None" for a using assms(1) by (simp add: cooperative_def)
  then obtain ev where ev: "agentEvent en cmd ?q i u = Inr ev"
    using Cons.prems by (fastforce simp: agentEvent_def split: option.split)
  obtain ev' where s: "sign_if_keyed en c ev = Some ev'"
    using sign_if_keyed_total [of c en ev] assms(2) by (auto simp: usable_keys_def)
  have "\<forall>u \<in> set upds. au_SessionID u \<noteq> [] \<and> au_Kind u \<noteq> []" using Cons.prems by simp
  from Cons.IH [OF this, of "Suc i" "p\<lparr>pa_seq := ?q, pa_events := pa_events p @ [ev']\<rparr>"]
  show ?case using ev s by auto
qed simp

text \<open>The receipt of a command: its result event, numbered and signed.\<close>

definition receipt :: "'ts edge_env \<Rightarrow> Client \<Rightarrow> nat \<Rightarrow> 'ts EdgeCommand \<Rightarrow> 'ts EdgeEvent \<Rightarrow> bool" where
  "receipt en c n cmd ev \<longleftrightarrow> (\<exists>q ev0. resultEvent en cmd q (fst (outcome en c n cmd)) (snd (outcome en c n cmd)) = Inr ev0
     \<and> sign_if_keyed en c ev0 = Some ev)"

lemma sync_command_done:
  assumes "cooperative en" and "usable_keys c"
  shows "\<exists>p'. sync_command en c n cmd p = Some (None, p') \<and> set (pa_events p) \<subseteq> set (pa_events p')
    \<and> (\<exists>ev \<in> set (pa_events p'). receipt en c n cmd ev)"
proof -
  let ?p = "p\<lparr>pa_log := pa_log p @ [DoAck (ec_CommandId cmd)]\<rparr>"
  have "refuse en (cl_cloudKey c) (en_now en n) cmd \<noteq> None"
    using assms(2) by (intro refuse_total) (simp add: usable_keys_def)
  then have "run_command en c n cmd ?p \<noteq> None" by (auto simp: run_command_def split: option.split)
  then obtain o' p1 where run: "run_command en c n cmd ?p = Some (o', p1)" by force
  note r = run_command_Some [OF run]
  obtain status js where o': "o' = (status, js)" by fastforce
  have "status \<noteq> []"
    using r(1) o' assms(1) by (auto simp: outcome_def cooperative_def split: option.split_asm) (metis fst_conv)+
  moreover have "en_result_any en x \<noteq> None" for x using assms(1) by (simp add: cooperative_def)
  ultimately obtain ev where ev: "resultEvent en cmd (pa_seq p1 + 1) status js = Inr ev"
    by (fastforce simp: resultEvent_def split: option.split)
  obtain ev' where s: "sign_if_keyed en c ev = Some ev'"
    using sign_if_keyed_total [of c en ev] assms(2) by (auto simp: usable_keys_def)
  have rc: "receipt en c n cmd ev'" using ev s r(1) o' unfolding receipt_def by (metis fst_conv snd_conv)
  let ?q = "p1\<lparr>pa_seq := pa_seq p1 + 1, pa_events := pa_events p1 @ [ev']\<rparr>"
  have ack: "en_ack en n = None" using assms(1) by (simp add: cooperative_def)
  show ?thesis
  proof (cases "en_agent en")
    case None
    then show ?thesis using run o' ev s ack r(3) rc by (auto simp: sync_command_def Let_def)
  next
    case (Some agent)
    have "\<forall>u \<in> set (agent n cmd status js). au_SessionID u \<noteq> [] \<and> au_Kind u \<noteq> []"
      using assms(1) Some unfolding cooperative_def by blast
    from agent_events_done [OF assms this, of cmd 0 ?q] obtain p' where
      "agent_events en c cmd 0 (agent n cmd status js) ?q = Some (None, p')" "set (pa_events ?q) \<subseteq> set (pa_events p')" by blast
    then show ?thesis using run o' ev s ack r(3) rc Some by (simp add: sync_command_def Let_def) blast
  qed
qed

lemma sync_commands_done:
  assumes "cooperative en" and "usable_keys c"
  shows "\<exists>p'. sync_commands en c n cmds p = Some (None, p') \<and> set (pa_events p) \<subseteq> set (pa_events p')
    \<and> (\<forall>(k, cmd) \<in> set (enumerate n cmds). \<exists>ev \<in> set (pa_events p'). receipt en c k cmd ev)"
proof (induction cmds arbitrary: n p)
  case (Cons cmd cmds)
  obtain p1 where p1: "sync_command en c n cmd p = Some (None, p1)" "set (pa_events p) \<subseteq> set (pa_events p1)"
    "\<exists>ev \<in> set (pa_events p1). receipt en c n cmd ev"
    using sync_command_done [OF assms] by blast
  obtain p2 where "sync_commands en c (Suc n) cmds p1 = Some (None, p2)" "set (pa_events p1) \<subseteq> set (pa_events p2)"
    "\<forall>(k, cmd) \<in> set (enumerate (Suc n) cmds). \<exists>ev \<in> set (pa_events p2). receipt en c k cmd ev"
    using Cons.IH by blast
  then show ?case using p1 by (intro exI [of _ p2]) auto
qed simp

section \<open>Property\<close>

lemma calls_at:
  assumes "k < length cmds"
  shows "\<exists>before after. concat (map (calls en c) (enumerate 0 cmds)) = before @ calls en c (k, cmds ! k) @ after"
proof -
  have k: "k < length (enumerate 0 cmds)" "enumerate 0 cmds ! k = (k, cmds ! k)"
    using assms by (simp_all add: nth_enumerate_eq)
  then show ?thesis using id_take_nth_drop [OF k(1)]
    by (metis concat_append list.simps(9) concat.simps(2) map_append)
qed

lemma receipt_facts:
  assumes "receipt en c n cmd ev"
  shows "event_kind ev = (ec_CommandId cmd, EventTypeCommandResult)"
    and "ev_EventId ev = ''devevt_'' @ ec_CommandId cmd @ ''_'' @ fst (outcome en c n cmd)"
    and "sealed en c ev"
proof -
  obtain q ev0 where r: "resultEvent en cmd q (fst (outcome en c n cmd)) (snd (outcome en c n cmd)) = Inr ev0"
    and s: "sign_if_keyed en c ev0 = Some ev" using assms by (auto simp: receipt_def)
  obtain pl where "ev_Payload ev0 = Some pl" "ev_PayloadDigest ev0 = sha256 (en_crypto en) (any_Value pl)"
    using resultEvent_Inr(4) [OF r] by blast
  note sg = sign_if_keyed_Some [OF s resultEvent_Inr(1) [OF r] this]
  show "event_kind ev = (ec_CommandId cmd, EventTypeCommandResult)" using sg(2) resultEvent_Inr(3) [OF r] by simp
  show "sealed en c ev" by (rule sg(1))
  have "ev_EventId ev = ev_EventId ev0" using s by (auto simp: sign_if_keyed_def SignEvent_def split: option.split_asm)
  then show "ev_EventId ev = ''devevt_'' @ ec_CommandId cmd @ ''_'' @ fst (outcome en c n cmd)"
    using r by (auto simp: resultEvent_def split: if_split_asm option.split_asm)
qed


text \<open>Its witness: a cloud that grants and signs the demo command with the key the demo client registered.\<close>

definition demo_cloud_seed :: bytes where
  "demo_cloud_seed = replicate 32 (CHR ''k'')"

definition demo_signed_grant :: GrantDoc where
  "demo_signed_grant = demo_grant\<lparr>g_ServerSignature := StdEncoding_EncodeToString (demo_cloud_seed @ ''a'')\<rparr>"

definition demo_grants :: grant_lib where
  "demo_grants = \<lparr>gl_Marshal = (\<lambda>d. if d = demo_grant then Some ''a'' else if d = demo_signed_grant then Some ''b'' else None),
     gl_Unmarshal = (\<lambda>raw. if raw = ''a'' then Some demo_grant else Some demo_signed_grant),
     gl_ParseTime = (\<lambda>s. Some 1000)\<rparr>"

definition demo_honest_env :: "gotime edge_env" where
  "demo_honest_env = demo_edge_env\<lparr>en_grants := demo_grants, en_ack := (\<lambda>n. None)\<rparr>"

definition demo_registered :: Client where
  "demo_registered = demo_client\<lparr>cl_cloudKey := Some demo_cloud_seed\<rparr>"

lemma demo_issued:
  "\<exists>cmd'. issue demo_crypto id demo_grants (NewKeyFromSeed demo_crypto demo_cloud_seed) demo_grant demo_command = Some cmd'"
proof -
  have sign: "ed25519_Sign demo_crypto (NewKeyFromSeed demo_crypto demo_cloud_seed) m = Some (demo_cloud_seed @ m)" for m
    by (simp add: ed25519_Sign_def PrivateKeySize_def NewKeyFromSeed_def demo_crypto_def demo_cloud_seed_def)
  have clear: "demo_grant\<lparr>g_ServerSignature := []\<rparr> = demo_grant" by (simp add: demo_grant_def)
  have "StdEncoding_EncodeToString (demo_cloud_seed @ ''a'') \<noteq> []"
    unfolding StdEncoding_EncodeToString_def
    by (cases "(b64_std, ''='', demo_cloud_seed @ ''a'')" rule: b64_encode.cases) (auto simp: demo_cloud_seed_def)
  then have ne: "demo_signed_grant \<noteq> demo_grant" by (simp add: demo_signed_grant_def demo_grant_def)
  have "SignGrant demo_crypto demo_grants (NewKeyFromSeed demo_crypto demo_cloud_seed) demo_grant = Some (None, demo_signed_grant)"
    by (simp add: SignGrant_def Let_def clear sign) (simp add: demo_grants_def demo_signed_grant_def sign)
  then show ?thesis using ne by (simp add: issue_def demo_grants_def SignCommand_def sign)
qed


end
