(* ===== verification/GoURL.thy ===== *)
theory GoURL
  imports GoText "HOL-Library.Char_ord" "HOL-Library.List_Lexorder"
begin

text \<open>
  What the sources use of Go's \<^verbatim>\<open>strings\<close>, \<^verbatim>\<open>strconv\<close> and \<^verbatim>\<open>net/url\<close>: splitting and joining, decimal
  numbers, query escaping, \<^verbatim>\<open>Values\<close> with its sorted encoding and its forgiving parser, and
  \<^verbatim>\<open>url.Parse\<close> as far as scheme, host and raw query depend on it. The contract of an escaping is a
  locale, interpreted on the query escaping.
\<close>

section \<open>Splitting and joining\<close>

text \<open>\<^verbatim>\<open>strings.Split\<close> and \<^verbatim>\<open>strings.Join\<close> with a separator of one byte, \<^verbatim>\<open>strings.Cut\<close> without its flag.\<close>

fun Split :: "char \<Rightarrow> string \<Rightarrow> string list" where
  "Split sep [] = [[]]"
| "Split sep (c # s) =
    (if c = sep then [] # Split sep s
     else case Split sep s of [] \<Rightarrow> [[c]] | w # ws \<Rightarrow> (c # w) # ws)"

fun Join :: "char \<Rightarrow> string list \<Rightarrow> string" where
  "Join sep [] = []"
| "Join sep [w] = w"
| "Join sep (w # v # ws) = w @ sep # Join sep (v # ws)"

definition Cut :: "char \<Rightarrow> string \<Rightarrow> string \<times> string" where
  "Cut sep s = (takeWhile (\<lambda>c. c \<noteq> sep) s, drop 1 (dropWhile (\<lambda>c. c \<noteq> sep) s))"

section \<open>Decimal numbers\<close>

definition is_digit :: "char \<Rightarrow> bool" where
  "is_digit c \<longleftrightarrow> 48 \<le> (of_char c :: nat) \<and> (of_char c :: nat) \<le> 57"

definition digits_value :: "string \<Rightarrow> nat" where
  "digits_value ds = foldl (\<lambda>n c. n * 10 + (of_char c - 48)) 0 ds"

text \<open>\<^verbatim>\<open>strconv.Atoi\<close>; \<open>None\<close> is a syntax or a range error.\<close>

definition Atoi :: "string \<Rightarrow> int option" where
  "Atoi s =
    (let neg = (s \<noteq> [] \<and> hd s = CHR ''-'');
         ds = (if s \<noteq> [] \<and> (hd s = CHR ''-'' \<or> hd s = CHR ''+'') then drop 1 s else s);
         v = (if neg then - int (digits_value ds) else int (digits_value ds))
     in if ds = [] \<or> \<not> list_all is_digit ds then None
        else if v < - (2 ^ 63) \<or> 2 ^ 63 \<le> v then None else Some v)"

section \<open>Query escaping\<close>

definition unreserved :: "char \<Rightarrow> bool" where
  "unreserved c \<longleftrightarrow> is_digit c
     \<or> 65 \<le> (of_char c :: nat) \<and> (of_char c :: nat) \<le> 90
     \<or> 97 \<le> (of_char c :: nat) \<and> (of_char c :: nat) \<le> 122
     \<or> c \<in> {CHR ''-'', CHR ''_'', CHR ''.'', CHR ''~''}"

definition upper_hex :: "nat \<Rightarrow> char" where
  "upper_hex n = (if n < 10 then char_of (48 + n) else char_of (55 + n))"

definition escape_byte :: "char \<Rightarrow> string" where
  "escape_byte c =
    (if unreserved c then [c]
     else if c = CHR '' '' then ''+''
     else [CHR ''%'', upper_hex (of_char c div 16), upper_hex (of_char c mod 16)])"

definition QueryEscape :: "string \<Rightarrow> string" where
  "QueryEscape s = concat (map escape_byte s)"

definition unhex :: "char \<Rightarrow> nat option" where
  "unhex c =
    (let n = of_char c :: nat in
     if is_digit c then Some (n - 48)
     else if 97 \<le> n \<and> n \<le> 102 then Some (n - 87)
     else if 65 \<le> n \<and> n \<le> 70 then Some (n - 55) else None)"

fun QueryUnescape :: "string \<Rightarrow> string option" where
  "QueryUnescape [] = Some []"
| "QueryUnescape (c # s) =
    (if c = CHR ''%'' then
       (case s of
          a # b # rest \<Rightarrow>
            (case (unhex a, unhex b) of
               (Some x, Some y) \<Rightarrow> map_option ((#) (char_of (16 * x + y))) (QueryUnescape rest)
             | _ \<Rightarrow> None)
        | _ \<Rightarrow> None)
     else map_option ((#) (if c = CHR ''+'' then CHR '' '' else c)) (QueryUnescape s))"

section \<open>Values\<close>

text \<open>A \<^verbatim>\<open>url.Values\<close> whose keys all have one value, as \<^verbatim>\<open>Set\<close> makes it.\<close>

type_synonym url_values = "(string, string) gomap"

definition Values_Set :: "string \<Rightarrow> string \<Rightarrow> url_values \<Rightarrow> url_values" where
  "Values_Set k v vs = AList.update k v vs"

definition query_pair :: "string \<times> string \<Rightarrow> string" where
  "query_pair kv = QueryEscape (fst kv) @ ''='' @ QueryEscape (snd kv)"

definition Values_Encode :: "url_values \<Rightarrow> string" where
  "Values_Encode vs = Join (CHR ''&'') (map query_pair
     (map (\<lambda>k. (k, the (map_of vs k))) (sort (gokeys vs))))"

text \<open>\<^verbatim>\<open>Query\<close>: the pairs in order, a piece with a semicolon or a bad escape dropped.\<close>

definition parse_piece :: "string \<Rightarrow> (string \<times> string) option" where
  "parse_piece piece =
    (if CHR '';'' \<in> set piece \<or> piece = [] then None
     else let (k, v) = Cut (CHR ''='') piece in
       case (QueryUnescape k, QueryUnescape v) of (Some k', Some v') \<Rightarrow> Some (k', v') | _ \<Rightarrow> None)"

definition Query :: "string \<Rightarrow> (string \<times> string) list" where
  "Query raw = List.map_filter parse_piece (Split (CHR ''&'') raw)"

definition Values_Get :: "string \<Rightarrow> (string \<times> string) list \<Rightarrow> string" where
  "Values_Get k vs = (case map_of vs k of None \<Rightarrow> [] | Some v \<Rightarrow> v)"

section \<open>Parsing a URL\<close>

definition is_letter :: "char \<Rightarrow> bool" where
  "is_letter c \<longleftrightarrow> 65 \<le> (of_char c :: nat) \<and> (of_char c :: nat) \<le> 90
     \<or> 97 \<le> (of_char c :: nat) \<and> (of_char c :: nat) \<le> 122"

definition to_lower :: "char \<Rightarrow> char" where
  "to_lower c = (if 65 \<le> (of_char c :: nat) \<and> (of_char c :: nat) \<le> 90
     then char_of (of_char c + 32 :: nat) else c)"

text \<open>The scheme in front of the first colon and the rest; \<open>None\<close> when there is none, or an error.\<close>

definition getScheme :: "string \<Rightarrow> (string \<times> string) option" where
  "getScheme u =
    (let sch = takeWhile (\<lambda>c. c \<noteq> CHR '':'') u in
     if CHR '':'' \<in> set u \<and> sch \<noteq> [] \<and> is_letter (hd sch)
       \<and> list_all (\<lambda>c. is_letter c \<or> is_digit c \<or> c \<in> {CHR ''+'', CHR ''-'', CHR ''.''}) sch
     then Some (sch, drop (Suc (length sch)) u) else None)"

text \<open>Whether \<^verbatim>\<open>unescape\<close> succeeds on a path, a fragment or user information.\<close>

fun escapes_ok :: "string \<Rightarrow> bool" where
  "escapes_ok [] = True"
| "escapes_ok (c # s) =
    (if c = CHR ''%'' then
       (case s of a # b # rest \<Rightarrow> unhex a \<noteq> None \<and> unhex b \<noteq> None \<and> escapes_ok rest | _ \<Rightarrow> False)
     else escapes_ok s)"

definition control_byte :: "char \<Rightarrow> bool" where
  "control_byte c \<longleftrightarrow> (of_char c :: nat) < 32 \<or> (of_char c :: nat) = 127"

definition userinfo_byte :: "char \<Rightarrow> bool" where
  "userinfo_byte c \<longleftrightarrow> is_letter c \<or> is_digit c \<or> c \<in> set ''-._:~!$&()*+,;=%@'' \<or> c = char_of (39 :: nat)"

text \<open>
  \<^verbatim>\<open>url.Parse\<close> followed by a test of scheme and host: the raw query when the URL parses, its lower-case
  scheme is \<open>scheme\<close> and its host is \<open>host\<close>, a name of letters. Such a host is written literally: in
  a host only \<open>%25\<close> and bytes above 127 are unescaped.
\<close>

definition url_query :: "string \<Rightarrow> string \<Rightarrow> string \<Rightarrow> string option" where
  "url_query scheme host s =
    (let (u, frag) = Cut (CHR ''#'') s in
     if list_ex control_byte u \<or> \<not> escapes_ok frag then None
     else case getScheme u of
       None \<Rightarrow> None
     | Some (sch, after) \<Rightarrow>
         (let (hier, raw) = Cut (CHR ''?'') after;
              authority = takeWhile (\<lambda>c. c \<noteq> CHR ''/'') (drop 2 hier);
              path = dropWhile (\<lambda>c. c \<noteq> CHR ''/'') (drop 2 hier);
              at = CHR ''@'' \<in> set authority;
              name = rev (takeWhile (\<lambda>c. c \<noteq> CHR ''@'') (rev authority));
              user = take (length authority - Suc (length name)) authority
          in if map to_lower sch = scheme \<and> take 2 hier = ''//'' \<and> name = host \<and> escapes_ok path
               \<and> (at \<longrightarrow> list_all userinfo_byte user \<and> escapes_ok user)
             then Some raw else None))"

section \<open>Lemmas\<close>

lemma Split_nonempty [simp]: "Split sep s \<noteq> []"
  by (induction s) (auto split: list.splits)

lemma Split_plain: "sep \<notin> set w \<Longrightarrow> Split sep w = [w]"
  by (induction w) auto

lemma Split_append: "sep \<notin> set w \<Longrightarrow> Split sep (w @ sep # s) = w # Split sep s"
  by (induction w) auto

lemma Split_Join:
  "ws \<noteq> [] \<Longrightarrow> (\<And>w. w \<in> set ws \<Longrightarrow> sep \<notin> set w) \<Longrightarrow> Split sep (Join sep ws) = ws"
  by (induction sep ws rule: Join.induct) (auto simp: Split_plain Split_append)

lemma Join_Split [simp]: "Join sep (Split sep s) = s"
proof (induction s)
  case (Cons c s)
  obtain w ws where "Split sep s = w # ws" using Split_nonempty [of sep s] by (cases "Split sep s") auto
  with Cons show ?case by (cases ws) auto
qed simp

lemma Split_no_sep: "w \<in> set (Split sep s) \<Longrightarrow> sep \<notin> set w"
proof (induction s arbitrary: w)
  case (Cons c s)
  obtain v vs where "Split sep s = v # vs" using Split_nonempty [of sep s] by (cases "Split sep s") auto
  with Cons show ?case by (auto split: if_splits)
qed simp

lemma Cut_append: "sep \<notin> set w \<Longrightarrow> Cut sep (w @ sep # s) = (w, s)"
  by (simp add: Cut_def takeWhile_append dropWhile_append)

lemma Cut_plain: "sep \<notin> set w \<Longrightarrow> Cut sep w = (w, [])"
  unfolding Cut_def by (induction w) auto

lemma of_char_dec_digit: "n < 10 \<Longrightarrow> (of_char (dec_digit n) :: nat) = 48 + n"
  by (simp add: dec_digit_def)

lemma digits_value_append: "digits_value (ds @ [c]) = digits_value ds * 10 + (of_char c - 48)"
  by (simp add: digits_value_def)

lemma dec_nat_digits: "dec_nat n \<noteq> [] \<and> list_all is_digit (dec_nat n) \<and> digits_value (dec_nat n) = n"
proof (induction n rule: dec_nat.induct)
  case (1 n)
  moreover have "n mod 10 \<le> 9" using mod_less_divisor [of 10 n] by simp
  ultimately show ?case
    by (simp add: dec_nat.simps [of n] digits_value_append of_char_dec_digit is_digit_def)
      (simp add: digits_value_def of_char_dec_digit)
qed

lemma Atoi_FormatInt: "0 \<le> n \<Longrightarrow> n < 2 ^ 63 \<Longrightarrow> Atoi (FormatInt n) = Some n"
proof -
  assume n: "0 \<le> n" "n < 2 ^ 63"
  note d = dec_nat_digits [of "nat n"]
  then obtain c s where cs: "dec_nat (nat n) = c # s" by (cases "dec_nat (nat n)") auto
  with d have "is_digit c" by simp
  then have "c \<noteq> CHR ''-'' \<and> c \<noteq> CHR ''+''" by (auto simp: is_digit_def)
  with n d cs show ?thesis by (simp add: Atoi_def FormatInt_def)
qed

section \<open>Escaping\<close>

text \<open>The contract of an escaping: it can be undone, and what it writes is made of allowed bytes.\<close>

locale escaping =
  fixes esc :: "string \<Rightarrow> string"
    and unesc :: "string \<Rightarrow> string option"
    and allowed :: "char \<Rightarrow> bool"
  assumes unesc_esc: "unesc (esc s) = Some s"
    and esc_allowed: "c \<in> set (esc s) \<Longrightarrow> allowed c"
begin

lemma esc_avoids: "\<not> allowed c \<Longrightarrow> c \<notin> set (esc s)"
  using esc_allowed by blast

lemma esc_inject: "esc s = esc s' \<longleftrightarrow> s = s'"
  by (metis option.inject unesc_esc)

end

definition query_byte :: "char \<Rightarrow> bool" where
  "query_byte c \<longleftrightarrow> unreserved c \<or> c = CHR ''+'' \<or> c = CHR ''%''"

lemma unhex_upper_hex: "n < 16 \<Longrightarrow> unhex (upper_hex n) = Some n"
  by (simp add: unhex_def upper_hex_def is_digit_def)

lemma unreserved_upper_hex: "n < 16 \<Longrightarrow> unreserved (upper_hex n)"
  by (auto simp: unreserved_def upper_hex_def is_digit_def)

lemma not_unreserved: "\<not> unreserved (CHR ''%'')" "\<not> unreserved (CHR ''+'')"
  by (simp_all add: unreserved_def is_digit_def)

lemma high_nibble: "(of_char c :: nat) div 16 < 16"
  using nat_of_char_less_256 [of c] by (simp add: less_mult_imp_div_less)

lemma QueryUnescape_escape_byte:
  "QueryUnescape (escape_byte c @ s) = map_option ((#) c) (QueryUnescape s)"
proof (cases "unreserved c")
  case True
  with not_unreserved have "c \<noteq> CHR ''%''" "c \<noteq> CHR ''+''" by auto
  with True show ?thesis by (simp add: escape_byte_def)
next
  case False
  then show ?thesis using high_nibble [of c]
    by (simp add: escape_byte_def unhex_upper_hex)
qed

lemma QueryUnescape_QueryEscape: "QueryUnescape (QueryEscape s) = Some s"
  by (induction s) (simp_all add: QueryEscape_def QueryUnescape_escape_byte)

lemma query_byte_escape: "c \<in> set (escape_byte b) \<Longrightarrow> query_byte c"
  using high_nibble [of b]
  by (auto simp: escape_byte_def query_byte_def unreserved_upper_hex split: if_splits)

interpretation qe: escaping QueryEscape QueryUnescape query_byte
  by unfold_locales
    (rule QueryUnescape_QueryEscape, auto simp: QueryEscape_def dest: query_byte_escape)

lemma not_query_byte:
  "\<not> query_byte (CHR ''='')" "\<not> query_byte (CHR ''&'')" "\<not> query_byte (CHR '';'')"
  "\<not> query_byte (CHR ''#'')" "\<not> query_byte (CHR ''?'')" "control_byte c \<Longrightarrow> \<not> query_byte c"
  by (auto simp: query_byte_def unreserved_def is_digit_def control_byte_def)

lemma parse_query_pair: "parse_piece (query_pair kv) = Some kv"
  by (simp add: parse_piece_def query_pair_def qe.esc_avoids not_query_byte Cut_append
      qe.unesc_esc)

lemma query_pair_bytes: "c \<in> set (query_pair kv) \<Longrightarrow> query_byte c \<or> c = CHR ''=''"
  by (auto simp: query_pair_def dest: qe.esc_allowed)

lemma Query_pairs: "kvs \<noteq> [] \<Longrightarrow> Query (Join (CHR ''&'') (map query_pair kvs)) = kvs"
proof -
  assume "kvs \<noteq> []"
  have "Split (CHR ''&'') (Join (CHR ''&'') (map query_pair kvs)) = map query_pair kvs"
    using \<open>kvs \<noteq> []\<close> by (intro Split_Join) (auto dest!: query_pair_bytes simp: not_query_byte)
  moreover have "List.map_filter parse_piece (map query_pair xs) = xs" for xs
    by (induction xs) (simp_all add: parse_query_pair)
  ultimately show ?thesis by (simp add: Query_def)
qed

lemma Join_bytes: "c \<in> set (Join sep ws) \<Longrightarrow> c = sep \<or> (\<exists>w\<in>set ws. c \<in> set w)"
  by (induction sep ws rule: Join.induct) auto

definition sorted_pairs :: "url_values \<Rightarrow> (string \<times> string) list" where
  "sorted_pairs vs = map (\<lambda>k. (k, the (map_of vs k))) (sort (gokeys vs))"

lemma Query_Encode: "vs \<noteq> [] \<Longrightarrow> Query (Values_Encode vs) = sorted_pairs vs"
  unfolding Values_Encode_def sorted_pairs_def by (rule Query_pairs) (metis Nil_is_map_conv length_0_conv length_map length_sort)

lemma map_of_sorted_pairs: "map_of (sorted_pairs vs) k = map_of vs k"
proof -
  have "map_of (map (\<lambda>k. (k, the (map_of vs k))) ks) k
      = (if k \<in> set ks then Some (the (map_of vs k)) else None)" for ks
    by (induction ks) auto
  from this [of "sort (gokeys vs)"]
  have "map_of (sorted_pairs vs) k = (if k \<in> set (gokeys vs) then Some (the (map_of vs k)) else None)"
    by (simp add: sorted_pairs_def)
  moreover have "map_of vs k = None \<longleftrightarrow> k \<notin> set (gokeys vs)"
    by (simp add: map_of_eq_None_iff)
  ultimately show ?thesis by (cases "map_of vs k") simp_all
qed

lemma Values_Get_Encode:
  "vs \<noteq> [] \<Longrightarrow> Values_Get k (Query (Values_Encode vs)) = (case map_of vs k of None \<Rightarrow> [] | Some v \<Rightarrow> v)"
  by (simp add: Query_Encode Values_Get_def map_of_sorted_pairs)

lemma Encode_bytes: "c \<in> set (Values_Encode vs) \<Longrightarrow> query_byte c \<or> c = CHR ''='' \<or> c = CHR ''&''"
  unfolding Values_Encode_def by (auto dest!: Join_bytes dest: query_pair_bytes)

end
