(* ===== verification/EdgeReplay.thy ===== *)
theory EdgeReplay
  imports EdgeClient GoURL "HOL-Library.Sublist"
begin

text \<open>
  Several passes of \<^verbatim>\<open>SyncOnce\<close> (\<^verbatim>\<open>src/edgeclient/client.go\<close>). A command is offered until its result is
  recorded, so it may be executed and reported by more than one pass; the cloud tells reports apart by
  the event id. What an event reports is a \<open>fact\<close>, and an id names one fact.
\<close>

section \<open>What a pass reports\<close>

datatype fact =
    Receipt string string
  | SessionFact string nat string

fun fact_id :: "fact \<Rightarrow> string" where
  "fact_id (Receipt cmd status) = ''devevt_'' @ cmd @ ''_'' @ status"
| "fact_id (SessionFact cmd i kind) = ''devevt_'' @ cmd @ ''_agent_'' @ FormatInt (int i) @ ''_'' @ kind"

definition facts :: "'ts edge_env \<Rightarrow> Client \<Rightarrow> nat \<times> 'ts EdgeCommand \<Rightarrow> fact list" where
  "facts en c = (\<lambda>(n, cmd). Receipt (ec_CommandId cmd) (fst (outcome en c n cmd))
     # map (\<lambda>(i, upd). SessionFact (ec_CommandId cmd) i (au_Kind upd)) (enumerate 0 (updates en c n cmd)))"

definition pass_facts :: "'ts edge_env \<Rightarrow> Client \<Rightarrow> 'ts SyncEdgeResponse \<Rightarrow> fact list" where
  "pass_facts en c msg = concat (map (facts en c) (enumerate 0 (sex_Commands msg)))"

lemma sign_if_keyed_id: "sign_if_keyed en c ev = Some ev' \<Longrightarrow> ev_EventId ev' = ev_EventId ev"
  by (auto simp: sign_if_keyed_def SignEvent_def split: option.split_asm)

lemma resultEvent_id: "resultEvent en cmd seq status js = Inr ev \<Longrightarrow> ev_EventId ev = fact_id (Receipt (ec_CommandId cmd) status)"
  by (auto simp: resultEvent_def split: if_split_asm option.split_asm)

lemma agentEvent_id:
  "agentEvent en cmd seq i upd = Inr ev \<Longrightarrow> ev_EventId ev = fact_id (SessionFact (ec_CommandId cmd) i (au_Kind upd))"
  by (auto simp: agentEvent_def split: if_split_asm option.split_asm)

lemma agent_events_ids:
  "agent_events en c cmd i upds p = Some (None, p') \<Longrightarrow> map ev_EventId (pa_events p') = map ev_EventId (pa_events p)
    @ map fact_id (map (\<lambda>(j, upd). SessionFact (ec_CommandId cmd) j (au_Kind upd)) (enumerate i upds))"
proof (induction en c cmd i upds p rule: agent_events.induct)
  case (2 en c cmd i upd upds p)
  from "2.prems" obtain ev ev' where ev: "agentEvent en cmd (pa_seq p + 1) i upd = Inr ev"
    and s: "sign_if_keyed en c ev = Some ev'"
    and go: "agent_events en c cmd (Suc i) upds
        (p\<lparr>pa_seq := pa_seq p + 1, pa_events := pa_events p @ [ev']\<rparr>) = Some (None, p')"
    by (auto simp: Let_def split: sum.splits option.splits)
  from "2.IH" [OF refl refl ev s] go show ?case
    using sign_if_keyed_id [OF s] agentEvent_id [OF ev] by simp
qed simp

lemma sync_command_ids:
  assumes "sync_command en c n cmd p = Some (None, p')"
  shows "map ev_EventId (pa_events p') = map ev_EventId (pa_events p) @ map fact_id (facts en c (n, cmd))"
proof -
  let ?p = "p\<lparr>pa_log := pa_log p @ [DoAck (ec_CommandId cmd)]\<rparr>"
  from assms obtain p1 status js ev ev' where
    run: "run_command en c n cmd ?p = Some ((status, js), p1)"
    and ev: "resultEvent en cmd (pa_seq p1 + 1) status js = Inr ev"
    and s: "sign_if_keyed en c ev = Some ev'"
    and go: "(case en_agent en of
        None \<Rightarrow> Some (None, p1\<lparr>pa_seq := pa_seq p1 + 1, pa_events := pa_events p1 @ [ev']\<rparr>)
      | Some agent \<Rightarrow> agent_events en c cmd 0 (agent n cmd status js)
          (p1\<lparr>pa_seq := pa_seq p1 + 1, pa_events := pa_events p1 @ [ev']\<rparr>)) = Some (None, p')"
    by (auto simp: sync_command_def Let_def split: option.splits sum.splits prod.splits)
  have o: "(status, js) = outcome en c n cmd" "pa_events p1 = pa_events p"
    using run_command_Some(1,3) [OF run] by simp_all
  then have st: "status = fst (outcome en c n cmd)" "js = snd (outcome en c n cmd)" by (metis fst_conv, metis snd_conv)
  have id: "ev_EventId ev' = fact_id (Receipt (ec_CommandId cmd) status)"
    using sign_if_keyed_id [OF s] resultEvent_id [OF ev] by simp
  show ?thesis
  proof (cases "en_agent en")
    case None
    then show ?thesis using go id o(2) st by (auto simp: facts_def updates_def)
  next
    case (Some agent)
    with go have "agent_events en c cmd 0 (agent n cmd status js)
        (p1\<lparr>pa_seq := pa_seq p1 + 1, pa_events := pa_events p1 @ [ev']\<rparr>) = Some (None, p')" by simp
    from agent_events_ids [OF this] show ?thesis using id o(2) st Some by (simp add: facts_def updates_def)
  qed
qed

lemma sync_commands_ids:
  "sync_commands en c n cmds p = Some (None, p') \<Longrightarrow>
   map ev_EventId (pa_events p') = map ev_EventId (pa_events p) @ map fact_id (concat (map (facts en c) (enumerate n cmds)))"
proof (induction en c n cmds p rule: sync_commands.induct)
  case (2 en c n cmd cmds p)
  then obtain p1 where s: "sync_command en c n cmd p = Some (None, p1)"
    and go: "sync_commands en c (Suc n) cmds p1 = Some (None, p')"
    by (auto split: option.splits)
  from "2.IH" [OF s refl refl go] sync_command_ids [OF s] show ?case by simp
qed simp

lemma submitted_ids:
  assumes "SyncOnce en c (Inr msg) = Some (report, err, log)" and "DoSubmit evs \<in> set log"
  shows "map ev_EventId evs = map fact_id (pass_facts en c msg)"
proof -
  obtain r p k where s: "sync_commands en c 0 (sex_Commands msg)
       \<lparr>pa_seq = sex_AckedDeviceSequence msg, pa_events = [], pa_log = []\<rparr> = Some (r, p)"
    and l: "pa_log p = concat (map (calls en c) (take k (enumerate 0 (sex_Commands msg))))"
    and log: "log = pa_log p @ (if r = None \<and> pa_events p \<noteq> [] then [DoSubmit (pa_events p)] else [])"
    using SyncOnce_split [OF assms(1)] by blast
  have "DoSubmit evs \<notin> set (pa_log p)" unfolding l by (rule DoSubmit_not_in_calls)
  then have "r = None" "evs = pa_events p" using assms(2) log by (auto split: if_split_asm)
  then show ?thesis using sync_commands_ids [of en c 0 "sex_Commands msg"] s by (simp add: pass_facts_def)
qed

section \<open>Ids name facts\<close>

text \<open>A command id is plain when \<^verbatim>\<open>_agent_\<close> does not occur in it, nor at its end with what follows.\<close>

definition plain_id :: "string \<Rightarrow> bool" where
  "plain_id c \<longleftrightarrow> \<not> sublist ''_agent_'' (c @ ''_'')"

fun plain_fact :: "fact \<Rightarrow> bool" where
  "plain_fact (Receipt cmd status) \<longleftrightarrow> plain_id cmd \<and> CHR ''_'' \<notin> set status"
| "plain_fact (SessionFact cmd i kind) \<longleftrightarrow> plain_id cmd"

lemma cut_first: "a @ x # s = b @ x # t \<Longrightarrow> x \<notin> set a \<Longrightarrow> x \<notin> set b \<Longrightarrow> a = b \<and> s = t"
  by (induction a arbitrary: b) (auto simp: Cons_eq_append_conv)

lemma cut_last:
  assumes "a @ x # s = b @ x # t" and "x \<notin> set s" and "x \<notin> set t"
  shows "a = b \<and> s = t"
proof -
  have "rev (a @ x # s) = rev (b @ x # t)" using assms(1) by (rule arg_cong)
  then show ?thesis using cut_first [of "rev s" x "rev a" "rev t" "rev b"] assms(2,3) by simp
qed

definition marker :: string where
  "marker = ''_agent_''"

lemma plain_id_marker: "plain_id c \<Longrightarrow> c @ ''_'' \<noteq> d @ marker @ v"
  unfolding plain_id_def marker_def by (metis sublist_appendI)

lemma marker_overlap:
  assumes "u @ marker @ r = marker @ r'" and "u \<noteq> []"
  shows "\<exists>v. u @ ''_'' = marker @ v"
proof (cases "length marker \<le> length u")
  case True
  then obtain v where "u = marker @ v" using assms(1) by (metis append_eq_append_conv_if append_take_drop_id)
  then show ?thesis by simp
next
  case False
  define n where "n = length u"
  have "0 < n" "n < 7" using False assms(2) by (simp_all add: n_def marker_def)
  then have n: "n = 1 \<or> n = 2 \<or> n = 3 \<or> n = 4 \<or> n = 5 \<or> n = 6" by arith
  have u: "u = take n marker" using assms(1) False by (metis append_eq_append_conv_if n_def nat_le_linear)
  have "marker @ r = drop n (marker @ r')" using assms(1) by (metis append_eq_conv_conj n_def)
  then have "marker @ r = drop n marker @ r'" using False by (simp add: n_def)
  from arg_cong [OF this, of "take (length marker - n)"] have "take (length marker - n) marker = drop n marker"
    using False by (simp add: n_def)
  then have "n = 6" using n by (auto simp: marker_def)
  then show ?thesis using u by (simp add: marker_def)
qed

lemma marker_once:
  assumes "c @ marker @ r = d @ marker @ r'" and "plain_id c" and "plain_id d"
  shows "c = d \<and> r = r'"
proof -
  have "u = []" if p: "plain_id (d' @ u)" and q: "u @ marker @ q = marker @ q'" for d' u q q'
  proof (rule ccontr)
    assume "u \<noteq> []"
    from marker_overlap [OF q this] obtain v where "u @ ''_'' = marker @ v" by blast
    then show False using plain_id_marker [OF p, of d' v] by simp
  qed
  note overlap = this
  from assms(1) obtain u where "c = d @ u \<and> u @ marker @ r = marker @ r' \<or> c @ u = d \<and> marker @ r = u @ marker @ r'"
    by (auto simp: append_eq_append_conv2 [of c])
  then show ?thesis using overlap [of d u r r'] overlap [of c u r' r] assms(2,3) by auto
qed

lemma marker_absent:
  assumes "(c @ ''_'') @ s = (d @ marker) @ r" and "plain_id c" and "CHR ''_'' \<notin> set s"
  shows False
proof -
  from assms(1) obtain u where "c @ ''_'' = (d @ marker) @ u \<or> (c @ ''_'') @ u = d @ marker \<and> s = u @ r"
    unfolding append_eq_append_conv2 by blast
  then show False
  proof (elim disjE conjE)
    assume "c @ ''_'' = (d @ marker) @ u"
    then show False using plain_id_marker [OF assms(2), of d u] by simp
  next
    assume u: "(c @ ''_'') @ u = d @ marker" "s = u @ r"
    have "u \<noteq> []" using u(1) plain_id_marker [OF assms(2), of d "[]"] by auto
    moreover from this have "last u = CHR ''_''"
      using arg_cong [OF u(1), of last] by (simp add: marker_def)
    ultimately show False using u(2) assms(3) by (metis UnCI last_in_set set_append)
  qed
qed

lemma FormatInt_nat: "CHR ''_'' \<notin> set (FormatInt (int i))" "FormatInt (int i) = FormatInt (int j) \<Longrightarrow> i = j"
proof -
  show "CHR ''_'' \<notin> set (FormatInt (int i))"
    using dec_nat_digits [of i] by (auto simp: FormatInt_def list_all_iff is_digit_def)
  show "FormatInt (int i) = FormatInt (int j) \<Longrightarrow> i = j"
    unfolding FormatInt_def by (metis dec_nat_digits nat_int of_nat_less_0_iff)
qed

lemma fact_id_marker:
  "fact_id (SessionFact c i k) = ''devevt_'' @ c @ marker @ FormatInt (int i) @ CHR ''_'' # k"
  "fact_id (Receipt c s) = ''devevt_'' @ c @ CHR ''_'' # s"
  by (simp_all add: marker_def)

lemma receipt_no_session_fact:
  assumes "plain_fact (Receipt c s)"
  shows "fact_id (Receipt c s) \<noteq> fact_id (SessionFact d i k)"
proof
  assume "fact_id (Receipt c s) = fact_id (SessionFact d i k)"
  then have "c @ CHR ''_'' # s = d @ marker @ FormatInt (int i) @ CHR ''_'' # k"
    by (simp only: fact_id_marker same_append_eq)
  then have "(c @ ''_'') @ s = (d @ marker) @ FormatInt (int i) @ CHR ''_'' # k" by simp
  then show False by (rule marker_absent) (use assms in simp_all)
qed

lemma fact_id_inject:
  assumes "plain_fact f" and "plain_fact g"
  shows "fact_id f = fact_id g \<longleftrightarrow> f = g"
proof -
  have "f = g" if id: "fact_id f = fact_id g"
  proof (cases f)
    case (Receipt c s)
    then obtain d t where g: "g = Receipt d t" using id assms receipt_no_session_fact by (cases g) auto
    then show ?thesis using id assms Receipt cut_last [of c "CHR ''_''" s d t] by simp
  next
    case (SessionFact c i k)
    then obtain d j l where g: "g = SessionFact d j l" using id assms receipt_no_session_fact by (cases g) metis+
    then have "c @ marker @ FormatInt (int i) @ CHR ''_'' # k = d @ marker @ FormatInt (int j) @ CHR ''_'' # l"
      using id unfolding SessionFact g by (simp only: fact_id_marker same_append_eq)
    then have "c = d \<and> FormatInt (int i) @ CHR ''_'' # k = FormatInt (int j) @ CHR ''_'' # l"
      by (rule marker_once) (use assms SessionFact g in simp_all)
    then show ?thesis using cut_first FormatInt_nat g SessionFact by metis
  qed
  then show ?thesis by blast
qed

section \<open>Property\<close>

fun fact_cmd :: "fact \<Rightarrow> string" where
  "fact_cmd (Receipt cmd status) = cmd"
| "fact_cmd (SessionFact cmd i kind) = cmd"

lemma facts_of_command: "f \<in> set (facts en c (n, cmd)) \<Longrightarrow> fact_cmd f = ec_CommandId cmd"
  by (auto simp: facts_def)

lemma distinct_facts: "distinct (facts en c (n, cmd))"
proof -
  have "distinct (map (\<lambda>(i, upd). SessionFact (ec_CommandId cmd) i (au_Kind upd)) (enumerate k upds))" for k upds
  proof (induction upds arbitrary: k)
    case (Cons upd upds)
    then show ?case by (auto simp: in_set_enumerate_eq)
  qed simp
  then show ?thesis by (auto simp: facts_def)
qed

lemma facts_of_commands: "f \<in> set (concat (map (facts en c) (enumerate n cmds))) \<Longrightarrow> fact_cmd f \<in> ec_CommandId ` set cmds"
  by (induction cmds arbitrary: n) (auto dest: facts_of_command)

lemma distinct_pass_facts:
  "distinct (map ec_CommandId cmds) \<Longrightarrow> distinct (concat (map (facts en c) (enumerate n cmds)))"
proof (induction cmds arbitrary: n)
  case (Cons cmd cmds)
  have "f \<notin> set (concat (map (facts en c) (enumerate (Suc n) cmds)))" if "f \<in> set (facts en c (n, cmd))" for f
    using facts_of_command [OF that] facts_of_commands [of f en c "Suc n" cmds] Cons.prems by auto
  then show ?case using Cons distinct_facts by auto
qed simp

text \<open>C16: An event id names one fact, across passes. When two passes submit events, of whatever commands,
  positions, clock readings, sequence numbers and keys, an event of the one has the id of an event of
  the other exactly when both report the same fact: the same status of the same command, or a fact of the
  same kind at the same place of the same command. So a replayed command is recognised and a
  contradiction is not taken for it; and within a pass of distinct commands no two events share an id.
  Statuses are to be without underscores, like the three of the vocabulary, and command ids without
  \<^verbatim>\<open>_agent_\<close>.\<close>
theorem event_id_names_fact:
  assumes "SyncOnce en c (Inr msg) = Some (report, err, log)" and "DoSubmit evs \<in> set log"
    and "SyncOnce en' c' (Inr msg') = Some (report', err', log')" and "DoSubmit evs' \<in> set log'"
    and "list_all plain_fact (pass_facts en c msg)" and "list_all plain_fact (pass_facts en' c' msg')"
  shows "length evs = length (pass_facts en c msg) \<and> length evs' = length (pass_facts en' c' msg')
    \<and> (\<forall>i < length evs. \<forall>j < length evs'.
        ev_EventId (evs ! i) = ev_EventId (evs' ! j) \<longleftrightarrow> pass_facts en c msg ! i = pass_facts en' c' msg' ! j)
    \<and> (distinct (map ec_CommandId (sex_Commands msg)) \<longrightarrow> distinct (map ev_EventId evs))"
proof -
  note ids = submitted_ids [OF assms(1,2)] submitted_ids [OF assms(3,4)]
  have len: "length evs = length (pass_facts en c msg)" "length evs' = length (pass_facts en' c' msg')"
    using ids by (metis length_map)+
  have "ev_EventId (evs ! i) = ev_EventId (evs' ! j) \<longleftrightarrow> pass_facts en c msg ! i = pass_facts en' c' msg' ! j"
    if "i < length evs" "j < length evs'" for i j
  proof -
    have "ev_EventId (evs ! i) = fact_id (pass_facts en c msg ! i)"
      "ev_EventId (evs' ! j) = fact_id (pass_facts en' c' msg' ! j)"
      using that len ids by (metis nth_map)+
    then show ?thesis using that len assms(5,6) by (simp add: fact_id_inject list_all_length)
  qed
  moreover have "inj_on fact_id (set (pass_facts en c msg))"
    using assms(5) fact_id_inject by (simp add: inj_on_def list_all_iff)
  then have "distinct (map ev_EventId evs)" if "distinct (map ec_CommandId (sex_Commands msg))"
    using distinct_pass_facts [OF that, of en c 0] ids(1) by (simp add: distinct_map pass_facts_def)
  ultimately show ?thesis using len by blast
qed

text \<open>The same command in two passes, behind another cursor in the second.\<close>

theorem event_id_names_fact_witness:
  "\<exists>evs evs' r r'. SyncOnce demo_edge_env demo_client (Inr (demo_sync 1)) = Some (r, None, [DoAck ''cmd'', DoExecute demo_command, DoSubmit evs])
    \<and> SyncOnce demo_edge_env demo_client (Inr ((demo_sync 1)\<lparr>sex_AckedDeviceSequence := 7\<rparr>))
        = Some (r', None, [DoAck ''cmd'', DoExecute demo_command, DoSubmit evs'])
    \<and> map ev_EventId evs = map ev_EventId evs' \<and> distinct (map ev_EventId evs)"
proof -
  let ?msg = "(demo_sync 1)\<lparr>sex_AckedDeviceSequence := 7\<rparr>"
  obtain evs r where 1: "SyncOnce demo_edge_env demo_client (Inr (demo_sync 1)) = Some (r, None,
      [DoAck ''cmd'', DoExecute demo_command, DoSubmit evs])" using demo_pass by blast
  obtain p where "sync_commands demo_edge_env demo_client 0 [demo_command]
      \<lparr>pa_seq = 7, pa_events = [], pa_log = []\<rparr> = Some (None, p)" and "length (pa_events p) = 2"
    and "pa_log p = [DoAck ''cmd'', DoExecute demo_command]"
    using demo_sync_command [of 0 "\<lparr>pa_seq = 7, pa_events = [], pa_log = []\<rparr>"] by auto
  then have "\<exists>evs' r'. SyncOnce demo_edge_env demo_client (Inr ?msg) = Some (r', None,
      [DoAck ''cmd'', DoExecute demo_command, DoSubmit evs'])"
    by (auto simp: SyncOnce_def demo_sync_def Let_def)
  then obtain evs' r' where 2: "SyncOnce demo_edge_env demo_client (Inr ?msg) = Some (r', None,
      [DoAck ''cmd'', DoExecute demo_command, DoSubmit evs'])" by blast
  have f: "pass_facts demo_edge_env demo_client (demo_sync 1) = [Receipt ''cmd'' ''succeeded'', SessionFact ''cmd'' 0 ''started'']"
    "pass_facts demo_edge_env demo_client ?msg = [Receipt ''cmd'' ''succeeded'', SessionFact ''cmd'' 0 ''started'']"
    using demo_refuse by (simp_all add: pass_facts_def facts_def demo_sync_def outcome_def updates_def)
  have "plain_id ''cmd''" by (simp add: plain_id_def sublist_Cons_right)
  then have pl: "list_all plain_fact (pass_facts demo_edge_env demo_client (demo_sync 1))"
    "list_all plain_fact (pass_facts demo_edge_env demo_client ?msg)" unfolding f by simp_all
  have s: "DoSubmit evs \<in> set [DoAck ''cmd'', DoExecute demo_command, DoSubmit evs]"
    "DoSubmit evs' \<in> set [DoAck ''cmd'', DoExecute demo_command, DoSubmit evs']" by simp_all
  note names = event_id_names_fact [OF 1 s(1) 2 s(2) pl]
  then have "map ev_EventId evs = map ev_EventId evs'" unfolding f by - (rule nth_equalityI, simp_all)
  moreover have "distinct (map ev_EventId evs)" using names by (simp add: demo_sync_def)
  ultimately show ?thesis using 1 2 by blast
qed

end
