(* ===== verification/EdgeFollow.thy ===== *)
theory EdgeFollow
  imports EdgeClient
begin

text \<open>
  \<^verbatim>\<open>Follow\<close> and \<^verbatim>\<open>watch\<close> of \<^verbatim>\<open>src/edgeclient/client.go\<close>: the poll loop and the goroutine that holds
  the wake stream, which meet in a channel of capacity one. Each blocking point of the two is a
  phase, and \<open>rail_step\<close> is one step of either, or the end of the context; what the cloud and
  the program answer in a pass (an environment of \<open>ens\<close>) and which ready case a \<^verbatim>\<open>select\<close> takes are free. \<open>ra_owed\<close> is a ghost: an announcement has come in
  since the last pass began; \<open>ra_passes\<close> keeps the calls of every pass.
\<close>

section \<open>Codes, kinds and phases\<close>

datatype WatchEdgeResponse_Kind =
    KIND_UNSPECIFIED | KIND_LISTENING | KIND_WAKE | KIND_HEARTBEAT | KIND_unknown int

text \<open>\<^verbatim>\<open>connect.CodeOf\<close> looks through \<^verbatim>\<open>%w\<close>; of nil and of an error with no code it is \<^verbatim>\<open>CodeUnknown\<close>.\<close>

fun CodeOf :: "sync_error option \<Rightarrow> rpc_code" where
  "CodeOf (Some (SyncFailed code)) = code"
| "CodeOf (Some (AckFailed cmd code)) = code"
| "CodeOf (Some (SubmitFailed code)) = code"
| "CodeOf (Some (ResultEventFailed cmd e)) = OtherCode"
| "CodeOf (Some (AgentEventFailed cmd e)) = OtherCode"
| "CodeOf None = OtherCode"

datatype follow_end = AuthRefused sync_error | ContextOver

datatype follow_phase = Passing | Waiting gotime | Followed follow_end

datatype watch_phase = LoopHead | Dialing | Receiving | Backing gotime | Retired

record 'ts rail =
  ra_ctx :: bool
  ra_wake :: bool
  ra_follow :: follow_phase
  ra_watch :: watch_phase
  ra_backoff :: gotime
  ra_owed :: bool
  ra_passes :: "('ts edge_env \<times> 'ts edge_call list) list"

section \<open>The poll loop\<close>

text \<open>The product is an \<^verbatim>\<open>int64\<close>.\<close>

definition pass_interval :: "SyncReport \<Rightarrow> gotime" where
  "pass_interval report = signed_take_bit 63 (uint (max (rp_PollSeconds report) 1) * Second)"

definition after_pass :: "SyncReport \<Rightarrow> sync_error option \<Rightarrow> bool \<Rightarrow> follow_phase" where
  "after_pass report err ctxOver =
    (case err of
       None \<Rightarrow> Waiting (pass_interval report)
     | Some e \<Rightarrow>
         (if CodeOf err = Unauthenticated then Followed (AuthRefused e)
          else if ctxOver then Followed ContextOver
          else Waiting (pass_interval report)))"

definition begin_pass :: "'ts rail \<Rightarrow> 'ts rail" where
  "begin_pass r = r\<lparr>ra_follow := Passing, ra_owed := False\<rparr>"

section \<open>The watcher\<close>

text \<open>The send with a default: a full channel keeps its one token.\<close>

definition nudge :: "'ts rail \<Rightarrow> 'ts rail" where
  "nudge r = r\<lparr>ra_wake := True, ra_owed := True\<rparr>"

definition receive :: "WatchEdgeResponse_Kind \<Rightarrow> 'ts rail \<Rightarrow> 'ts rail" where
  "receive kind r =
    (let r' = r\<lparr>ra_backoff := Second\<rparr> in
     if kind \<in> {KIND_WAKE, KIND_LISTENING} then nudge r' else r')"

definition after_stream :: "rpc_code \<Rightarrow> 'ts rail \<Rightarrow> 'ts rail" where
  "after_stream code r = r\<lparr>ra_watch :=
     (if code = Unimplemented \<or> code = Unauthenticated then Retired
      else if ra_ctx r then Retired
      else Backing (ra_backoff r))\<rparr>"

definition next_backoff :: "gotime \<Rightarrow> gotime" where
  "next_backoff b = min (b * 2) (30 * Second)"

section \<open>The two together\<close>

definition Follow_start :: "'ts rail" where
  "Follow_start = \<lparr>ra_ctx = False, ra_wake = False, ra_follow = Passing, ra_watch = LoopHead,
     ra_backoff = Second, ra_owed = False, ra_passes = []\<rparr>"

inductive rail_step :: "'ts edge_env set \<Rightarrow> Client \<Rightarrow> 'ts rail \<Rightarrow> 'ts rail \<Rightarrow> bool" for ens c where
  pass: "ra_follow r = Passing \<Longrightarrow> en \<in> ens \<Longrightarrow> SyncOnce en c sync = Some (report, err, log) \<Longrightarrow>
    rail_step ens c r (r\<lparr>ra_follow := after_pass report err (ra_ctx r), ra_passes := ra_passes r @ [(en, log)]\<rparr>)"
| wait_done: "ra_follow r = Waiting d \<Longrightarrow> ra_ctx r \<Longrightarrow>
    rail_step ens c r (r\<lparr>ra_follow := Followed ContextOver\<rparr>)"
| wait_timer: "ra_follow r = Waiting d \<Longrightarrow> rail_step ens c r (begin_pass r)"
| wait_wake: "ra_follow r = Waiting d \<Longrightarrow> ra_wake r \<Longrightarrow>
    rail_step ens c r (begin_pass (r\<lparr>ra_wake := False\<rparr>))"
| head_over: "ra_watch r = LoopHead \<Longrightarrow> ra_ctx r \<Longrightarrow> rail_step ens c r (r\<lparr>ra_watch := Retired\<rparr>)"
| head_dial: "ra_watch r = LoopHead \<Longrightarrow> \<not> ra_ctx r \<Longrightarrow> rail_step ens c r (r\<lparr>ra_watch := Dialing\<rparr>)"
| dial_failed: "ra_watch r = Dialing \<Longrightarrow> rail_step ens c r (after_stream code r)"
| dial_ok: "ra_watch r = Dialing \<Longrightarrow> rail_step ens c r (r\<lparr>ra_watch := Receiving\<rparr>)"
| received: "ra_watch r = Receiving \<Longrightarrow> rail_step ens c r (receive kind r)"
| stream_over: "ra_watch r = Receiving \<Longrightarrow> rail_step ens c r (after_stream code r)"
| back_done: "ra_watch r = Backing d \<Longrightarrow> ra_ctx r \<Longrightarrow> rail_step ens c r (r\<lparr>ra_watch := Retired\<rparr>)"
| back_timer: "ra_watch r = Backing d \<Longrightarrow>
    rail_step ens c r (r\<lparr>ra_watch := LoopHead, ra_backoff := next_backoff (ra_backoff r)\<rparr>)"
| cancelled: "rail_step ens c r (r\<lparr>ra_ctx := True\<rparr>)"

inductive_cases rail_stepE: "rail_step ens c r r'"

inductive rail_runs :: "'ts edge_env set \<Rightarrow> Client \<Rightarrow> 'ts rail \<Rightarrow> bool" for ens c where
  start: "rail_runs ens c Follow_start"
| stepped: "rail_runs ens c r \<Longrightarrow> rail_step ens c r r' \<Longrightarrow> rail_runs ens c r'"

section \<open>Lemmas\<close>

text \<open>The doublings from one second, capped at thirty.\<close>

definition backoff_after :: "nat \<Rightarrow> gotime" where
  "backoff_after k = min (2 ^ k) 30 * Second"

lemma next_backoff_after: "next_backoff (backoff_after k) = backoff_after (Suc k)"
  by (auto simp: next_backoff_def backoff_after_def Second_def min_def)

lemma pass_interval_eq: "pass_interval report = max 1 (uint (rp_PollSeconds report)) * Second"
proof -
  have u: "uint (max (rp_PollSeconds report) 1) = max 1 (uint (rp_PollSeconds report))"
    by (auto simp: max_def word_le_def)
  have "uint (rp_PollSeconds report) < 2 ^ 32"
    using uint_lt2p [of "rp_PollSeconds report"] by simp
  then show ?thesis
    unfolding pass_interval_def u Second_def by (intro signed_take_bit_int_eq_self) auto
qed

definition rail_inv :: "'ts rail \<Rightarrow> bool" where
  "rail_inv r \<longleftrightarrow> (ra_owed r \<longrightarrow> ra_wake r)
     \<and> (\<exists>k. ra_backoff r = backoff_after k)
     \<and> (\<forall>d. ra_watch r = Backing d \<longrightarrow> d = ra_backoff r)
     \<and> (\<forall>d. ra_follow r = Waiting d \<longrightarrow> (\<exists>p :: u32. d = max 1 (uint p) * Second))
     \<and> (\<forall>e. ra_follow r = Followed (AuthRefused e) \<longrightarrow> CodeOf (Some e) = Unauthenticated)
     \<and> (ra_follow r = Followed ContextOver \<longrightarrow> ra_ctx r)"

lemma after_pass_cases:
  "after_pass report err over = Waiting d \<Longrightarrow> d = max 1 (uint (rp_PollSeconds report)) * Second"
  "after_pass report err over = Followed (AuthRefused e) \<Longrightarrow> CodeOf (Some e) = Unauthenticated"
  "after_pass report err over = Followed ContextOver \<Longrightarrow> over"
  by (auto simp: after_pass_def pass_interval_eq split: option.splits if_splits)

lemma rail_inv_start: "rail_inv Follow_start"
  by (auto simp: rail_inv_def Follow_start_def backoff_after_def intro: exI [of _ 0])

lemma backoff_one: "\<exists>k. Second = backoff_after k"
  by (rule exI [of _ 0]) (simp add: backoff_after_def)

lemma rail_inv_step: "rail_step ens c r r' \<Longrightarrow> rail_inv r \<Longrightarrow> rail_inv r'"
proof (induction rule: rail_step.induct)
  case (pass r en sync report err log)
  then show ?case by (auto simp: rail_inv_def dest: after_pass_cases)
next
  case (received r kind)
  then show ?case using backoff_one by (auto simp: rail_inv_def receive_def nudge_def Let_def)
next
  case (back_timer r d)
  then obtain k where "ra_backoff r = backoff_after k" by (auto simp: rail_inv_def)
  then have "\<exists>k. next_backoff (ra_backoff r) = backoff_after k" by (auto simp: next_backoff_after)
  with back_timer show ?case by (simp add: rail_inv_def)
qed (auto simp: rail_inv_def begin_pass_def after_stream_def split: if_splits)

lemma rail_inv_runs: "rail_runs ens c r \<Longrightarrow> rail_inv r"
  by (induction rule: rail_runs.induct) (auto intro: rail_inv_start rail_inv_step)

lemma owed_cleared_by_pass:
  "rail_step ens c r r' \<Longrightarrow> ra_owed r \<Longrightarrow> \<not> ra_owed r' \<Longrightarrow>
   (\<exists>d. ra_follow r = Waiting d) \<and> ra_follow r' = Passing"
  by (induction rule: rail_step.induct)
    (auto simp: begin_pass_def after_stream_def receive_def nudge_def Let_def split: if_splits)

lemma ended_stays:
  "rail_step ens c r r' \<Longrightarrow> ra_follow r = Followed fe \<Longrightarrow> ra_follow r' = Followed fe"
  "rail_step ens c r r' \<Longrightarrow> ra_watch r = Retired \<Longrightarrow> ra_watch r' = Retired"
  by (induction rule: rail_step.induct)
    (auto simp: begin_pass_def after_stream_def receive_def nudge_def Let_def split: if_splits)

lemma watcher_leaves_loop_alone:
  "rail_step ens c r r' \<Longrightarrow> ra_watch r' \<noteq> ra_watch r \<Longrightarrow> ra_follow r' = ra_follow r"
  by (induction rule: rail_step.induct)
    (auto simp: begin_pass_def after_stream_def receive_def nudge_def Let_def split: if_splits)

section \<open>A concrete run for the witnesses\<close>

text \<open>The wake stream is up, an announcement came in, and the first pass failed for the moment.\<close>

definition demo_rail :: "gotime rail" where
  "demo_rail = \<lparr>ra_ctx = False, ra_wake = True, ra_follow = Waiting Second, ra_watch = Receiving,
     ra_backoff = Second, ra_owed = True, ra_passes = [(demo_edge_env, [])]\<rparr>"

lemma demo_rail_runs: "rail_runs (UNIV :: gotime edge_env set) demo_client demo_rail"
proof -
  let ?U = "UNIV :: gotime edge_env set"
  note go = rail_runs.stepped
  have 1: "rail_runs ?U demo_client (Follow_start\<lparr>ra_watch := Dialing\<rparr>)"
    by (rule go [OF rail_runs.start rail_step.head_dial]) (simp_all add: Follow_start_def)
  have "rail_step ?U demo_client (Follow_start\<lparr>ra_watch := Dialing\<rparr>)
      (Follow_start\<lparr>ra_watch := Dialing\<rparr>\<lparr>ra_watch := Receiving\<rparr>)"
    by (rule rail_step.dial_ok) simp
  from go [OF 1 this] have 2: "rail_runs ?U demo_client (Follow_start\<lparr>ra_watch := Receiving\<rparr>)" by simp
  have 3: "rail_runs ?U demo_client (receive KIND_WAKE (Follow_start\<lparr>ra_watch := Receiving\<rparr>))"
    by (rule go [OF 2 rail_step.received]) simp
  have "SyncOnce demo_edge_env demo_client (Inl OtherCode) = Some (zero_SyncReport, Some (SyncFailed OtherCode), [])"
    by (simp add: SyncOnce_def)
  from go [OF 3 rail_step.pass [OF _ UNIV_I this]] show ?thesis
    by (simp add: demo_rail_def Follow_start_def receive_def nudge_def after_pass_def pass_interval_eq
        zero_SyncReport_def Let_def)
qed

section \<open>Properties\<close>

text \<open>C23: No announcement is slept through. In every state the two goroutines can reach, an
  announcement that came in after the last pass began still has its token in the channel; if the
  loop is waiting, it can begin the next pass at once and use up that token; and nothing but the
  beginning of a pass settles the announcement.\<close>
theorem no_announcement_slept_through:
  assumes "rail_runs ens c r" and "ra_owed r"
  shows "ra_wake r
    \<and> (\<forall>d. ra_follow r = Waiting d \<longrightarrow> (\<exists>r'. rail_step ens c r r' \<and> ra_follow r' = Passing
        \<and> \<not> ra_owed r' \<and> \<not> ra_wake r'))
    \<and> (\<forall>r'. rail_step ens c r r' \<longrightarrow> ra_owed r' \<or> (\<exists>d. ra_follow r = Waiting d) \<and> ra_follow r' = Passing)"
proof -
  have wake: "ra_wake r" using rail_inv_runs [OF assms(1)] assms(2) by (simp add: rail_inv_def)
  have "rail_step ens c r (begin_pass (r\<lparr>ra_wake := False\<rparr>))" if "ra_follow r = Waiting d" for d
    using wait_wake [OF that wake] .
  then show ?thesis using wake owed_cleared_by_pass assms(2)
    by (fastforce simp: begin_pass_def)
qed

theorem no_announcement_slept_through_witness:
  "\<exists>r'. rail_step (UNIV :: gotime edge_env set) demo_client demo_rail r' \<and> ra_follow r' = Passing
    \<and> \<not> ra_owed r'"
proof -
  have o: "ra_owed demo_rail" and w: "ra_follow demo_rail = Waiting Second"
    by (simp_all add: demo_rail_def)
  from no_announcement_slept_through [OF demo_rail_runs o] w show ?thesis by blast
qed



text \<open>The loop gives up for two reasons only. When it has ended, the cloud refused the token or
  the context is over; it has ended for good; the watcher, once retired, stays so, and no step of
  the watcher touches the loop; and a pass that failed in any other way while the context lives
  leads to the next wait.\<close>
theorem loop_ends_for_cause:
  assumes "rail_runs ens c r"
  shows "(\<forall>fe. ra_follow r = Followed fe \<longrightarrow>
      (case fe of AuthRefused e \<Rightarrow> CodeOf (Some e) = Unauthenticated | ContextOver \<Rightarrow> ra_ctx r))
    \<and> (\<forall>r'. rail_step ens c r r' \<longrightarrow>
        (\<forall>fe. ra_follow r = Followed fe \<longrightarrow> ra_follow r' = Followed fe)
        \<and> (ra_watch r = Retired \<longrightarrow> ra_watch r' = Retired)
        \<and> (ra_watch r' \<noteq> ra_watch r \<longrightarrow> ra_follow r' = ra_follow r)
        \<and> (ra_follow r = Passing \<and> \<not> ra_ctx r \<and> ra_follow r' \<noteq> Passing \<longrightarrow>
            (\<exists>d. ra_follow r' = Waiting d) \<or> (\<exists>e. ra_follow r' = Followed (AuthRefused e))))"
proof -
  have "rail_step ens c r r' \<Longrightarrow> ra_follow r = Passing \<Longrightarrow> \<not> ra_ctx r \<Longrightarrow> ra_follow r' \<noteq> Passing \<Longrightarrow>
      (\<exists>d. ra_follow r' = Waiting d) \<or> (\<exists>e. ra_follow r' = Followed (AuthRefused e))" for r'
    by (induction rule: rail_step.induct)
      (auto simp: after_pass_def after_stream_def receive_def nudge_def Let_def begin_pass_def
        split: option.splits if_splits)
  then show ?thesis
    using rail_inv_runs [OF assms] ended_stays [of ens c r] watcher_leaves_loop_alone [of ens c r]
    by (auto simp: rail_inv_def split: follow_end.splits)
qed

theorem loop_ends_for_cause_witness:
  "\<exists>r. rail_runs (UNIV :: gotime edge_env set) demo_client r \<and> ra_follow r = Followed ContextOver \<and> ra_ctx r"
proof -
  have 1: "rail_runs (UNIV :: gotime edge_env set) demo_client (demo_rail\<lparr>ra_ctx := True\<rparr>)"
    by (rule rail_runs.stepped [OF demo_rail_runs rail_step.cancelled])
  have 2: "rail_runs (UNIV :: gotime edge_env set) demo_client
      (demo_rail\<lparr>ra_ctx := True\<rparr>\<lparr>ra_follow := Followed ContextOver\<rparr>)"
    by (rule rail_runs.stepped [OF 1 rail_step.wait_done]) (simp_all add: demo_rail_def)
  from loop_ends_for_cause [OF 2] 2 show ?thesis by force
qed

end
