(* ===== verification/DeviceLife.thy ===== *)
theory DeviceLife
  imports EdgeFollow
begin

text \<open>
  A device from its registration on: \<^verbatim>\<open>Register\<close>, then the \<^verbatim>\<open>Follow\<close> loop with its passes
  (\<^verbatim>\<open>src/edgeclient/client.go\<close>), whatever the cloud and the program answer in each.
\<close>

section \<open>The passes of a run\<close>

definition pass_of :: "'ts edge_env set \<Rightarrow> Client \<Rightarrow> 'ts edge_env \<times> 'ts edge_call list \<Rightarrow> bool" where
  "pass_of ens c = (\<lambda>(en, log). en \<in> ens \<and> (\<exists>sync report err. SyncOnce en c sync = Some (report, err, log)))"

lemma passes_of_step:
  "rail_step ens c r r' \<Longrightarrow> list_all (pass_of ens c) (ra_passes r) \<Longrightarrow> list_all (pass_of ens c) (ra_passes r')"
proof (induction rule: rail_step.induct)
  case (pass r en sync report err log)
  then show ?case by (auto simp: pass_of_def)
qed (simp_all add: begin_pass_def after_stream_def receive_def nudge_def Let_def)

lemma passes_of_run: "rail_runs ens c r \<Longrightarrow> list_all (pass_of ens c) (ra_passes r)"
  by (induction rule: rail_runs.induct) (simp add: Follow_start_def, rule passes_of_step)

lemma passes_grow:
  "rail_step ens c r r' \<Longrightarrow> ra_follow r \<noteq> Passing \<Longrightarrow> ra_passes r' = ra_passes r"
  by (induction rule: rail_step.induct)
    (simp_all add: begin_pass_def after_stream_def receive_def nudge_def Let_def)

lemma submitted_sealed:
  assumes "SyncOnce en c (Inr msg) = Some (report, err, log)" and "DoSubmit evs \<in> set log"
  shows "\<forall>ev \<in> set evs. sealed en c ev" "numbered (sex_AckedDeviceSequence msg) evs"
proof -
  obtain r p k where s: "sync_commands en c 0 (sex_Commands msg)
       \<lparr>pa_seq = sex_AckedDeviceSequence msg, pa_events = [], pa_log = []\<rparr> = Some (r, p)"
    and l: "pa_log p = concat (map (calls en c) (take k (enumerate 0 (sex_Commands msg))))"
    and log: "log = pa_log p @ (if r = None \<and> pa_events p \<noteq> [] then [DoSubmit (pa_events p)] else [])"
    using SyncOnce_split [OF assms(1)] by blast
  have "DoSubmit evs \<notin> set (pa_log p)" unfolding l by (rule DoSubmit_not_in_calls)
  then have "r = None" "evs = pa_events p" using assms(2) log by (auto split: if_split_asm)
  then show "\<forall>ev \<in> set evs. sealed en c ev" "numbered (sex_AckedDeviceSequence msg) evs"
    using sync_commands_sealed [of en c "sex_Commands msg" "sex_AckedDeviceSequence msg" p] s by simp_all
qed

section \<open>Property\<close>

text \<open>C13: A device does only what its cloud signed. Let a device register and follow. However the loop,
  the wake stream, the cloud, the clock and the program go on from there: a command any pass hands to the
  executor was acknowledged in the call before, carries a signature that verifies under the key the
  registration delivered (when it delivered one), a ledger payload that matches its digest, and a grant
  that satisfies the whole checklist when it spends one; every event any pass submits is sealed with the
  device's own key; and the loop ends only when the cloud refuses the token or the context is over, and
  makes no further call then.\<close>
theorem device_obeys_its_cloud:
  fixes ens :: "'ts edge_env set"
  assumes "Register rpc name platform capabilities c0 = (Inr i, c)" and "rail_runs ens c r"
  shows "\<exists>res. rpc (register_request name platform capabilities c0) = Inr res \<and> i = rdx_DeviceId res
    \<and> (\<forall>en as cmd bs. (en, as @ DoExecute cmd # bs) \<in> set (ra_passes r) \<longrightarrow>
        (\<exists>as'. as = as' @ [DoAck (ec_CommandId cmd)])
        \<and> (\<forall>key. rdx_CloudPublicKey res = Some key \<longrightarrow> VerifyCommand (en_crypto en) (en_asTime en) key cmd = Some True)
        \<and> (ec_LedgerPayload cmd \<noteq> [] \<longrightarrow> sha256 (en_crypto en) (ec_LedgerPayload cmd) = ec_PayloadDigest cmd)
        \<and> (ec_ApprovalGrantId cmd \<noteq> [] \<longrightarrow>
            (\<exists>doc n. grant_checklist (en_crypto en) (en_grants en) (rdx_CloudPublicKey res) cmd (en_now en n) doc)))
    \<and> (\<forall>en log evs. (en, log) \<in> set (ra_passes r) \<longrightarrow> DoSubmit evs \<in> set log \<longrightarrow>
        (\<forall>ev \<in> set evs. sealed en c0 ev))
    \<and> (\<forall>fe. ra_follow r = Followed fe \<longrightarrow>
        (case fe of AuthRefused e \<Rightarrow> CodeOf (Some e) = Unauthenticated | ContextOver \<Rightarrow> ra_ctx r)
        \<and> (\<forall>r'. rail_step ens c r r' \<longrightarrow> ra_follow r' = Followed fe \<and> ra_passes r' = ra_passes r))"
proof -
  obtain res where res: "rpc (register_request name platform capabilities c0) = Inr res" "i = rdx_DeviceId res"
    "c = c0\<lparr>cl_cloudKey := rdx_CloudPublicKey res\<rparr>"
    using assms(1) by (auto simp: Register_def split: sum.split_asm)
  then have key: "cl_cloudKey c = rdx_CloudPublicKey res" "\<And>(en :: 'ts edge_env) ev. sealed en c ev = sealed en c0 ev"
    by (simp_all add: sealed_def)
  have p: "en \<in> ens \<and> (\<exists>sync report err. SyncOnce en c sync = Some (report, err, log))"
    if "(en, log) \<in> set (ra_passes r)" for en log
    using passes_of_run [OF assms(2)] that by (auto simp: list_all_iff pass_of_def)
  have "(\<exists>as'. as = as' @ [DoAck (ec_CommandId cmd)])
      \<and> (\<forall>key. rdx_CloudPublicKey res = Some key \<longrightarrow> VerifyCommand (en_crypto en) (en_asTime en) key cmd = Some True)
      \<and> (ec_LedgerPayload cmd \<noteq> [] \<longrightarrow> sha256 (en_crypto en) (ec_LedgerPayload cmd) = ec_PayloadDigest cmd)
      \<and> (ec_ApprovalGrantId cmd \<noteq> [] \<longrightarrow>
          (\<exists>doc n. grant_checklist (en_crypto en) (en_grants en) (rdx_CloudPublicKey res) cmd (en_now en n) doc))"
    if l: "(en, as @ DoExecute cmd # bs) \<in> set (ra_passes r)" for en as cmd bs
  proof -
    obtain sync report err where "SyncOnce en c sync = Some (report, err, as @ DoExecute cmd # bs)"
      using p [OF l] by blast
    from executed_commands_were_vetted [OF this] show ?thesis unfolding key(1) by blast
  qed
  moreover have "sealed en c0 ev" if l: "(en, log) \<in> set (ra_passes r)" "DoSubmit evs \<in> set log" "ev \<in> set evs" for en log evs ev
  proof -
    obtain sync report err where s: "SyncOnce en c sync = Some (report, err, log)" using p [OF l(1)] by blast
    then obtain msg where "sync = Inr msg" using l(2) by (cases sync) (auto simp: SyncOnce_def)
    then show ?thesis using submitted_sealed(1) [of en c msg report err log evs] s l(2,3) key(2) by simp
  qed
  moreover have "(case fe of AuthRefused e \<Rightarrow> CodeOf (Some e) = Unauthenticated | ContextOver \<Rightarrow> ra_ctx r)
      \<and> (\<forall>r'. rail_step ens c r r' \<longrightarrow> ra_follow r' = Followed fe \<and> ra_passes r' = ra_passes r)"
    if "ra_follow r = Followed fe" for fe
    using that rail_inv_runs [OF assms(2)] ended_stays(1) [of ens c r] passes_grow [of ens c r]
    by (auto simp: rail_inv_def split: follow_end.split)
  ultimately show ?thesis using res(1,2) by blast
qed

text \<open>The device registers with a cloud that has no key, executes a command and goes back to waiting.\<close>

definition demo_registration :: "RegisterDeviceRequest \<Rightarrow> rpc_code + RegisterDeviceResponse" where
  "demo_registration req = Inr \<lparr>rdx_DeviceId = ''dev'', rdx_CloudPublicKey = None\<rparr>"

theorem device_obeys_its_cloud_witness:
  "\<exists>evs r. rail_runs (UNIV :: gotime edge_env set) demo_client r
    \<and> (demo_edge_env, [DoAck ''cmd''] @ DoExecute demo_command # [DoSubmit evs]) \<in> set (ra_passes r)
    \<and> (\<forall>ev \<in> set evs. sealed demo_edge_env demo_client ev)"
proof -
  have reg: "Register demo_registration ''mac'' ''darwin'' [] demo_client = (Inr ''dev'', demo_client)"
    by (simp add: Register_def demo_registration_def demo_client_def)
  obtain evs report where s: "SyncOnce demo_edge_env demo_client (Inr (demo_sync 1)) = Some (report, None,
      [DoAck ''cmd''] @ DoExecute demo_command # [DoSubmit evs])"
    using demo_pass unfolding append.simps by blast
  let ?r = "Follow_start\<lparr>ra_follow := after_pass report None False,
    ra_passes := [(demo_edge_env, [DoAck ''cmd''] @ DoExecute demo_command # [DoSubmit evs])]\<rparr>"
  have "ra_follow (Follow_start :: gotime rail) = Passing" by (simp add: Follow_start_def)
  from rail_runs.stepped [OF rail_runs.start rail_step.pass [OF this UNIV_I s]]
  have run: "rail_runs (UNIV :: gotime edge_env set) demo_client ?r" by (simp add: Follow_start_def)
  have l: "(demo_edge_env, [DoAck ''cmd''] @ DoExecute demo_command # [DoSubmit evs]) \<in> set (ra_passes ?r)" by simp
  have "DoSubmit evs \<in> set ([DoAck ''cmd''] @ DoExecute demo_command # [DoSubmit evs])" by simp
  then have "\<forall>ev \<in> set evs. sealed demo_edge_env demo_client ev"
    using device_obeys_its_cloud [OF reg run] l by blast
  then show ?thesis using run l by blast
qed

end
