(* ===== verification/PairCode.thy ===== *)
theory PairCode
  imports Pairing GoURL
begin

text \<open>
  The QR code of \<^verbatim>\<open>src/pairing/pairing.go\<close>: what it carries, the URL the host prints and the parser of
  the test client. The one property says that the two are inverse on exactly the codes the parser
  can answer.
\<close>

record QR =
  qr_HostID :: string
  qr_TrustDomainID :: string
  qr_HostName :: string
  qr_SPKIPin :: string
  qr_Secret :: string
  qr_Port :: int
  qr_Addrs :: "string list"

text \<open>The query of the URL.\<close>

definition QR_values :: "QR \<Rightarrow> url_values" where
  "QR_values q =
    (let v = Values_Set ''v'' ''1'' [];
         v = Values_Set ''hid'' (qr_HostID q) v;
         v = (if qr_TrustDomainID q \<noteq> [] then Values_Set ''td'' (qr_TrustDomainID q) v else v);
         v = (if qr_HostName q \<noteq> [] then Values_Set ''n'' (qr_HostName q) v else v);
         v = Values_Set ''spki'' (qr_SPKIPin q) v;
         v = Values_Set ''s'' (qr_Secret q) v;
         v = Values_Set ''p'' (FormatInt (qr_Port q)) v
     in if length (qr_Addrs q) > 0 then Values_Set ''a'' (Join (CHR '','') (qr_Addrs q)) v else v)"

definition QR_URL :: "QR \<Rightarrow> string" where
  "QR_URL q = ''rook-link://pair?'' @ Values_Encode (QR_values q)"

text \<open>A URL that does not parse and one that is not ours are one error here.\<close>

datatype qr_error = NotPairURL | UnknownVersion string | BadPort string | MissingFields

definition ParseURL :: "string \<Rightarrow> qr_error + QR" where
  "ParseURL s =
    (case url_query ''rook-link'' ''pair'' s of
       None \<Rightarrow> Inl NotPairURL
     | Some raw \<Rightarrow>
         (let v = (\<lambda>k. Values_Get k (Query raw)) in
          if v ''v'' \<noteq> ''1'' then Inl (UnknownVersion (v ''v''))
          else case Atoi (v ''p'') of
            None \<Rightarrow> Inl (BadPort (v ''p''))
          | Some port \<Rightarrow>
              (if port \<le> 0 \<or> port > 65535 then Inl (BadPort (v ''p''))
               else let q = \<lparr>qr_HostID = v ''hid'', qr_TrustDomainID = v ''td'', qr_HostName = v ''n'',
                      qr_SPKIPin = v ''spki'', qr_Secret = v ''s'', qr_Port = port,
                      qr_Addrs = (if v ''a'' \<noteq> [] then Split (CHR '','') (v ''a'') else [])\<rparr>
                    in if qr_HostID q = [] \<or> qr_SPKIPin q = [] \<or> qr_Secret q = [] then Inl MissingFields
                       else Inr q)))"

section \<open>Lemmas\<close>

lemma url_query_pair:
  assumes "\<And>c. c \<in> set raw \<Longrightarrow> query_byte c \<or> c = CHR ''='' \<or> c = CHR ''&''"
  shows "url_query ''rook-link'' ''pair'' (''rook-link://pair?'' @ raw) = Some raw"
proof -
  have plain: "CHR ''#'' \<notin> set raw"
    using assms [of "CHR ''#''"] not_query_byte(4) by auto
  have "\<not> control_byte c" if "c \<in> set raw" for c
    using assms [OF that] not_query_byte(6) [of c] by (auto simp: control_byte_def)
  then have "\<not> list_ex control_byte (''rook-link://pair?'' @ raw)"
    by (auto simp: list_ex_iff control_byte_def)
  moreover have "Cut (CHR ''#'') (''rook-link://pair?'' @ raw) = (''rook-link://pair?'' @ raw, [])"
    using plain by (intro Cut_plain) simp
  moreover have "getScheme (''rook-link://pair?'' @ raw) = Some (''rook-link'', ''//pair?'' @ raw)"
    by (simp add: getScheme_def is_letter_def)
  moreover have "Cut (CHR ''?'') (''//pair?'' @ raw) = (''//pair'', raw)"
    by (simp add: Cut_def)
  ultimately show ?thesis
    by (simp only: url_query_def Let_def prod.case option.case)
      (simp add: to_lower_def)
qed

lemma QR_values_nonempty: "QR_values q \<noteq> []"
  by (simp add: QR_values_def Values_Set_def Let_def)

lemma QR_values_at:
  "map_of (QR_values q) ''v'' = Some ''1''"
  "map_of (QR_values q) ''hid'' = Some (qr_HostID q)"
  "map_of (QR_values q) ''td'' = (if qr_TrustDomainID q = [] then None else Some (qr_TrustDomainID q))"
  "map_of (QR_values q) ''n'' = (if qr_HostName q = [] then None else Some (qr_HostName q))"
  "map_of (QR_values q) ''spki'' = Some (qr_SPKIPin q)"
  "map_of (QR_values q) ''s'' = Some (qr_Secret q)"
  "map_of (QR_values q) ''p'' = Some (FormatInt (qr_Port q))"
  "map_of (QR_values q) ''a'' = (if qr_Addrs q = [] then None else Some (Join (CHR '','') (qr_Addrs q)))"
  by (simp_all add: QR_values_def Values_Set_def Let_def)

text \<open>The codes the parser can answer.\<close>

definition qr_ok :: "QR \<Rightarrow> bool" where
  "qr_ok q \<longleftrightarrow> qr_HostID q \<noteq> [] \<and> qr_SPKIPin q \<noteq> [] \<and> qr_Secret q \<noteq> []
     \<and> 0 < qr_Port q \<and> qr_Port q \<le> 65535
     \<and> list_all (\<lambda>a. CHR '','' \<notin> set a) (qr_Addrs q) \<and> qr_Addrs q \<noteq> [[]]"

lemma Join_empty: "Join sep ws = [] \<longleftrightarrow> ws = [] \<or> ws = [[]]"
  by (induction sep ws rule: Join.induct) auto

lemma ParseURL_URL:
  assumes "qr_ok q"
  shows "ParseURL (QR_URL q) = Inr q"
proof -
  have raw: "url_query ''rook-link'' ''pair'' (QR_URL q) = Some (Values_Encode (QR_values q))"
    unfolding QR_URL_def by (rule url_query_pair) (rule Encode_bytes)
  let ?v = "\<lambda>k. Values_Get k (Query (Values_Encode (QR_values q)))"
  have get: "?v ''v'' = ''1''" "?v ''hid'' = qr_HostID q" "?v ''td'' = qr_TrustDomainID q"
    "?v ''n'' = qr_HostName q" "?v ''spki'' = qr_SPKIPin q" "?v ''s'' = qr_Secret q"
    "?v ''p'' = FormatInt (qr_Port q)"
    "?v ''a'' = (if qr_Addrs q = [] then [] else Join (CHR '','') (qr_Addrs q))"
    by (simp_all add: Values_Get_Encode [OF QR_values_nonempty] QR_values_at)
  have port: "Atoi (FormatInt (qr_Port q)) = Some (qr_Port q)"
    using assms by (intro Atoi_FormatInt) (simp_all add: qr_ok_def)
  have addrs: "(if ?v ''a'' \<noteq> [] then Split (CHR '','') (?v ''a'') else []) = qr_Addrs q"
    using assms unfolding get by (auto simp: qr_ok_def Join_empty list_all_iff intro!: Split_Join)
  show ?thesis
    using assms unfolding ParseURL_def raw option.case Let_def addrs
    by (simp add: get(1-7) port qr_ok_def)
qed

lemma ParseURL_ok: "ParseURL s = Inr q \<Longrightarrow> qr_ok q"
proof -
  assume p: "ParseURL s = Inr q"
  then obtain raw port where "Atoi (Values_Get ''p'' (Query raw)) = Some port"
    and q: "q = \<lparr>qr_HostID = Values_Get ''hid'' (Query raw), qr_TrustDomainID = Values_Get ''td'' (Query raw),
        qr_HostName = Values_Get ''n'' (Query raw), qr_SPKIPin = Values_Get ''spki'' (Query raw),
        qr_Secret = Values_Get ''s'' (Query raw), qr_Port = port,
        qr_Addrs = (if Values_Get ''a'' (Query raw) \<noteq> [] then Split (CHR '','') (Values_Get ''a'' (Query raw)) else [])\<rparr>"
    and "0 < port" "port \<le> 65535" "qr_HostID q \<noteq> []" "qr_SPKIPin q \<noteq> []" "qr_Secret q \<noteq> []"
    by (auto simp: ParseURL_def Let_def split: option.splits if_split_asm)
  moreover have "Split (CHR '','') w \<noteq> [[]]" if "w \<noteq> []" for w
    using that Join_Split [of "CHR '',''" w] by (auto simp del: Join_Split)
  ultimately show ?thesis
    by (auto simp: qr_ok_def list_all_iff dest: Split_no_sep)
qed

section \<open>Properties\<close>

text \<open>C29: The QR code says what the host meant. Parsing the URL of a code gives the code back, whatever
  bytes its names, pin and secret consist of, as long as the required fields are there, the port is
  one, and no address is empty on its own or holds a comma; and whatever the parser accepts is such
  a code.\<close>
theorem qr_code_roundtrip:
  "(qr_ok q \<longrightarrow> ParseURL (QR_URL q) = Inr q) \<and> (ParseURL s = Inr q' \<longrightarrow> qr_ok q' \<and> ParseURL (QR_URL q') = Inr q')"
  using ParseURL_URL ParseURL_ok by blast

theorem qr_code_roundtrip_witness:
  "ParseURL (QR_URL \<lparr>qr_HostID = ''rh-abc'', qr_TrustDomainID = [], qr_HostName = ''Nick & co'',
      qr_SPKIPin = ''a_b-c'', qr_Secret = ''s3cret'', qr_Port = 50123, qr_Addrs = [''192.168.1.5'', ''10.0.0.2'']\<rparr>)
   = Inr \<lparr>qr_HostID = ''rh-abc'', qr_TrustDomainID = [], qr_HostName = ''Nick & co'',
      qr_SPKIPin = ''a_b-c'', qr_Secret = ''s3cret'', qr_Port = 50123, qr_Addrs = [''192.168.1.5'', ''10.0.0.2'']\<rparr>"
  by (rule qr_code_roundtrip [THEN conjunct1, THEN mp]) (simp add: qr_ok_def)

end
