(* ===== verification/Transport.thy ===== *)
theory Transport
  imports GoURL Identity
begin

text \<open>
  \<^verbatim>\<open>src/transport/transport.go\<close>: the listener, the goroutine that serves and the callers of its
  methods, and the address hints. The socket and the TLS server are outside: whether \<^verbatim>\<open>net.Listen\<close>
  succeeds and with what port, and how \<^verbatim>\<open>ServeTLS\<close> and \<^verbatim>\<open>Shutdown\<close> end, are free. The channel \<^verbatim>\<open>done\<close> is its
  buffer, of capacity one, and whether it is closed.
\<close>

unbundle bit_operations_syntax

section \<open>The listener\<close>

datatype serve_error = ErrServerClosed | ServeFailed string

record http_server =
  hs_Certificates :: "tls_cert list"
  hs_MinVersion :: "16 word"
  hs_ReadHeaderTimeout :: gotime

definition VersionTLS13 :: "16 word" where
  "VersionTLS13 = 0x0304"

record Listener =
  li_srv :: http_server
  li_port :: int
  li_done :: "serve_error list"
  li_closed :: bool

definition Listen :: "string + int \<Rightarrow> Identity \<Rightarrow> string + Listener" where
  "Listen bound idn = (case bound of Inl e \<Rightarrow> Inl e
     | Inr port \<Rightarrow> Inr
        \<lparr>li_srv = \<lparr>hs_Certificates = [id_TLSCert idn], hs_MinVersion = VersionTLS13,
           hs_ReadHeaderTimeout = 10 * Second\<rparr>,
         li_port = port, li_done = [], li_closed = False\<rparr>)"

text \<open>The serving goroutine: in \<^verbatim>\<open>ServeTLS\<close>, before the send, before the close, over. \<open>None\<close>: it blocks.\<close>

datatype serve_pc = Serving | Reporting serve_error | Closing | ServeOver

definition serve_returns :: "serve_error \<Rightarrow> serve_pc" where
  "serve_returns err = (if err \<noteq> ErrServerClosed then Reporting err else Closing)"

fun serve_next :: "serve_pc \<Rightarrow> Listener \<Rightarrow> (serve_pc \<times> Listener) option" where
  "serve_next Serving l = None"
| "serve_next (Reporting err) l =
    (if length (li_done l) < 1 then Some (Closing, l\<lparr>li_done := li_done l @ [err]\<rparr>) else None)"
| "serve_next Closing l = Some (ServeOver, l\<lparr>li_closed := True\<rparr>)"
| "serve_next ServeOver l = None"

definition Port :: "Listener \<Rightarrow> int" where
  "Port l = li_port l"

text \<open>An empty channel answers nil, open (the default case) or closed (the zero error).\<close>

definition Err :: "Listener \<Rightarrow> serve_error option \<times> Listener" where
  "Err l = (case li_done l of [] \<Rightarrow> (None, l) | e # es \<Rightarrow> (Some e, l\<lparr>li_done := es\<rparr>))"

text \<open>The goroutine, and any number of callers of \<^verbatim>\<open>Err\<close> and \<^verbatim>\<open>Shutdown\<close>. Once \<^verbatim>\<open>Shutdown\<close> has been called,
  \<^verbatim>\<open>ServeTLS\<close> answers \<^verbatim>\<open>ErrServerClosed\<close>. \<open>fd_answers\<close> collects what \<^verbatim>\<open>Err\<close> answered, oldest first.\<close>

record front_door =
  fd_listener :: Listener
  fd_pc :: serve_pc
  fd_shut :: bool
  fd_answers :: "serve_error option list"

definition open_door :: "Listener \<Rightarrow> front_door" where
  "open_door l = \<lparr>fd_listener = l, fd_pc = Serving, fd_shut = False, fd_answers = []\<rparr>"

inductive door_step :: "front_door \<Rightarrow> front_door \<Rightarrow> bool" where
  serve_ends: "fd_pc f = Serving \<Longrightarrow> (fd_shut f \<Longrightarrow> err = ErrServerClosed) \<Longrightarrow> door_step f (f\<lparr>fd_pc := serve_returns err\<rparr>)"
| serve_goes_on: "serve_next (fd_pc f) (fd_listener f) = Some (pc, l) \<Longrightarrow>
    door_step f (f\<lparr>fd_pc := pc, fd_listener := l\<rparr>)"
| asked: "Err (fd_listener f) = (e, l) \<Longrightarrow> door_step f (f\<lparr>fd_listener := l, fd_answers := fd_answers f @ [e]\<rparr>)"
| shut_down: "door_step f (f\<lparr>fd_shut := True\<rparr>)"

inductive door_runs :: "front_door \<Rightarrow> front_door \<Rightarrow> bool" where
  door_still: "door_runs f f"
| door_more: "door_runs f g \<Longrightarrow> door_step g h \<Longrightarrow> door_runs f h"

section \<open>Address hints\<close>

text \<open>A \<^verbatim>\<open>net.IP\<close> is its bytes.\<close>

datatype net_addr = IPNet bytes | OtherAddr

definition To4 :: "bytes \<Rightarrow> bytes option" where
  "To4 ip =
    (if length ip = 4 then Some ip
     else if length ip = 16 \<and> list_all (\<lambda>c. c = CHR 0x00) (take 10 ip)
       \<and> ip ! 10 = CHR 0xFF \<and> ip ! 11 = CHR 0xFF then Some (drop 12 ip)
     else None)"

definition IsLoopback :: "bytes \<Rightarrow> bool" where
  "IsLoopback ip = (case To4 ip of
     Some v4 \<Rightarrow> v4 ! 0 = CHR 0x7F
   | None \<Rightarrow> ip = replicate 15 (CHR 0x00) @ [CHR 0x01])"

definition IsLinkLocalUnicast :: "bytes \<Rightarrow> bool" where
  "IsLinkLocalUnicast ip = (case To4 ip of
     Some v4 \<Rightarrow> v4 ! 0 = CHR 0xA9 \<and> v4 ! 1 = CHR 0xFE
   | None \<Rightarrow> length ip = 16 \<and> ip ! 0 = CHR 0xFE
       \<and> (of_char (ip ! 1) :: 8 word) AND 0xC0 = 0x80)"

text \<open>\<^verbatim>\<open>String\<close> of a four-byte address.\<close>

definition dotted :: "bytes \<Rightarrow> string" where
  "dotted v4 = Join (CHR ''.'') (map (\<lambda>c. dec_nat (of_char c)) v4)"

fun addr_hint :: "net_addr \<Rightarrow> string option" where
  "addr_hint OtherAddr = None"
| "addr_hint (IPNet ip) =
    (if IsLoopback ip \<or> IsLinkLocalUnicast ip then None else map_option dotted (To4 ip))"

text \<open>\<open>ifaces\<close> is the answer of \<^verbatim>\<open>net.InterfaceAddrs\<close>.\<close>

definition Addrs :: "net_addr list option \<Rightarrow> string list" where
  "Addrs ifaces = (case ifaces of None \<Rightarrow> [] | Some as \<Rightarrow> List.map_filter addr_hint as)"

section \<open>Lemmas\<close>

lemma dec_nat_no: "\<not> is_digit c \<Longrightarrow> c \<notin> set (dec_nat n)"
  using dec_nat_digits [of n] by (auto simp: list_all_iff)

lemma Join_no: "c \<noteq> sep \<Longrightarrow> (\<And>w. w \<in> set ws \<Longrightarrow> c \<notin> set w) \<Longrightarrow> c \<notin> set (Join sep ws)"
  by (induction sep ws rule: Join.induct) auto

lemma To4_length: "To4 ip = Some v4 \<Longrightarrow> length v4 = 4"
  by (auto simp: To4_def split: if_splits)

lemma dotted_parts:
  assumes "length v4 = 4"
  shows "Split (CHR ''.'') (dotted v4) = map (\<lambda>c. dec_nat (of_char c)) v4"
    and "CHR '','' \<notin> set (dotted v4)" and "dotted v4 \<noteq> []"
proof -
  have d: "\<not> is_digit (CHR ''.'')" "\<not> is_digit (CHR '','')" by (simp_all add: is_digit_def)
  show s: "Split (CHR ''.'') (dotted v4) = map (\<lambda>c. dec_nat (of_char c)) v4"
    unfolding dotted_def using assms by (intro Split_Join) (auto simp: dec_nat_no [OF d(1)])
  show "CHR '','' \<notin> set (dotted v4)"
    unfolding dotted_def by (rule Join_no) (auto simp: dec_nat_no [OF d(2)])
  show "dotted v4 \<noteq> []"
  proof
    assume "dotted v4 = []"
    with s assms show False by (cases v4) auto
  qed
qed

lemma dotted_inject:
  assumes "length v = 4" and "length w = 4"
  shows "dotted v = dotted w \<longleftrightarrow> v = w"
proof
  assume "dotted v = dotted w"
  then have "map (\<lambda>c. dec_nat (of_char c)) v = map (\<lambda>c. dec_nat (of_char c)) w"
    using dotted_parts(1) assms by metis
  moreover have "inj (\<lambda>c :: char. dec_nat (of_char c))"
    by (rule injI) (metis dec_nat_digits of_char_eq_iff)
  ultimately show "v = w" by (metis map_injective)
qed simp

lemma addr_hint_Some:
  "addr_hint a = Some s \<longleftrightarrow> (\<exists>ip v4. a = IPNet ip \<and> To4 ip = Some v4 \<and> s = dotted v4
     \<and> v4 ! 0 \<noteq> CHR 0x7F \<and> \<not> (v4 ! 0 = CHR 0xA9 \<and> v4 ! 1 = CHR 0xFE))"
  by (cases a) (auto simp: IsLoopback_def IsLinkLocalUnicast_def split: option.splits)

lemma in_Addrs: "s \<in> set (Addrs ifaces) \<longleftrightarrow> (\<exists>as a. ifaces = Some as \<and> a \<in> set as \<and> addr_hint a = Some s)"
proof -
  have "s \<in> set (List.map_filter addr_hint as) \<longleftrightarrow> (\<exists>a\<in>set as. addr_hint a = Some s)" for as
    by (induction as) (auto split: option.splits)
  then show ?thesis by (auto simp: Addrs_def split: option.splits)
qed

lemma Addrs_fit_a_code:
  "list_all (\<lambda>a. CHR '','' \<notin> set a) (Addrs ifaces) \<and> [] \<notin> set (Addrs ifaces)"
proof -
  have "CHR '','' \<notin> set s \<and> s \<noteq> []" if s: "s \<in> set (Addrs ifaces)" for s
  proof -
    obtain ip v4 where "To4 ip = Some v4" "s = dotted v4"
      using s by (auto simp: in_Addrs addr_hint_Some)
    with dotted_parts(2,3) [OF To4_length] show ?thesis by simp
  qed
  then show ?thesis by (auto simp: list_all_iff)
qed

section \<open>Properties\<close>

text \<open>The address hints are the machine's IPv4 addresses that another machine could dial: a hint
  is the dotted form of an interface address with a four-byte form that is neither loopback nor
  link-local, and every such address is a hint; an address without a four-byte form never is.\<close>
theorem Addrs_are_dialable:
  "(\<forall>v4. length v4 = 4 \<longrightarrow> (dotted v4 \<in> set (Addrs (Some as)) \<longleftrightarrow>
      (\<exists>ip. IPNet ip \<in> set as \<and> To4 ip = Some v4 \<and> \<not> IsLoopback ip \<and> \<not> IsLinkLocalUnicast ip)))
   \<and> (\<forall>s\<in>set (Addrs (Some as)). \<exists>v4. length v4 = 4 \<and> s = dotted v4)
   \<and> ((\<forall>ip. IPNet ip \<in> set as \<longrightarrow> To4 ip = None) \<longrightarrow> Addrs (Some as) = []) \<and> Addrs None = []"
proof (intro conjI allI impI ballI)
  fix v4 :: bytes assume l: "length v4 = 4"
  show "dotted v4 \<in> set (Addrs (Some as)) \<longleftrightarrow>
      (\<exists>ip. IPNet ip \<in> set as \<and> To4 ip = Some v4 \<and> \<not> IsLoopback ip \<and> \<not> IsLinkLocalUnicast ip)"
  proof
    assume "dotted v4 \<in> set (Addrs (Some as))"
    then obtain a where a: "a \<in> set as" and h': "addr_hint a = Some (dotted v4)"
      unfolding in_Addrs by blast
    from h' obtain ip w where ip: "a = IPNet ip" "To4 ip = Some w" "dotted v4 = dotted w"
      unfolding addr_hint_Some by blast
    with a h' have "IPNet ip \<in> set as" and h: "addr_hint (IPNet ip) = Some (dotted v4)" by simp_all
    have "w = v4" using dotted_inject [OF l To4_length [OF ip(2)]] ip(3) by simp
    with ip(2) h \<open>IPNet ip \<in> set as\<close> show "\<exists>ip. IPNet ip \<in> set as \<and> To4 ip = Some v4 \<and> \<not> IsLoopback ip \<and> \<not> IsLinkLocalUnicast ip"
      by (auto split: if_splits)
  next
    assume "\<exists>ip. IPNet ip \<in> set as \<and> To4 ip = Some v4 \<and> \<not> IsLoopback ip \<and> \<not> IsLinkLocalUnicast ip"
    then obtain ip where "IPNet ip \<in> set as" "addr_hint (IPNet ip) = Some (dotted v4)" by auto
    then show "dotted v4 \<in> set (Addrs (Some as))" unfolding in_Addrs by blast
  qed
next
  fix s assume "s \<in> set (Addrs (Some as))"
  then show "\<exists>v4. length v4 = 4 \<and> s = dotted v4" by (auto simp: in_Addrs addr_hint_Some dest: To4_length)
next
  assume none: "\<forall>ip. IPNet ip \<in> set as \<longrightarrow> To4 ip = None"
  have "s \<notin> set (Addrs (Some as))" for s using none by (auto simp: in_Addrs addr_hint_Some)
  then show "Addrs (Some as) = []" by (metis list.set_intros(1) neq_Nil_conv)
qed (simp add: Addrs_def)

theorem Addrs_are_dialable_witness:
  "dotted [CHR 0xC0, CHR 0xA8, CHR 0x01, CHR 0x05]
     \<in> set (Addrs (Some [IPNet [CHR 0x7F, CHR 0x00, CHR 0x00, CHR 0x01],
         OtherAddr, IPNet [CHR 0xC0, CHR 0xA8, CHR 0x01, CHR 0x05]]))
   \<and> Addrs (Some [IPNet (replicate 15 (CHR 0x20) @ [CHR 0x01])]) = []"
proof -
  have "dotted [CHR 0xC0, CHR 0xA8, CHR 0x01, CHR 0x05]
     \<in> set (Addrs (Some [IPNet [CHR 0x7F, CHR 0x00, CHR 0x00, CHR 0x01],
         OtherAddr, IPNet [CHR 0xC0, CHR 0xA8, CHR 0x01, CHR 0x05]]))"
    by (rule Addrs_are_dialable [THEN conjunct1, rule_format, THEN iffD2])
      (auto simp: To4_def IsLoopback_def IsLinkLocalUnicast_def)
  moreover have "Addrs (Some [IPNet (replicate 15 (CHR 0x20) @ [CHR 0x01])]) = []"
    by (rule Addrs_are_dialable [THEN conjunct2, THEN conjunct2, THEN conjunct1, rule_format])
      (simp add: To4_def nth_append)
  ultimately show ?thesis by blast
qed

definition failures :: "serve_error option list \<Rightarrow> serve_error list" where
  "failures as = List.map_filter id as"

lemma failures_snoc: "failures (as @ [e]) = failures as @ (case e of None \<Rightarrow> [] | Some x \<Rightarrow> [x])"
  by (induction as) (simp_all add: failures_def split: option.split)

text \<open>What \<^verbatim>\<open>Err\<close> has answered and what it is still to answer: the failure, once it was sent.\<close>

definition told :: "front_door \<Rightarrow> serve_error list" where
  "told f = failures (fd_answers f) @ li_done (fd_listener f)"

fun door_told :: "serve_error option \<Rightarrow> front_door \<Rightarrow> bool" where
  "door_told None f \<longleftrightarrow> (case fd_pc f of Serving \<Rightarrow> told f = [] | Reporting err \<Rightarrow> False
     | Closing \<Rightarrow> told f = [] | ServeOver \<Rightarrow> told f = [])"
| "door_told (Some e) f \<longleftrightarrow> (case fd_pc f of Serving \<Rightarrow> False | Reporting err \<Rightarrow> err = e \<and> told f = []
     | Closing \<Rightarrow> told f = [e] | ServeOver \<Rightarrow> told f = [e])"

lemma told_asked: "Err (fd_listener f) = (e, l) \<Longrightarrow>
    told (f\<lparr>fd_listener := l, fd_answers := fd_answers f @ [e]\<rparr>) = told f"
  by (auto simp: told_def failures_snoc Err_def split: list.split_asm)

lemma door_told_step:
  assumes "door_step f g" and "fd_pc f \<noteq> Serving \<or> fd_pc g = Serving" and "door_told x f"
  shows "door_told x g"
  using assms(1)
proof (cases rule: door_step.cases)
  case (serve_ends err)
  then show ?thesis using assms(2) by (simp add: serve_returns_def split: if_split_asm)
next
  case (serve_goes_on pc l)
  then show ?thesis using assms(3)
    by (cases x; cases "fd_pc f") (auto simp: told_def split: if_split_asm)
next
  case (asked e l)
  then show ?thesis using assms(3) told_asked [OF asked(2)]
    by (cases x) (auto split: serve_pc.split)
next
  case shut_down
  then show ?thesis using assms(3) by (cases x) (auto simp: told_def split: serve_pc.split)
qed

lemma door_told_runs:
  "door_runs f g \<Longrightarrow> fd_pc f \<noteq> Serving \<Longrightarrow> door_told x f \<Longrightarrow> fd_pc g \<noteq> Serving \<and> door_told x g"
proof (induction rule: door_runs.induct)
  case (door_more f g h)
  then have g: "fd_pc g \<noteq> Serving" "door_told x g" by simp_all
  have "fd_pc h \<noteq> Serving" using door_more(2) g(1)
    by (cases rule: door_step.cases) (cases "fd_pc g"; auto split: if_split_asm)+
  then show ?case using door_told_step [OF door_more(2)] g by simp
qed simp

lemma door_step_inv:
  assumes "door_step f g" and "\<exists>x. door_told x f"
  shows "\<exists>x. door_told x g"
  using assms(1)
proof (cases rule: door_step.cases)
  case (serve_ends err)
  obtain x where "door_told x f" using assms(2) by blast
  then have t: "told f = []" using serve_ends(2) by (cases x) simp_all
  have "told (f\<lparr>fd_pc := pc\<rparr>) = told f" for pc by (simp add: told_def)
  then have "door_told (if err = ErrServerClosed then None else Some err) g"
    using serve_ends(1) t by (simp add: serve_returns_def)
  then show ?thesis by blast
next
  case (serve_goes_on pc l)
  then have "fd_pc f \<noteq> Serving" by auto
  then show ?thesis using door_told_step [OF assms(1)] assms(2) by blast
next
  case (asked e l)
  then have "fd_pc f \<noteq> Serving \<or> fd_pc g = Serving" by auto
  then show ?thesis using door_told_step [OF assms(1)] assms(2) by blast
next
  case shut_down
  then have "fd_pc f \<noteq> Serving \<or> fd_pc g = Serving" by auto
  then show ?thesis using door_told_step [OF assms(1)] assms(2) by blast
qed

lemma door_runs_inv: "door_runs f g \<Longrightarrow> \<exists>x. door_told x f \<Longrightarrow> \<exists>x. door_told x g"
  by (induction rule: door_runs.induct) (auto intro: door_step_inv)

lemma told_once: "door_told x f \<Longrightarrow> length (told f) \<le> 1 \<and> (\<forall>err. fd_pc f = Reporting err \<longrightarrow> told f = [])"
  by (cases x) (auto split: serve_pc.split_asm)

lemma door_step_frame:
  "door_step f g \<Longrightarrow> li_srv (fd_listener g) = li_srv (fd_listener f) \<and> li_port (fd_listener g) = li_port (fd_listener f)"
proof (induction rule: door_step.induct)
  case (serve_goes_on f pc l)
  then show ?case by (cases "fd_pc f") (auto split: if_split_asm)
qed (auto simp: Err_def split: list.split_asm)

lemma door_runs_frame:
  "door_runs f g \<Longrightarrow> li_srv (fd_listener g) = li_srv (fd_listener f) \<and> li_port (fd_listener g) = li_port (fd_listener f)"
  by (induction rule: door_runs.induct) (auto dest: door_step_frame)

text \<open>Shut down while it still served: no failure will be told.\<close>

lemma orderly_runs:
  "door_runs f g \<Longrightarrow> fd_shut f \<Longrightarrow> door_told None f \<Longrightarrow> fd_shut g \<and> door_told None g"
proof (induction rule: door_runs.induct)
  case (door_more f g h)
  then have g: "fd_shut g" "door_told None g" by simp_all
  show ?case
  proof (cases "fd_pc g \<noteq> Serving \<or> fd_pc h = Serving")
    case True
    have "fd_shut h" using door_more(2) g(1) by (cases rule: door_step.cases) simp_all
    then show ?thesis using door_told_step [OF door_more(2) True g(2)] by simp
  next
    case False
    from door_more(2) show ?thesis
    proof (cases rule: door_step.cases)
      case (serve_ends err)
      then show ?thesis using g by (simp add: serve_returns_def told_def)
    qed (use False in auto)
  qed
qed simp

text \<open>C38: The front door shows the identity's certificate and tells a failure once. However the serving
  goroutine, the callers of \<^verbatim>\<open>Err\<close> and \<^verbatim>\<open>Shutdown\<close> interleave, the listener keeps the bound port and
  serves TLS 1.3 with exactly the identity's certificate; the goroutine never blocks on its channel; a
  failure is told to at most one caller, and when the server has failed and the goroutine is over, it
  has been told or the next caller is told; and after a \<^verbatim>\<open>Shutdown\<close> that found the server serving, nobody is
  ever told one.\<close>
theorem failure_told_once:
  assumes "Listen bound idn = Inr l" and "door_runs (open_door l) f"
  shows "bound = Inr (Port (fd_listener f))
    \<and> hs_Certificates (li_srv (fd_listener f)) = [id_TLSCert idn] \<and> hs_MinVersion (li_srv (fd_listener f)) = VersionTLS13
    \<and> length (failures (fd_answers f)) \<le> 1
    \<and> (fd_pc f \<noteq> Serving \<and> fd_pc f \<noteq> ServeOver \<longrightarrow> serve_next (fd_pc f) (fd_listener f) \<noteq> None)
    \<and> (\<forall>e g. fd_pc f = Reporting e \<and> door_runs f g \<and> fd_pc g = ServeOver \<longrightarrow>
        failures (fd_answers g) = [e] \<or> failures (fd_answers g) = [] \<and> fst (Err (fd_listener g)) = Some e)
    \<and> (fd_pc f = Serving \<and> fd_shut f \<longrightarrow> (\<forall>g. door_runs f g \<longrightarrow> failures (fd_answers g) = []))"
proof -
  have "told (open_door l) = []"
    using assms(1) by (auto simp: told_def failures_def open_door_def Listen_def split: sum.split_asm)
  then have "door_told None (open_door l)" by (simp add: open_door_def)
  then obtain x where x: "door_told x f" using door_runs_inv [OF assms(2)] by blast
  note once = told_once [OF x]
  have "serve_next (fd_pc f) (fd_listener f) \<noteq> None" if "fd_pc f \<noteq> Serving" "fd_pc f \<noteq> ServeOver"
    using that once by (cases "fd_pc f") (auto simp: told_def)
  moreover have "failures (fd_answers g) = [e] \<or> failures (fd_answers g) = [] \<and> fst (Err (fd_listener g)) = Some e"
    if g: "fd_pc f = Reporting e" "door_runs f g" "fd_pc g = ServeOver" for e g
  proof -
    have "x = Some e" using x g(1) by (cases x) simp_all
    then have "told g = [e]" using door_told_runs [OF g(2) _ x] g(1,3) by simp
    then show ?thesis by (cases "failures (fd_answers g)") (auto simp: told_def Err_def)
  qed
  moreover have "failures (fd_answers g) = []" if g: "fd_pc f = Serving" "fd_shut f" "door_runs f g" for g
  proof -
    have "door_told None f" using x g(1) by (cases x) simp_all
    then have "door_told None g" using orderly_runs [OF g(3,2)] by blast
    then have "told g = []" by (auto split: serve_pc.split_asm)
    then show ?thesis by (simp add: told_def)
  qed
  ultimately show ?thesis
    using assms(1) door_runs_frame [OF assms(2)] once
    by (auto simp: Listen_def open_door_def Port_def told_def split: sum.split_asm)
qed

text \<open>The server fails, and two callers ask: the second is told that all is well.\<close>

theorem failure_told_once_witness:
  "\<exists>l f. Listen (Inr 4433) demo_identity = Inr l \<and> door_runs (open_door l) f
    \<and> fd_answers f = [Some (ServeFailed ''accept''), None] \<and> fd_pc f = ServeOver \<and> length (failures (fd_answers f)) \<le> 1"
proof -
  obtain l where l: "Listen (Inr 4433) demo_identity = Inr l" by (simp add: Listen_def)
  then have d: "li_done l = []" by (auto simp: Listen_def)
  let ?e = "ServeFailed ''accept''" and ?f = "open_door l"
  let ?l1 = "l\<lparr>li_done := [?e]\<rparr>" and ?l2 = "l\<lparr>li_done := [?e], li_closed := True\<rparr>"
  let ?l3 = "l\<lparr>li_done := [], li_closed := True\<rparr>"
  note go = door_runs.door_more
  have "door_runs ?f (?f\<lparr>fd_pc := Reporting ?e\<rparr>)"
    using go [OF door_still door_step.serve_ends, of ?f ?e] by (simp add: open_door_def serve_returns_def)
  from go [OF this door_step.serve_goes_on, of Closing ?l1]
  have "door_runs ?f (?f\<lparr>fd_pc := Closing, fd_listener := ?l1\<rparr>)" using d by (simp add: open_door_def)
  from go [OF this door_step.serve_goes_on, of ServeOver ?l2]
  have "door_runs ?f (?f\<lparr>fd_pc := ServeOver, fd_listener := ?l2\<rparr>)" by (simp add: open_door_def)
  from go [OF this door_step.asked, of "Some ?e" ?l3]
  have "door_runs ?f (?f\<lparr>fd_pc := ServeOver, fd_listener := ?l3, fd_answers := [Some ?e]\<rparr>)"
    by (simp add: open_door_def Err_def)
  from go [OF this door_step.asked, of None ?l3]
  have r: "door_runs ?f (?f\<lparr>fd_pc := ServeOver, fd_listener := ?l3, fd_answers := [Some ?e, None]\<rparr>)"
    by (simp add: open_door_def Err_def)
  from failure_told_once [OF l r] have "length (failures [Some ?e, None]) \<le> 1" by simp
  then show ?thesis using l r by (intro exI [of _ l] exI conjI) (assumption | simp)+
qed

end
