(* ===== verification/Bonjour.thy ===== *)
theory Bonjour
  imports GoText
begin

text \<open>
  \<^verbatim>\<open>src/bonjour/\<close>: the routing hint a host advertises, its DNS TXT wire form, the two builds'
  \<^verbatim>\<open>Advertise\<close> up to the call into the responder, whose answer is an argument, and how an advertisement ends.
\<close>

unbundle bit_operations_syntax

definition ServiceType :: string where
  "ServiceType = ''_rook-link._tcp.''"

record Info =
  in_Name :: string
  in_Port :: int
  in_HostID :: string
  in_TrustDomainID :: string
  in_ProtocolVersion :: string

definition info_txt :: "Info \<Rightarrow> (string, string) gomap" where
  "info_txt i = [(''v'', ''1''), (''hid'', in_HostID i), (''td'', in_TrustDomainID i),
     (''pv'', in_ProtocolVersion i)]"

text \<open>A missing key reads as the empty string; \<open>Inl\<close> carries the key of the entry that is too long.\<close>

definition txt_entry :: "(string, string) gomap \<Rightarrow> string \<Rightarrow> string" where
  "txt_entry kv k = k @ ''='' @ (case map_of kv k of None \<Rightarrow> [] | Some v \<Rightarrow> v)"

fun txt_entries :: "(string, string) gomap \<Rightarrow> string list \<Rightarrow> bytes \<Rightarrow> string + bytes" where
  "txt_entries kv [] out = Inr out"
| "txt_entries kv (k # ks) out =
    (if length (txt_entry kv k) > 255 then Inl k
     else txt_entries kv ks (out @ [char_of (length (txt_entry kv k))] @ txt_entry kv k))"

definition txtRecord :: "(string, string) gomap \<Rightarrow> string + bytes" where
  "txtRecord kv = txt_entries kv [''v'', ''hid'', ''td'', ''pv''] []"

text \<open>The port in network byte order, as the expression in the darwin build computes it.\<close>

definition port_nbo :: "int \<Rightarrow> 16 word" where
  "port_nbo p = word_of_int (push_bit 8 (p AND 0xff) OR (drop_bit 8 p AND 0xff))"

record dns_registration =
  dr_name :: string
  dr_type :: string
  dr_port :: "16 word"
  dr_txtLen :: "16 word"
  dr_txt :: bytes

datatype bonjour_error = TxtTooLong string | RegisterFailed int | ResponderFailed

text \<open>\<open>register\<close> answers the code of \<^verbatim>\<open>DNSServiceRegister\<close>.\<close>

definition Advertise_darwin ::
    "(dns_registration \<Rightarrow> int) \<Rightarrow> Info \<Rightarrow> bonjour_error + dns_registration" where
  "Advertise_darwin register info =
    (case txtRecord (info_txt info) of
       Inl k \<Rightarrow> Inl (TxtTooLong k)
     | Inr txt \<Rightarrow>
         (let req = \<lparr>dr_name = in_Name info, dr_type = ''_rook-link._tcp'', dr_port = port_nbo (in_Port info),
                dr_txtLen = word_of_nat (length txt), dr_txt = txt\<rparr>;
              rc = register req
          in if rc \<noteq> 0 then Inl (RegisterFailed rc) else Inr req))"

record dnssd_config =
  dc_Name :: string
  dc_Type :: string
  dc_Text :: "(string, string) gomap"
  dc_Port :: int

text \<open>The three calls into \<^verbatim>\<open>dnssd\<close> that may fail: the service, the responder, adding the one to the other.\<close>

definition Advertise_other ::
    "(dnssd_config \<Rightarrow> bool) \<Rightarrow> bool \<Rightarrow> bool \<Rightarrow> Info \<Rightarrow> bonjour_error + dnssd_config" where
  "Advertise_other service_ok responder_ok add_ok info =
    (let cfg = \<lparr>dc_Name = in_Name info, dc_Type = ServiceType, dc_Text = info_txt info,
           dc_Port = in_Port info\<rparr>
     in if \<not> service_ok cfg then Inl ResponderFailed
        else if \<not> responder_ok then Inl ResponderFailed
        else if \<not> add_ok then Inl ResponderFailed
        else Inr cfg)"

section \<open>How an advertisement ends\<close>

text \<open>The pure-Go build: the goroutine that answers until \<^verbatim>\<open>Respond\<close> returns, which it does when the context
  ends and may do before with an error, and any number of callers of \<^verbatim>\<open>Stop\<close>. \<open>av_done\<close> counts how often the
  channel \<^verbatim>\<open>done\<close> was closed; a second close would panic.\<close>

datatype respond_pc = Responding | Responded | RespondOver

datatype stop_pc = Cancelling | AwaitingDone | Stopped

record advertiser =
  av_over :: bool
  av_pc :: respond_pc
  av_done :: nat
  av_stops :: "stop_pc list"

definition fresh_advertiser :: advertiser where
  "fresh_advertiser = \<lparr>av_over = False, av_pc = Responding, av_done = 0, av_stops = []\<rparr>"

inductive advert_step :: "advertiser \<Rightarrow> advertiser \<Rightarrow> bool" where
  parent_ends: "advert_step a (a\<lparr>av_over := True\<rparr>)"
| respond_returns: "av_pc a = Responding \<Longrightarrow> advert_step a (a\<lparr>av_pc := Responded\<rparr>)"
| closes_done: "av_pc a = Responded \<Longrightarrow> advert_step a (a\<lparr>av_pc := RespondOver, av_done := Suc (av_done a)\<rparr>)"
| stop_called: "advert_step a (a\<lparr>av_stops := av_stops a @ [Cancelling]\<rparr>)"
| cancels: "k < length (av_stops a) \<Longrightarrow> av_stops a ! k = Cancelling \<Longrightarrow>
    advert_step a (a\<lparr>av_over := True, av_stops := (av_stops a)[k := AwaitingDone]\<rparr>)"
| stop_returns: "k < length (av_stops a) \<Longrightarrow> av_stops a ! k = AwaitingDone \<Longrightarrow> 0 < av_done a \<Longrightarrow>
    advert_step a (a\<lparr>av_stops := (av_stops a)[k := Stopped]\<rparr>)"

inductive advert_runs :: "advertiser \<Rightarrow> advertiser \<Rightarrow> bool" where
  advert_still: "advert_runs a a"
| advert_more: "advert_runs a b \<Longrightarrow> advert_step b c \<Longrightarrow> advert_runs a c"

text \<open>The darwin build: \<^verbatim>\<open>Stop\<close> cancels and does not wait; the goroutine then deallocates the reference.\<close>

record registration =
  rg_over :: bool
  rg_waiting :: bool
  rg_deallocated :: nat

definition fresh_registration :: registration where
  "fresh_registration = \<lparr>rg_over = False, rg_waiting = True, rg_deallocated = 0\<rparr>"

definition Stop_darwin :: "registration \<Rightarrow> registration" where
  "Stop_darwin g = g\<lparr>rg_over := True\<rparr>"

inductive registration_step :: "registration \<Rightarrow> registration \<Rightarrow> bool" where
  parent_over: "registration_step g (g\<lparr>rg_over := True\<rparr>)"
| stops: "registration_step g (Stop_darwin g)"
| deallocates: "rg_waiting g \<Longrightarrow> rg_over g \<Longrightarrow>
    registration_step g (g\<lparr>rg_waiting := False, rg_deallocated := Suc (rg_deallocated g)\<rparr>)"

inductive registration_runs :: "registration \<Rightarrow> registration \<Rightarrow> bool" where
  registration_still: "registration_runs g g"
| registration_more: "registration_runs g h \<Longrightarrow> registration_step h k \<Longrightarrow> registration_runs g k"

section \<open>Lemmas\<close>

text \<open>How a DNS client reads a TXT record: a length byte, then that many bytes, to the end.\<close>

fun read_txt :: "nat \<Rightarrow> bytes \<Rightarrow> string list option" where
  "read_txt fuel [] = Some []"
| "read_txt 0 (n # bs) = None"
| "read_txt (Suc fuel) (n # bs) =
    (if of_char n \<le> length bs
     then map_option ((#) (take (of_char n) bs)) (read_txt fuel (drop (of_char n) bs)) else None)"

definition wire_entry :: "string \<Rightarrow> bytes" where
  "wire_entry e = char_of (length e) # e"

lemma read_txt_wire:
  "list_all (\<lambda>e. length e \<le> 255) es \<Longrightarrow> length es \<le> fuel \<Longrightarrow>
   read_txt fuel (concat (map wire_entry es)) = Some es"
proof (induction es arbitrary: fuel)
  case (Cons e es)
  then obtain f where "fuel = Suc f" by (cases fuel) auto
  with Cons show ?case by (simp add: wire_entry_def)
qed simp

lemma txt_entries_eq:
  "txt_entries kv ks out =
    (case find (\<lambda>k. length (txt_entry kv k) > 255) ks of
       Some k \<Rightarrow> Inl k
     | None \<Rightarrow> Inr (out @ concat (map (\<lambda>k. wire_entry (txt_entry kv k)) ks)))"
  by (induction ks arbitrary: out) (simp_all add: wire_entry_def split: option.splits)

lemma txtRecord_Inr:
  "txtRecord kv = Inr out \<longleftrightarrow> (\<forall>k\<in>{''v'', ''hid'', ''td'', ''pv''}. length (txt_entry kv k) \<le> 255)
   \<and> out = concat (map (\<lambda>k. wire_entry (txt_entry kv k)) [''v'', ''hid'', ''td'', ''pv''])"
  unfolding txtRecord_def txt_entries_eq by (auto simp: find_None_iff split: option.splits)

lemma port_nbo_swaps:
  "0 \<le> p \<Longrightarrow> p \<le> 65535 \<Longrightarrow> uint (port_nbo p) = p mod 256 * 256 + p div 256"
proof -
  assume p: "0 \<le> p" "p \<le> 65535"
  have and255: "x AND 255 = x mod 256" for x :: int
  proof -
    have "x AND mask 8 = x mod 2 ^ 8" by (simp flip: take_bit_eq_mask add: take_bit_eq_mod)
    then show ?thesis by (simp add: mask_eq_exp_minus_1)
  qed
  have lo: "p AND 0xff = p mod 256" by (rule and255)
  have "drop_bit 8 p AND 0xff = p div 256 mod 256"
    unfolding and255 by (simp add: drop_bit_eq_div)
  then have hi: "drop_bit 8 p AND 0xff = p div 256" using p by simp
  have "push_bit 8 (p mod 256) OR (p div 256) = push_bit 8 (p mod 256) + (p div 256)"
  proof (rule disjunctive_add [symmetric])
    fix n show "\<not> bit (push_bit 8 (p mod 256)) n \<or> \<not> bit (p div 256) n"
    proof (cases "n < 8")
      case False
      have "p div 256 < 2 ^ 8" using p by simp
      then have "take_bit 8 (p div 256) = p div 256" using p by (simp add: take_bit_int_eq_self)
      then show ?thesis using False by (metis bit_take_bit_iff)
    qed (simp add: bit_push_bit_iff)
  qed
  then have "port_nbo p = word_of_int (p mod 256 * 256 + p div 256)"
    unfolding port_nbo_def lo hi by (simp add: push_bit_eq_mult)
  moreover have "p mod 256 * 256 + p div 256 < 2 ^ 16"
    using p by simp
  moreover have "0 \<le> p mod 256 * 256 + p div 256" using p by simp
  ultimately show ?thesis by (simp only: uint_word_of_int) simp
qed

definition advert_inv :: "advertiser \<Rightarrow> bool" where
  "advert_inv a \<longleftrightarrow> av_done a = (if av_pc a = RespondOver then 1 else 0)
     \<and> (AwaitingDone \<in> set (av_stops a) \<longrightarrow> av_over a)
     \<and> (Stopped \<in> set (av_stops a) \<longrightarrow> av_over a \<and> av_done a = 1)"

lemma advert_inv_step: "advert_step a b \<Longrightarrow> advert_inv a \<Longrightarrow> advert_inv b"
  by (induction rule: advert_step.induct)
    (auto simp: advert_inv_def dest!: set_update_subset_insert [THEN subsetD] dest: nth_mem split: if_split_asm)

lemma advert_inv_runs: "advert_runs a b \<Longrightarrow> advert_inv a \<Longrightarrow> advert_inv b"
  by (induction rule: advert_runs.induct) (auto intro: advert_inv_step)

lemma advert_runs_trans: "advert_runs b c \<Longrightarrow> advert_runs a b \<Longrightarrow> advert_runs a c"
  by (induction rule: advert_runs.induct) (auto intro: advert_runs.advert_more)

text \<open>One more call of \<^verbatim>\<open>Stop\<close> comes back, the responder having ended.\<close>

lemma one_stop_returns:
  assumes "av_done a \<noteq> 0" and "k < length (av_stops a)"
  shows "\<exists>over. advert_runs a (a\<lparr>av_over := over, av_stops := (av_stops a)[k := Stopped]\<rparr>)"
proof -
  have let_go: "advert_runs b (b\<lparr>av_stops := (av_stops b)[k := Stopped]\<rparr>)"
    if "k < length (av_stops b)" "av_stops b ! k = AwaitingDone" "av_done b \<noteq> 0" for b
    using advert_more [OF advert_still stop_returns [OF that(1,2)]] that(3) by simp
  show ?thesis
  proof (cases "av_stops a ! k")
    case Cancelling
    let ?b = "a\<lparr>av_over := True, av_stops := (av_stops a)[k := AwaitingDone]\<rparr>"
    have "advert_runs a ?b" by (rule advert_more [OF advert_still cancels [OF assms(2) Cancelling]])
    from advert_runs_trans [OF let_go [of ?b] this] show ?thesis
      using assms by (intro exI [of _ True]) simp
  next
    case AwaitingDone
    from let_go [OF assms(2) this assms(1)] show ?thesis by (intro exI [of _ "av_over a"]) simp
  next
    case Stopped
    then have "a\<lparr>av_over := av_over a, av_stops := (av_stops a)[k := Stopped]\<rparr> = a"
      using assms(2) list_update_id [of "av_stops a" k] by simp
    then show ?thesis using advert_still [of a] by metis
  qed
qed

lemma stops_return:
  assumes "av_done a \<noteq> 0" and "n \<le> length (av_stops a)"
  shows "\<exists>b. advert_runs a b \<and> av_done b = av_done a \<and> av_pc b = av_pc a
    \<and> length (av_stops b) = length (av_stops a) \<and> (\<forall>k < n. av_stops b ! k = Stopped)"
  using assms(2)
proof (induction n)
  case 0
  show ?case by (intro exI [of _ a]) (simp add: advert_still)
next
  case (Suc n)
  then obtain b where b: "advert_runs a b" "av_done b = av_done a" "av_pc b = av_pc a"
    "length (av_stops b) = length (av_stops a)" "\<forall>k < n. av_stops b ! k = Stopped" by auto
  obtain over where "advert_runs b (b\<lparr>av_over := over, av_stops := (av_stops b)[n := Stopped]\<rparr>)"
    using one_stop_returns [of b n] b(2,4) assms(1) Suc.prems by auto
  from advert_runs_trans [OF this b(1)] show ?case
    using b Suc.prems by (intro exI conjI) (assumption | auto simp: nth_list_update less_Suc_eq)+
qed

lemma responder_ends: "\<exists>b. advert_runs a b \<and> av_stops b = av_stops a \<and> av_pc b = RespondOver"
proof -
  have over: "\<exists>b. advert_runs b' b \<and> av_stops b = av_stops b' \<and> av_pc b = RespondOver" if "av_pc b' = Responded" for b'
    by (rule exI, rule conjI, rule advert_more [OF advert_still closes_done [OF that]]) simp
  show ?thesis
  proof (cases "av_pc a")
    case Responding
    have "advert_runs a (a\<lparr>av_pc := Responded\<rparr>)"
      by (rule advert_more [OF advert_still respond_returns [OF Responding]])
    with over [of "a\<lparr>av_pc := Responded\<rparr>"] show ?thesis by (auto intro: advert_runs_trans)
  next
    case Responded
    then show ?thesis by (rule over)
  next
    case RespondOver
    then show ?thesis using advert_still by blast
  qed
qed

lemma registration_inv:
  "registration_runs g h \<Longrightarrow> rg_deallocated g = (if rg_waiting g then 0 else 1) \<and> (\<not> rg_waiting g \<longrightarrow> rg_over g) \<Longrightarrow>
   rg_deallocated h = (if rg_waiting h then 0 else 1) \<and> (\<not> rg_waiting h \<longrightarrow> rg_over h)"
proof (induction rule: registration_runs.induct)
  case (registration_more g h k)
  then show ?case by (auto simp: Stop_darwin_def elim!: registration_step.cases)
qed simp

section \<open>Properties\<close>

text \<open>The advertisement carries the hint. Unless an entry is longer than 255 bytes, the TXT record reads
  back as version, host id, trust domain and protocol version in this order, the length passed
  along is the record's, and the two bytes of the port are swapped; otherwise the first entry that
  is too long is named. Both builds advertise the same four entries.\<close>
theorem advertisement_carries_hint:
  assumes "Advertise_darwin register info = Inr req"
  shows "read_txt 4 (dr_txt req) = Some [''v=1'', ''hid='' @ in_HostID info, ''td='' @ in_TrustDomainID info,
      ''pv='' @ in_ProtocolVersion info]
    \<and> unat (dr_txtLen req) = length (dr_txt req)
    \<and> (0 \<le> in_Port info \<and> in_Port info \<le> 65535 \<longrightarrow>
        uint (dr_port req) = in_Port info mod 256 * 256 + in_Port info div 256)
    \<and> (\<forall>cfg. Advertise_other sok True True info = Inr cfg \<longrightarrow>
        read_txt 4 (dr_txt req) = Some (map (\<lambda>(k, v). k @ ''='' @ v) (dc_Text cfg)))"
proof -
  let ?es = "[''v=1'', ''hid='' @ in_HostID info, ''td='' @ in_TrustDomainID info, ''pv='' @ in_ProtocolVersion info]"
  obtain out where out: "txtRecord (info_txt info) = Inr out" and req: "dr_txt req = out"
    "dr_txtLen req = word_of_nat (length out)" "dr_port req = port_nbo (in_Port info)"
    using assms by (auto simp: Advertise_darwin_def Let_def split: sum.splits if_splits)
  have wire: "out = concat (map wire_entry ?es)" and small: "list_all (\<lambda>e. length e \<le> 255) ?es"
    using out unfolding txtRecord_Inr by (simp_all add: txt_entry_def info_txt_def)
  have "read_txt 4 out = Some ?es" unfolding wire by (rule read_txt_wire [OF small]) simp
  moreover have "length out < 2 ^ 16" using small unfolding wire by (simp add: wire_entry_def)
  then have "unat (word_of_nat (length out) :: 16 word) = length out"
    by (simp add: unat_of_nat take_bit_nat_eq_self)
  ultimately show ?thesis using req port_nbo_swaps
    by (auto simp: Advertise_other_def Let_def info_txt_def)
qed

theorem advertisement_carries_hint_witness:
  "\<exists>req. Advertise_darwin (\<lambda>r. 0) \<lparr>in_Name = ''Mac'', in_Port = 4433, in_HostID = ''rh-1'',
      in_TrustDomainID = ''d'', in_ProtocolVersion = ''rook-link/1''\<rparr> = Inr req
    \<and> uint (dr_port req) = 20753"
proof -
  let ?i = "\<lparr>in_Name = ''Mac'', in_Port = 4433, in_HostID = ''rh-1'',
      in_TrustDomainID = ''d'', in_ProtocolVersion = ''rook-link/1''\<rparr>"
  obtain req where *: "Advertise_darwin (\<lambda>r. 0) ?i = Inr req"
    by (simp add: Advertise_darwin_def txtRecord_def txt_entry_def info_txt_def Let_def)
  from advertisement_carries_hint [OF *] * show ?thesis by auto
qed

text \<open>Stopping withdraws, once. However the end of the context, the goroutine and the callers of
  \<^verbatim>\<open>Stop\<close> interleave, a \<^verbatim>\<open>Stop\<close> of the pure-Go build that has returned left no responder answering, its
  channel is closed at most once, so nothing panics, and from every state all callers can be let go.
  The darwin build deallocates the registration at most once, and only after \<^verbatim>\<open>Stop\<close> or the end of the
  context.\<close>
theorem stopping_withdraws_once:
  assumes "advert_runs fresh_advertiser a" and "registration_runs fresh_registration g"
  shows "(Stopped \<in> set (av_stops a) \<longrightarrow> av_pc a = RespondOver \<and> av_over a) \<and> av_done a \<le> 1
    \<and> (\<exists>b. advert_runs a b \<and> length (av_stops b) = length (av_stops a) \<and> (\<forall>p \<in> set (av_stops b). p = Stopped))
    \<and> rg_deallocated g \<le> 1 \<and> (0 < rg_deallocated g \<longrightarrow> rg_over g)"
proof -
  have inv: "advert_inv a"
    by (rule advert_inv_runs [OF assms(1)]) (simp add: advert_inv_def fresh_advertiser_def)
  obtain b where b: "advert_runs a b" "av_stops b = av_stops a" "av_pc b = RespondOver" using responder_ends by blast
  then have "av_done b \<noteq> 0" using advert_inv_runs [OF b(1) inv] by (simp add: advert_inv_def)
  from stops_return [OF this order_refl] obtain c where "advert_runs b c" "length (av_stops c) = length (av_stops b)"
    "\<forall>k < length (av_stops b). av_stops c ! k = Stopped" by blast
  then have "advert_runs a c \<and> length (av_stops c) = length (av_stops a) \<and> (\<forall>p \<in> set (av_stops c). p = Stopped)"
    using advert_runs_trans b by (auto simp: in_set_conv_nth)
  moreover have "rg_deallocated g = (if rg_waiting g then 0 else 1) \<and> (\<not> rg_waiting g \<longrightarrow> rg_over g)"
    by (rule registration_inv [OF assms(2)]) (simp add: fresh_registration_def)
  ultimately show ?thesis using inv by (auto simp: advert_inv_def split: if_split_asm)
qed

theorem stopping_withdraws_once_witness:
  "\<exists>a g. advert_runs fresh_advertiser a \<and> registration_runs fresh_registration g
    \<and> av_stops a = [Stopped] \<and> av_pc a = RespondOver \<and> rg_deallocated g = 1 \<and> rg_over g"
proof -
  let ?a = fresh_advertiser and ?g = "Stop_darwin fresh_registration"
  have "advert_runs ?a (?a\<lparr>av_stops := [Cancelling]\<rparr>)"
    using advert_more [OF advert_still stop_called, of ?a] by (simp add: fresh_advertiser_def)
  from advert_more [OF this cancels [of 0]]
  have "advert_runs ?a (?a\<lparr>av_over := True, av_stops := [AwaitingDone]\<rparr>)" by simp
  from advert_more [OF this respond_returns]
  have "advert_runs ?a (?a\<lparr>av_over := True, av_pc := Responded, av_stops := [AwaitingDone]\<rparr>)"
    by (simp add: fresh_advertiser_def)
  from advert_more [OF this closes_done]
  have "advert_runs ?a (?a\<lparr>av_over := True, av_pc := RespondOver, av_done := 1, av_stops := [AwaitingDone]\<rparr>)"
    by (simp add: fresh_advertiser_def)
  from advert_more [OF this stop_returns [of 0]]
  have a: "advert_runs ?a (?a\<lparr>av_over := True, av_pc := RespondOver, av_done := 1, av_stops := [Stopped]\<rparr>)" by simp
  have "registration_runs fresh_registration ?g"
    by (rule registration_more [OF registration_still stops])
  from registration_more [OF this deallocates]
  have g: "registration_runs fresh_registration (?g\<lparr>rg_waiting := False, rg_deallocated := 1\<rparr>)"
    by (simp add: fresh_registration_def Stop_darwin_def)
  from stopping_withdraws_once [OF a g] a g show ?thesis by (intro exI conjI) (assumption | simp)+
qed

end
