(* ===== verification/Routing.thy ===== *)
theory Routing
  imports GoURL
begin

text \<open>
  The routes of the three services, as \<^verbatim>\<open>src/gen/rook/link/v1/linkv1connect\<close> and
  \<^verbatim>\<open>src/gen/rook/edge/v1/edgev1connect\<close> fix them, and \<^verbatim>\<open>Handler\<close> of \<^verbatim>\<open>src/link/server.go\<close>, which mounts
  two of them on one mux: which procedure a client method calls, and which method of the service a
  request path reaches. Paths are without percent escapes. The codecs and the transport of connect
  are outside.
\<close>

section \<open>Methods and procedures\<close>

text \<open>How a method is served and called: one answer, or a stream of them.\<close>

datatype 'm rpc = Unary 'm | ServerStream 'm

datatype host_rpc = RpcGetHostInfo | RpcPair | RpcChallenge | RpcAuthenticate

datatype link_rpc = RpcGetStatus | RpcWatchStatus | RpcSubmitAnswer | RpcSubmitCommand | RpcGetDigest | RpcWatchPane

datatype edge_rpc = RpcRegisterDevice | RpcSyncEdge | RpcAckCommand | RpcSubmitEvents | RpcRenewLeases | RpcWatchEdge | RpcResolveArtifactUpload

definition HostServiceName :: string where
  "HostServiceName = ''rook.link.v1.HostService''"

definition LinkServiceName :: string where
  "LinkServiceName = ''rook.link.v1.LinkService''"

definition EdgeServiceName :: string where
  "EdgeServiceName = ''rook.edge.v1.EdgeService''"

definition HostServiceGetHostInfoProcedure :: string where
  "HostServiceGetHostInfoProcedure = ''/rook.link.v1.HostService/GetHostInfo''"

definition HostServicePairProcedure :: string where
  "HostServicePairProcedure = ''/rook.link.v1.HostService/Pair''"

definition HostServiceChallengeProcedure :: string where
  "HostServiceChallengeProcedure = ''/rook.link.v1.HostService/Challenge''"

definition HostServiceAuthenticateProcedure :: string where
  "HostServiceAuthenticateProcedure = ''/rook.link.v1.HostService/Authenticate''"

definition LinkServiceGetStatusProcedure :: string where
  "LinkServiceGetStatusProcedure = ''/rook.link.v1.LinkService/GetStatus''"

definition LinkServiceWatchStatusProcedure :: string where
  "LinkServiceWatchStatusProcedure = ''/rook.link.v1.LinkService/WatchStatus''"

definition LinkServiceSubmitAnswerProcedure :: string where
  "LinkServiceSubmitAnswerProcedure = ''/rook.link.v1.LinkService/SubmitAnswer''"

definition LinkServiceSubmitCommandProcedure :: string where
  "LinkServiceSubmitCommandProcedure = ''/rook.link.v1.LinkService/SubmitCommand''"

definition LinkServiceGetDigestProcedure :: string where
  "LinkServiceGetDigestProcedure = ''/rook.link.v1.LinkService/GetDigest''"

definition LinkServiceWatchPaneProcedure :: string where
  "LinkServiceWatchPaneProcedure = ''/rook.link.v1.LinkService/WatchPane''"

definition EdgeServiceRegisterDeviceProcedure :: string where
  "EdgeServiceRegisterDeviceProcedure = ''/rook.edge.v1.EdgeService/RegisterDevice''"

definition EdgeServiceSyncEdgeProcedure :: string where
  "EdgeServiceSyncEdgeProcedure = ''/rook.edge.v1.EdgeService/SyncEdge''"

definition EdgeServiceAckCommandProcedure :: string where
  "EdgeServiceAckCommandProcedure = ''/rook.edge.v1.EdgeService/AckCommand''"

definition EdgeServiceSubmitEventsProcedure :: string where
  "EdgeServiceSubmitEventsProcedure = ''/rook.edge.v1.EdgeService/SubmitEvents''"

definition EdgeServiceRenewLeasesProcedure :: string where
  "EdgeServiceRenewLeasesProcedure = ''/rook.edge.v1.EdgeService/RenewLeases''"

definition EdgeServiceWatchEdgeProcedure :: string where
  "EdgeServiceWatchEdgeProcedure = ''/rook.edge.v1.EdgeService/WatchEdge''"

definition EdgeServiceResolveArtifactUploadProcedure :: string where
  "EdgeServiceResolveArtifactUploadProcedure = ''/rook.edge.v1.EdgeService/ResolveArtifactUpload''"

section \<open>Clients\<close>

text \<open>\<^verbatim>\<open>strings.TrimRight\<close> with a slash; a client keeps one URL and one way of calling per method.\<close>

definition TrimRight_slash :: "string \<Rightarrow> string" where
  "TrimRight_slash s = rev (dropWhile (\<lambda>c. c = CHR ''/'') (rev s))"

fun NewHostServiceClient :: "string \<Rightarrow> host_rpc \<Rightarrow> string" where
  "NewHostServiceClient baseURL RpcGetHostInfo = TrimRight_slash baseURL @ HostServiceGetHostInfoProcedure"
| "NewHostServiceClient baseURL RpcPair = TrimRight_slash baseURL @ HostServicePairProcedure"
| "NewHostServiceClient baseURL RpcChallenge = TrimRight_slash baseURL @ HostServiceChallengeProcedure"
| "NewHostServiceClient baseURL RpcAuthenticate = TrimRight_slash baseURL @ HostServiceAuthenticateProcedure"

fun hostServiceClient_call :: "host_rpc \<Rightarrow> host_rpc rpc" where
  "hostServiceClient_call RpcGetHostInfo = Unary RpcGetHostInfo"
| "hostServiceClient_call RpcPair = Unary RpcPair"
| "hostServiceClient_call RpcChallenge = Unary RpcChallenge"
| "hostServiceClient_call RpcAuthenticate = Unary RpcAuthenticate"

fun NewLinkServiceClient :: "string \<Rightarrow> link_rpc \<Rightarrow> string" where
  "NewLinkServiceClient baseURL RpcGetStatus = TrimRight_slash baseURL @ LinkServiceGetStatusProcedure"
| "NewLinkServiceClient baseURL RpcWatchStatus = TrimRight_slash baseURL @ LinkServiceWatchStatusProcedure"
| "NewLinkServiceClient baseURL RpcSubmitAnswer = TrimRight_slash baseURL @ LinkServiceSubmitAnswerProcedure"
| "NewLinkServiceClient baseURL RpcSubmitCommand = TrimRight_slash baseURL @ LinkServiceSubmitCommandProcedure"
| "NewLinkServiceClient baseURL RpcGetDigest = TrimRight_slash baseURL @ LinkServiceGetDigestProcedure"
| "NewLinkServiceClient baseURL RpcWatchPane = TrimRight_slash baseURL @ LinkServiceWatchPaneProcedure"

fun linkServiceClient_call :: "link_rpc \<Rightarrow> link_rpc rpc" where
  "linkServiceClient_call RpcGetStatus = Unary RpcGetStatus"
| "linkServiceClient_call RpcWatchStatus = ServerStream RpcWatchStatus"
| "linkServiceClient_call RpcSubmitAnswer = Unary RpcSubmitAnswer"
| "linkServiceClient_call RpcSubmitCommand = Unary RpcSubmitCommand"
| "linkServiceClient_call RpcGetDigest = Unary RpcGetDigest"
| "linkServiceClient_call RpcWatchPane = ServerStream RpcWatchPane"

fun NewEdgeServiceClient :: "string \<Rightarrow> edge_rpc \<Rightarrow> string" where
  "NewEdgeServiceClient baseURL RpcRegisterDevice = TrimRight_slash baseURL @ EdgeServiceRegisterDeviceProcedure"
| "NewEdgeServiceClient baseURL RpcSyncEdge = TrimRight_slash baseURL @ EdgeServiceSyncEdgeProcedure"
| "NewEdgeServiceClient baseURL RpcAckCommand = TrimRight_slash baseURL @ EdgeServiceAckCommandProcedure"
| "NewEdgeServiceClient baseURL RpcSubmitEvents = TrimRight_slash baseURL @ EdgeServiceSubmitEventsProcedure"
| "NewEdgeServiceClient baseURL RpcRenewLeases = TrimRight_slash baseURL @ EdgeServiceRenewLeasesProcedure"
| "NewEdgeServiceClient baseURL RpcWatchEdge = TrimRight_slash baseURL @ EdgeServiceWatchEdgeProcedure"
| "NewEdgeServiceClient baseURL RpcResolveArtifactUpload = TrimRight_slash baseURL @ EdgeServiceResolveArtifactUploadProcedure"

fun edgeServiceClient_call :: "edge_rpc \<Rightarrow> edge_rpc rpc" where
  "edgeServiceClient_call RpcRegisterDevice = Unary RpcRegisterDevice"
| "edgeServiceClient_call RpcSyncEdge = Unary RpcSyncEdge"
| "edgeServiceClient_call RpcAckCommand = Unary RpcAckCommand"
| "edgeServiceClient_call RpcSubmitEvents = Unary RpcSubmitEvents"
| "edgeServiceClient_call RpcRenewLeases = Unary RpcRenewLeases"
| "edgeServiceClient_call RpcWatchEdge = ServerStream RpcWatchEdge"
| "edgeServiceClient_call RpcResolveArtifactUpload = Unary RpcResolveArtifactUpload"

section \<open>Handlers\<close>

text \<open>The path to mount on, and the switch over the request path; \<open>None\<close> is \<^verbatim>\<open>http.NotFound\<close>.\<close>

definition NewHostServiceHandler :: "string \<times> (string \<Rightarrow> host_rpc rpc option)" where
  "NewHostServiceHandler = (''/rook.link.v1.HostService/'', \<lambda>path.
     if path = HostServiceGetHostInfoProcedure then Some (Unary RpcGetHostInfo)
     else if path = HostServicePairProcedure then Some (Unary RpcPair)
     else if path = HostServiceChallengeProcedure then Some (Unary RpcChallenge)
     else if path = HostServiceAuthenticateProcedure then Some (Unary RpcAuthenticate)
     else None)"

definition NewLinkServiceHandler :: "string \<times> (string \<Rightarrow> link_rpc rpc option)" where
  "NewLinkServiceHandler = (''/rook.link.v1.LinkService/'', \<lambda>path.
     if path = LinkServiceGetStatusProcedure then Some (Unary RpcGetStatus)
     else if path = LinkServiceWatchStatusProcedure then Some (ServerStream RpcWatchStatus)
     else if path = LinkServiceSubmitAnswerProcedure then Some (Unary RpcSubmitAnswer)
     else if path = LinkServiceSubmitCommandProcedure then Some (Unary RpcSubmitCommand)
     else if path = LinkServiceGetDigestProcedure then Some (Unary RpcGetDigest)
     else if path = LinkServiceWatchPaneProcedure then Some (ServerStream RpcWatchPane)
     else None)"

definition NewEdgeServiceHandler :: "string \<times> (string \<Rightarrow> edge_rpc rpc option)" where
  "NewEdgeServiceHandler = (''/rook.edge.v1.EdgeService/'', \<lambda>path.
     if path = EdgeServiceRegisterDeviceProcedure then Some (Unary RpcRegisterDevice)
     else if path = EdgeServiceSyncEdgeProcedure then Some (Unary RpcSyncEdge)
     else if path = EdgeServiceAckCommandProcedure then Some (Unary RpcAckCommand)
     else if path = EdgeServiceSubmitEventsProcedure then Some (Unary RpcSubmitEvents)
     else if path = EdgeServiceRenewLeasesProcedure then Some (Unary RpcRenewLeases)
     else if path = EdgeServiceWatchEdgeProcedure then Some (ServerStream RpcWatchEdge)
     else if path = EdgeServiceResolveArtifactUploadProcedure then Some (Unary RpcResolveArtifactUpload)
     else None)"

text \<open>What the embedded default service answers.\<close>

definition unimplemented :: "string \<Rightarrow> string \<Rightarrow> string" where
  "unimplemented service m = service @ ''.'' @ m @ '' is not implemented''"

fun UnimplementedHostServiceHandler :: "host_rpc \<Rightarrow> string" where
  "UnimplementedHostServiceHandler RpcGetHostInfo = unimplemented HostServiceName ''GetHostInfo''"
| "UnimplementedHostServiceHandler RpcPair = unimplemented HostServiceName ''Pair''"
| "UnimplementedHostServiceHandler RpcChallenge = unimplemented HostServiceName ''Challenge''"
| "UnimplementedHostServiceHandler RpcAuthenticate = unimplemented HostServiceName ''Authenticate''"

fun UnimplementedLinkServiceHandler :: "link_rpc \<Rightarrow> string" where
  "UnimplementedLinkServiceHandler RpcGetStatus = unimplemented LinkServiceName ''GetStatus''"
| "UnimplementedLinkServiceHandler RpcWatchStatus = unimplemented LinkServiceName ''WatchStatus''"
| "UnimplementedLinkServiceHandler RpcSubmitAnswer = unimplemented LinkServiceName ''SubmitAnswer''"
| "UnimplementedLinkServiceHandler RpcSubmitCommand = unimplemented LinkServiceName ''SubmitCommand''"
| "UnimplementedLinkServiceHandler RpcGetDigest = unimplemented LinkServiceName ''GetDigest''"
| "UnimplementedLinkServiceHandler RpcWatchPane = unimplemented LinkServiceName ''WatchPane''"

fun UnimplementedEdgeServiceHandler :: "edge_rpc \<Rightarrow> string" where
  "UnimplementedEdgeServiceHandler RpcRegisterDevice = unimplemented EdgeServiceName ''RegisterDevice''"
| "UnimplementedEdgeServiceHandler RpcSyncEdge = unimplemented EdgeServiceName ''SyncEdge''"
| "UnimplementedEdgeServiceHandler RpcAckCommand = unimplemented EdgeServiceName ''AckCommand''"
| "UnimplementedEdgeServiceHandler RpcSubmitEvents = unimplemented EdgeServiceName ''SubmitEvents''"
| "UnimplementedEdgeServiceHandler RpcRenewLeases = unimplemented EdgeServiceName ''RenewLeases''"
| "UnimplementedEdgeServiceHandler RpcWatchEdge = unimplemented EdgeServiceName ''WatchEdge''"
| "UnimplementedEdgeServiceHandler RpcResolveArtifactUpload = unimplemented EdgeServiceName ''ResolveArtifactUpload''"

section \<open>The mux\<close>

text \<open>\<^verbatim>\<open>path.Clean\<close> on a rooted path, and the mux's own \<^verbatim>\<open>cleanPath\<close>, which keeps a final slash.\<close>

definition clean_segments :: "string list \<Rightarrow> string list" where
  "clean_segments segs = foldl (\<lambda>out seg.
     if seg = [] \<or> seg = ''.'' then out else if seg = ''..'' then butlast out else out @ [seg]) [] segs"

definition cleanPath :: "string \<Rightarrow> string" where
  "cleanPath p =
    (if p = [] then ''/''
     else let p' = (if hd p \<noteq> CHR ''/'' then CHR ''/'' # p else p);
              np = CHR ''/'' # Join (CHR ''/'') (clean_segments (Split (CHR ''/'') p'))
          in if last p' = CHR ''/'' \<and> np \<noteq> ''/'' then np @ ''/'' else np)"

datatype route = ServeHost "host_rpc rpc" | ServeLink "link_rpc rpc" | NotFound | Redirect

text \<open>A pattern that ends in a slash takes every path below it; neither pattern is below the other.\<close>

definition Handler :: "string \<Rightarrow> route" where
  "Handler path =
    (let p = cleanPath path;
         (hostPat, hostH) = NewHostServiceHandler;
         (linkPat, linkH) = NewLinkServiceHandler
     in if p @ ''/'' = hostPat \<or> p @ ''/'' = linkPat then Redirect
        else if p \<noteq> path then Redirect
        else if prefix hostPat p then (case hostH path of None \<Rightarrow> NotFound | Some m \<Rightarrow> ServeHost m)
        else if prefix linkPat p then (case linkH path of None \<Rightarrow> NotFound | Some m \<Rightarrow> ServeLink m)
        else NotFound)"

section \<open>Lemmas\<close>

lemma TrimRight_nil [simp]: "TrimRight_slash [] = []"
  by (simp add: TrimRight_slash_def)

lemma ifE_Some:
  assumes "(if b then Some x else e) = Some r"
  obtains "b" and "x = r" | "e = Some r"
  using assms by (auto split: if_splits)

lemmas HostService_procedures =
  HostServiceGetHostInfoProcedure_def HostServicePairProcedure_def HostServiceChallengeProcedure_def HostServiceAuthenticateProcedure_def

lemmas LinkService_procedures =
  LinkServiceGetStatusProcedure_def LinkServiceWatchStatusProcedure_def LinkServiceSubmitAnswerProcedure_def LinkServiceSubmitCommandProcedure_def LinkServiceGetDigestProcedure_def LinkServiceWatchPaneProcedure_def

lemmas EdgeService_procedures =
  EdgeServiceRegisterDeviceProcedure_def EdgeServiceSyncEdgeProcedure_def EdgeServiceAckCommandProcedure_def EdgeServiceSubmitEventsProcedure_def EdgeServiceRenewLeasesProcedure_def EdgeServiceWatchEdgeProcedure_def EdgeServiceResolveArtifactUploadProcedure_def

lemma hostService_routes:
  "snd NewHostServiceHandler (NewHostServiceClient [] m) = Some (hostServiceClient_call m)"
  by (cases m) (simp_all add: NewHostServiceHandler_def TrimRight_slash_def HostService_procedures)

lemma hostService_served:
  "snd NewHostServiceHandler path = Some r \<longleftrightarrow> (\<exists>m. path = NewHostServiceClient [] m \<and> r = hostServiceClient_call m)"
proof
  assume "snd NewHostServiceHandler path = Some r"
  then show "\<exists>m. path = NewHostServiceClient [] m \<and> r = hostServiceClient_call m"
    unfolding NewHostServiceHandler_def snd_conv
    by (elim ifE_Some) (metis NewHostServiceClient.simps(1) hostServiceClient_call.simps(1) TrimRight_nil append_Nil, metis NewHostServiceClient.simps(2) hostServiceClient_call.simps(2) TrimRight_nil append_Nil, metis NewHostServiceClient.simps(3) hostServiceClient_call.simps(3) TrimRight_nil append_Nil, metis NewHostServiceClient.simps(4) hostServiceClient_call.simps(4) TrimRight_nil append_Nil, simp)
next
  assume "\<exists>m. path = NewHostServiceClient [] m \<and> r = hostServiceClient_call m"
  then show "snd NewHostServiceHandler path = Some r" using hostService_routes by auto
qed

lemma linkService_routes:
  "snd NewLinkServiceHandler (NewLinkServiceClient [] m) = Some (linkServiceClient_call m)"
  by (cases m) (simp_all add: NewLinkServiceHandler_def TrimRight_slash_def LinkService_procedures)

lemma linkService_served:
  "snd NewLinkServiceHandler path = Some r \<longleftrightarrow> (\<exists>m. path = NewLinkServiceClient [] m \<and> r = linkServiceClient_call m)"
proof
  assume "snd NewLinkServiceHandler path = Some r"
  then show "\<exists>m. path = NewLinkServiceClient [] m \<and> r = linkServiceClient_call m"
    unfolding NewLinkServiceHandler_def snd_conv
    by (elim ifE_Some) (metis NewLinkServiceClient.simps(1) linkServiceClient_call.simps(1) TrimRight_nil append_Nil, metis NewLinkServiceClient.simps(2) linkServiceClient_call.simps(2) TrimRight_nil append_Nil, metis NewLinkServiceClient.simps(3) linkServiceClient_call.simps(3) TrimRight_nil append_Nil, metis NewLinkServiceClient.simps(4) linkServiceClient_call.simps(4) TrimRight_nil append_Nil, metis NewLinkServiceClient.simps(5) linkServiceClient_call.simps(5) TrimRight_nil append_Nil, metis NewLinkServiceClient.simps(6) linkServiceClient_call.simps(6) TrimRight_nil append_Nil, simp)
next
  assume "\<exists>m. path = NewLinkServiceClient [] m \<and> r = linkServiceClient_call m"
  then show "snd NewLinkServiceHandler path = Some r" using linkService_routes by auto
qed

lemma edgeService_routes:
  "snd NewEdgeServiceHandler (NewEdgeServiceClient [] m) = Some (edgeServiceClient_call m)"
  by (cases m) (simp_all add: NewEdgeServiceHandler_def TrimRight_slash_def EdgeService_procedures)

lemma edgeService_served:
  "snd NewEdgeServiceHandler path = Some r \<longleftrightarrow> (\<exists>m. path = NewEdgeServiceClient [] m \<and> r = edgeServiceClient_call m)"
proof
  assume "snd NewEdgeServiceHandler path = Some r"
  then show "\<exists>m. path = NewEdgeServiceClient [] m \<and> r = edgeServiceClient_call m"
    unfolding NewEdgeServiceHandler_def snd_conv
    by (elim ifE_Some) (metis NewEdgeServiceClient.simps(1) edgeServiceClient_call.simps(1) TrimRight_nil append_Nil, metis NewEdgeServiceClient.simps(2) edgeServiceClient_call.simps(2) TrimRight_nil append_Nil, metis NewEdgeServiceClient.simps(3) edgeServiceClient_call.simps(3) TrimRight_nil append_Nil, metis NewEdgeServiceClient.simps(4) edgeServiceClient_call.simps(4) TrimRight_nil append_Nil, metis NewEdgeServiceClient.simps(5) edgeServiceClient_call.simps(5) TrimRight_nil append_Nil, metis NewEdgeServiceClient.simps(6) edgeServiceClient_call.simps(6) TrimRight_nil append_Nil, metis NewEdgeServiceClient.simps(7) edgeServiceClient_call.simps(7) TrimRight_nil append_Nil, simp)
next
  assume "\<exists>m. path = NewEdgeServiceClient [] m \<and> r = edgeServiceClient_call m"
  then show "snd NewEdgeServiceHandler path = Some r" using edgeService_routes by auto
qed

lemma host_procedure_clean:
  "cleanPath (NewHostServiceClient [] m) = NewHostServiceClient [] m"
  "prefix ''/rook.link.v1.HostService/'' (NewHostServiceClient [] m)"
  "NewHostServiceClient [] m @ ''/'' \<noteq> ''/rook.link.v1.HostService/''"
  "NewHostServiceClient [] m @ ''/'' \<noteq> ''/rook.link.v1.LinkService/''"
  by (cases m; simp add: HostService_procedures cleanPath_def clean_segments_def)+

lemma link_procedure_clean:
  "cleanPath (NewLinkServiceClient [] m) = NewLinkServiceClient [] m"
  "prefix ''/rook.link.v1.LinkService/'' (NewLinkServiceClient [] m)"
  "\<not> prefix ''/rook.link.v1.HostService/'' (NewLinkServiceClient [] m)"
  "NewLinkServiceClient [] m @ ''/'' \<noteq> ''/rook.link.v1.HostService/''"
  "NewLinkServiceClient [] m @ ''/'' \<noteq> ''/rook.link.v1.LinkService/''"
  by (cases m; simp add: LinkService_procedures cleanPath_def clean_segments_def)+

lemma handler_mounts:
  "fst NewHostServiceHandler = ''/rook.link.v1.HostService/''"
  "fst NewLinkServiceHandler = ''/rook.link.v1.LinkService/''"
  by (simp_all add: NewHostServiceHandler_def NewLinkServiceHandler_def)

lemma Handler_eq: "Handler path =
    (let p = cleanPath path
     in if p @ ''/'' = ''/rook.link.v1.HostService/'' \<or> p @ ''/'' = ''/rook.link.v1.LinkService/'' then Redirect
        else if p \<noteq> path then Redirect
        else if prefix ''/rook.link.v1.HostService/'' p
        then (case snd NewHostServiceHandler path of None \<Rightarrow> NotFound | Some m \<Rightarrow> ServeHost m)
        else if prefix ''/rook.link.v1.LinkService/'' p
        then (case snd NewLinkServiceHandler path of None \<Rightarrow> NotFound | Some m \<Rightarrow> ServeLink m)
        else NotFound)"
  by (simp only: Handler_def Let_def case_prod_beta handler_mounts)

lemma Handler_serves_host:
  "Handler path = ServeHost r \<longleftrightarrow> (\<exists>m. path = NewHostServiceClient [] m \<and> r = hostServiceClient_call m)"
proof
  assume "Handler path = ServeHost r"
  then have "snd NewHostServiceHandler path = Some r"
    by (auto simp: Handler_eq Let_def split: if_splits option.splits)
  then show "\<exists>m. path = NewHostServiceClient [] m \<and> r = hostServiceClient_call m"
    unfolding hostService_served .
next
  assume "\<exists>m. path = NewHostServiceClient [] m \<and> r = hostServiceClient_call m"
  then show "Handler path = ServeHost r"
    using hostService_routes host_procedure_clean by (auto simp: Handler_eq Let_def)
qed

lemma Handler_serves_link:
  "Handler path = ServeLink r \<longleftrightarrow> (\<exists>m. path = NewLinkServiceClient [] m \<and> r = linkServiceClient_call m)"
proof
  assume "Handler path = ServeLink r"
  then have "snd NewLinkServiceHandler path = Some r"
    by (auto simp: Handler_eq Let_def split: if_splits option.splits)
  then show "\<exists>m. path = NewLinkServiceClient [] m \<and> r = linkServiceClient_call m"
    unfolding linkService_served .
next
  assume "\<exists>m. path = NewLinkServiceClient [] m \<and> r = linkServiceClient_call m"
  then show "Handler path = ServeLink r"
    using linkService_routes link_procedure_clean by (auto simp: Handler_eq Let_def)
qed

lemma client_urls:
  "NewHostServiceClient base h = TrimRight_slash base @ NewHostServiceClient [] h"
  "NewLinkServiceClient base l = TrimRight_slash base @ NewLinkServiceClient [] l"
  "NewEdgeServiceClient base e = TrimRight_slash base @ NewEdgeServiceClient [] e"
proof -
  show "NewHostServiceClient base h = TrimRight_slash base @ NewHostServiceClient [] h" by (cases h) simp_all
  show "NewLinkServiceClient base l = TrimRight_slash base @ NewLinkServiceClient [] l" by (cases l) simp_all
  show "NewEdgeServiceClient base e = TrimRight_slash base @ NewEdgeServiceClient [] e" by (cases e) simp_all
qed

lemma TrimRight_slash_props:
  "TrimRight_slash (base @ ''/'') = TrimRight_slash base"
  "TrimRight_slash base = [] \<or> last (TrimRight_slash base) \<noteq> CHR ''/''"
proof -
  show "TrimRight_slash (base @ ''/'') = TrimRight_slash base" by (simp add: TrimRight_slash_def)
  show "TrimRight_slash base = [] \<or> last (TrimRight_slash base) \<noteq> CHR ''/''"
    using hd_dropWhile [of "\<lambda>c. c = CHR ''/''" "rev base"]
    by (auto simp: TrimRight_slash_def last_rev)
qed

section \<open>Properties\<close>

text \<open>C30: Every call reaches the method it names and nothing else is served. The path a client of one
  of the two mounted services calls is answered by the method of that name, as a stream exactly when
  the client expects one; conversely a path that is served is the path of such a client method, so
  every other path is redirected or not found; and the base URL may end in slashes or not.\<close>
theorem calls_reach_their_method:
  "(\<forall>m. Handler (NewHostServiceClient [] m) = ServeHost (hostServiceClient_call m))
   \<and> (\<forall>m. Handler (NewLinkServiceClient [] m) = ServeLink (linkServiceClient_call m))
   \<and> (\<forall>m. snd NewEdgeServiceHandler (NewEdgeServiceClient [] m) = Some (edgeServiceClient_call m))
   \<and> (Handler path \<in> {NotFound, Redirect}
      \<or> (\<exists>m. path = NewHostServiceClient [] m \<and> Handler path = ServeHost (hostServiceClient_call m))
      \<or> (\<exists>m. path = NewLinkServiceClient [] m \<and> Handler path = ServeLink (linkServiceClient_call m)))
   \<and> NewHostServiceClient (base @ ''/'') h = NewHostServiceClient base h
   \<and> NewLinkServiceClient (base @ ''/'') l = NewLinkServiceClient base l
   \<and> NewEdgeServiceClient (base @ ''/'') e = NewEdgeServiceClient base e"
proof -
  have "Handler path \<in> {NotFound, Redirect}
      \<or> (\<exists>m. path = NewHostServiceClient [] m \<and> Handler path = ServeHost (hostServiceClient_call m))
      \<or> (\<exists>m. path = NewLinkServiceClient [] m \<and> Handler path = ServeLink (linkServiceClient_call m))"
    by (cases "Handler path") (use Handler_serves_host Handler_serves_link in auto)
  moreover have "\<forall>m. Handler (NewHostServiceClient [] m) = ServeHost (hostServiceClient_call m)"
    "\<forall>m. Handler (NewLinkServiceClient [] m) = ServeLink (linkServiceClient_call m)"
    using Handler_serves_host Handler_serves_link by blast+
  ultimately show ?thesis
    using edgeService_routes client_urls TrimRight_slash_props(1) by metis
qed

end
