(* ===== verification/Spec2Isabelle.thy ===== *)
theory Spec2Isabelle
  imports ThreadGate PaneTruth Restart EdgeHonest EdgeReplay DeviceLife PairCode Transport Bonjour Routing
begin

text \<open>
  The rook host: the machine an owner's agents run on, and the two rails that reach it. The link
  rail (\<^verbatim>\<open>src/link\<close>) lets paired devices watch a bounded projection of the host and request a small
  vocabulary of actions; the edge rail (\<^verbatim>\<open>src/edgeclient\<close>, \<^verbatim>\<open>src/edgesign\<close>) lets a cloud send signed
  commands to a device. This library models the Go code of both, component by component, and proves
  what makes each correct and what they guarantee together.

  The parts of the program and their theories.

  \<^item> \<open>Prelude\<close>, \<open>GoText\<close>, \<open>GoEncoding\<close>, \<open>GoURL\<close>, \<open>GoFS\<close>, \<open>Crypto\<close>: what the sources use of Go. Strings
    and byte slices are \<^typ>\<open>char list\<close>, a char being an octet; times are nanoseconds as \<^typ>\<open>int\<close>, Go
    maps association lists with distinct keys, counters words of their width. Text trimming, number
    formatting, UTF-8, base64, base32, query strings and \<^verbatim>\<open>url.Parse\<close>, the write-and-rename of a file
    on a disk that may fail at each step. \<open>Crypto\<close> fixes SHA-256 and Ed25519 as parameters with the
    documented facts (\<open>sha256_sized\<close>, \<open>ed25519_correct\<close>) as named hypotheses; \<open>demo_crypto\<close> satisfies
    them. \<^verbatim>\<open>crypto/ed25519\<close> panics on a key of the wrong size; such a panic is \<open>None\<close> or \<open>Panics\<close>.
  \<^item> \<open>Projection\<close> (\<^verbatim>\<open>src/projection\<close>): the vocabulary of the rails, \<^verbatim>\<open>ValidAnswer\<close>, \<^verbatim>\<open>ValidCommand\<close> with its
    natural keys, and the clamps. \<open>Convert\<close> (\<^verbatim>\<open>src/link/convert.go\<close>): to the wire messages and back.
  \<^item> \<open>Identity\<close> (\<^verbatim>\<open>src/identity\<close>): the host's key, its state file and the two signed statements.
    \<open>Registry\<close> (\<^verbatim>\<open>src/registry\<close>): the book of paired devices, in memory and on disk; \<open>Rights\<close> refines
    it to a map from devices to capabilities. \<open>Pairing\<close> and \<open>PairCode\<close> (\<^verbatim>\<open>src/pairing\<close>): the window and
    the QR code. \<open>Tokens\<close> (\<^verbatim>\<open>src/link/tokens.go\<close>): session tokens and challenge nonces.
  \<^item> \<open>Fanout\<close>, \<open>Hub\<close>, \<open>PaneHub\<close> (\<^verbatim>\<open>src/link/hub.go\<close>, \<^verbatim>\<open>panehub.go\<close>): who watches what. A subscriber is an
    object in a heap with a channel of capacity one and a channel that is closed at most once.
  \<^item> \<open>LinkServer\<close>, \<open>LinkMachine\<close>, \<open>Enrolment\<close>, \<open>Service\<close> (\<^verbatim>\<open>src/link/server.go\<close>): the server's state and
    one function per entry point, with every guard in the order of the code; a machine whose steps are
    the entry points; and what holds along its runs. \<open>Gate\<close> is the
    access specification the server refines, \<open>History\<close> reads runs backwards from an access to the login,
    the challenge and the pairing behind it, \<open>Restart\<close> says what a crash leaves.
  \<^item> \<open>Handlers\<close>, \<open>Streams\<close>, \<open>Revocation\<close>, \<open>Crowd\<close> (\<^verbatim>\<open>src/link/server.go\<close> again): the same entry points lock by
    lock. \<open>Handlers\<close> takes the unary handlers apart into the steps between two locks and shows that a
    call left alone is the handler of \<open>LinkServer\<close>; \<open>Streams\<close> does so with the two watch handlers and
    \<^verbatim>\<open>RevokeDevice\<close> and lets calls, streams, revocations and the one-lock operations interleave as threads
    of a \<open>host\<close>. \<open>Revocation\<close>, \<open>StreamTruth\<close> and \<open>PaneTruth\<close> say what streams then do and carry, \<open>Crowd\<close> what a
    revocation, a challenge and a pairing secret are worth among concurrent calls, and \<open>ThreadGate\<close> that
    the threads refine the access gate step by step.
  \<^item> \<open>Routing\<close> (\<^verbatim>\<open>Handler\<close> and \<^verbatim>\<open>src/gen/rook/*/v1/*connect\<close>): which path reaches which method.
  \<^item> \<open>Edgesign\<close> (\<^verbatim>\<open>src/edgesign\<close>): the signed envelopes and approval grants. \<open>EdgeClient\<close>
    (\<^verbatim>\<open>src/edgeclient\<close>, \<^verbatim>\<open>src/edge\<close>): one sync pass as a function of the answers it gets, with the calls it
    makes logged; \<open>EdgeHonest\<close>: what an honest cloud signs is executed; \<open>EdgeReplay\<close>: what the
    event ids of several passes say. \<open>EdgeFollow\<close>: the poll loop and the wake stream as one
    step relation; \<open>DeviceLife\<close>: what a registered device does as long as it follows.
  \<^item> \<open>Transport\<close> (\<^verbatim>\<open>src/transport\<close>) and \<open>Bonjour\<close> (\<^verbatim>\<open>src/bonjour\<close>): the listener with its serving
    goroutine and its callers, the address hints, the TXT hint with its wire form, and how an
    advertisement ends in either build.

  How the code is rendered. A struct is a record, a const block a datatype or definitions, a method a
  function from the state to its results and the new state. A method under one mutex is one atomic
  step. Errors are sums, options, or the type \<open>reply\<close> for the RPC handlers. What comes from outside
  (clock readings, random bytes, disk outcomes, answers of the executor, of a pane source, of the
  cloud) is an argument, so every theorem holds for all of it. A run of operations is a fold over a list,
  or the reachability of an inductive step relation where threads interleave. Where a goroutine or a
  \<^verbatim>\<open>select\<close> leaves a choice, the relation has a rule for each.

  What the lemmas show. Each component theory proves that its operations keep an invariant
  (\<open>reg_inv\<close>, \<open>srv_wf\<close>, \<open>host_inv\<close>, \<open>truth_inv\<close>, \<open>pane_inv\<close>, \<open>rail_inv\<close>, the hubs' invariants) and what each operation does on every
  branch. The shared contracts are locales with the laws as assumptions, each interpreted on the
  definitions of the components that provide it: \<open>normaliser\<close> (trimming, clipping, the clamps, the
  wire), \<open>canonical_encoding\<close> (both signing packages), \<open>single_use\<close> (pairing secrets, nonces), \<open>fanout\<close>
  (both hubs), \<open>authority\<close> (registry and server: once barred, denied until enrolled again), \<open>escaping\<close>
  (query strings), \<open>single_credit\<close> (challenges and secrets among threads). \<open>run_origin\<close> of \<open>History\<close> finds the operation a fact of a run stems from; the server's
  runs refine those of the gate through \<open>gate_step\<close>. This theory holds the properties that span components: revocation, pairing,
  the scanned code, authentication, and that an honest device gets in. The concrete values
  for the witnesses are the definitions called \<open>demo_...\<close>.

  Bounds and fuel. \<open>read_txt\<close> takes as fuel the number of entries it may read; four are enough for the
  record of four entries, as \<open>advertisement_carries_hint\<close> shows. \<open>revoke_run\<close> counts steps; four end a revocation, and \<open>call_run\<close> those of a call,
  of which six end any (\<open>handlers_left_alone\<close>). No other
  definition has fuel: the loops of the sources are structural or have a measure, and the two that may run
  forever (\<^verbatim>\<open>Follow\<close>, \<^verbatim>\<open>watch\<close>) are step relations.

  Not modelled. The generated protobuf code beyond the message structs; the codecs, compression and
  HTTP of connect and \<^verbatim>\<open>net/http\<close>; TLS, X.509, PEM and JSON (parameters with the round trips they document);
  the sockets and \<^verbatim>\<open>http.Server\<close>, the mDNS responders, logging. Request paths are without
  percent escapes. \<^verbatim>\<open>float64\<close> values are only copied and stay 64 bits. Memory is sequentially consistent,
  and the only scheduling that is modelled is the interleaving of the critical sections named above.
\<close>

section \<open>Revocation\<close>



section \<open>Pairing\<close>

text \<open>C6: Pairing admits exactly a proven key with the secret on display, once. A request that fails
  the version, key or proof checks, or names another secret or comes outside the window, changes
  nothing, so it cannot burn the human's window. A request that succeeds passed all of those, closed
  the window, and left the device registered under its key's fingerprint with exactly the known
  capabilities it asked for (all four when it named none), with no session or stream from an
  earlier registration, and every other device's entry as it was.\<close>
theorem pairing_outcome:
  assumes "srv_wf s" and "Pair lb io t1 t2 m s = (r, s')"
  defines "i \<equiv> DeviceIDFor (lb_crypto lb) (pq_DevicePublicKey m)"
    and "admitted \<equiv> pair_verified lb m s \<and> OpenNow t1 (s_pairs s) \<and> pq_PairingSecret m = pm_secret (s_pairs s)"
  shows "(\<not> admitted \<longrightarrow> s' = s \<and> (\<forall>x. r \<noteq> Reply x))
    \<and> (admitted \<longrightarrow> (\<forall>t. \<not> OpenNow t (s_pairs s')))
    \<and> (\<forall>x. r = Reply x \<longrightarrow> admitted \<and> px_DeviceId x = i
        \<and> px_GrantedCapabilities x = keep_known (if pq_RequestedCapabilities m = [] then DefaultCapabilities
             else pq_RequestedCapabilities m)
        \<and> (\<forall>c. Allowed i c (s_reg s') = None \<longleftrightarrow> c \<in> set (px_GrantedCapabilities x))
        \<and> (\<forall>tok. \<not> holds_token (s_tokens s') i tok) \<and> subs_of i (s_hub s') = {} \<and> doomed i (s_paneHub s') = {}
        \<and> (\<forall>j. j \<noteq> i \<longrightarrow> Registry_Get j (s_reg s') = Registry_Get j (s_reg s)))"
proof (cases admitted)
  case False
  then have "s' = s \<and> (\<forall>x. r \<noteq> Reply x)"
    using assms(2) Pair_unverified [of lb m s io t1 t2] Pair_refused [of lb m s t1 io t2]
    unfolding admitted_def by (metis fst_conv snd_conv reply.distinct(1))
  then show ?thesis using False by blast
next
  case True
  then have v: "pair_verified lb m s" "OpenNow t1 (s_pairs s) \<and> pq_PairingSecret m = pm_secret (s_pairs s)"
    by (simp_all add: admitted_def)
  obtain e g d where add: "Registry_Add (lb_json lb) io (requested_device lb m t2) (s_reg s) (s_disk s) = (e, g, d)"
    by (rule prod_cases3)
  note p = Pair_admitted [OF v add]
  let ?s2 = "s\<lparr>s_pairs := (s_pairs s)\<lparr>pm_secret := []\<rparr>, s_reg := g, s_disk := d\<rparr>"
  have s': "s' = (if e = None then drop_sessions i ?s2 else ?s2)"
    using p(1) assms(2) by (simp add: i_def Let_def)
  then have closed: "\<not> OpenNow t (s_pairs s')" for t by (simp add: OpenNow_def)
  have "admitted \<and> px_DeviceId x = i
      \<and> px_GrantedCapabilities x = keep_known (if pq_RequestedCapabilities m = [] then DefaultCapabilities
           else pq_RequestedCapabilities m)
      \<and> (\<forall>c. Allowed i c (s_reg s') = None \<longleftrightarrow> c \<in> set (px_GrantedCapabilities x))
      \<and> (\<forall>tok. \<not> holds_token (s_tokens s') i tok) \<and> subs_of i (s_hub s') = {} \<and> doomed i (s_paneHub s') = {}
      \<and> (\<forall>j. j \<noteq> i \<longrightarrow> Registry_Get j (s_reg s') = Registry_Get j (s_reg s))" if r: "r = Reply x" for x
  proof -
    have e: "e = None" using p(2) r assms(2) by auto
    have x: "px_DeviceId x = i" "px_GrantedCapabilities x =
        (case Registry_Get (px_DeviceId x) g of None \<Rightarrow> [] | Some h \<Rightarrow> dv_Capabilities h)"
      using p(3) [of x] r assms(2) by (auto simp: i_def)
    note a = Add_done [OF add [unfolded e]]
    have id: "dv_ID (requested_device lb m t2) = i" by (simp add: requested_device_def i_def)
    have reg: "s_reg s' = g" using s' e by simp
    have granted: "px_GrantedCapabilities x = keep_known (dv_Capabilities (requested_device lb m t2))"
      using a x id by simp
    moreover have "Allowed i c g = None \<longleftrightarrow> c \<in> set (px_GrantedCapabilities x)" for c
      using a id granted by (simp add: Allowed_def Registry_Get_def Revoked_def) (simp add: requested_device_def)
    moreover have "(\<forall>tok. \<not> holds_token (s_tokens s') i tok) \<and> subs_of i (s_hub s') = {} \<and> doomed i (s_paneHub s') = {}"
      using drop_sessions_gone [of ?s2] assms(1) s' e by (simp add: srv_wf_def)
    ultimately show ?thesis using True x(1) a id reg by (simp add: requested_device_def)
  qed
  then show ?thesis using True closed by blast
qed

theorem pairing_outcome_witness:
  "\<exists>x s'. Pair demo_libs io_ok 50 60 (demo_pair_request [CapStatusRead, ''root'']) demo_server = (Reply x, s')
     \<and> px_GrantedCapabilities x = [CapStatusRead] \<and> \<not> OpenNow 70 (s_pairs s')"
proof -
  let ?m = "demo_pair_request [CapStatusRead, ''root'']"
  have w: "OpenNow 50 (s_pairs demo_server) \<and> pq_PairingSecret ?m = pm_secret (s_pairs demo_server)"
    by (simp add: OpenNow_def demo_server_def demo_pair_request_def)
  have k: "keep_known [CapStatusRead, ''root''] = [CapStatusRead]"
    by (simp add: keep_known_def KnownCapability_def CapStatusRead_def CapAgentAnswer_def
        CapAgentCommand_def CapSessionRead_def)
  have r: "s_reg demo_server = \<lparr>r_path = ''dev.json'', r_devices = []\<rparr>" "s_disk demo_server = Map.empty"
    by (simp_all add: demo_server_def)
  have "Registry_Add (lb_json demo_libs) io_ok (requested_device demo_libs ?m 60) (s_reg demo_server) (s_disk demo_server)
      = (None, snd (Registry_Add (lb_json demo_libs) io_ok (requested_device demo_libs ?m 60) (s_reg demo_server)
          (s_disk demo_server)))"
    unfolding r by (rule demo_Add) (simp_all add: requested_device_def demo_pair_request_def k demo_devseed_def)
  then have "\<exists>x. fst (Pair demo_libs io_ok 50 60 ?m demo_server) = Reply x"
    using Pair_admitted(2) [OF demo_pair_verified w] by (metis surj_pair)
  then obtain x where x: "fst (Pair demo_libs io_ok 50 60 ?m demo_server) = Reply x" by blast
  have eq: "Pair demo_libs io_ok 50 60 ?m demo_server = (Reply x, snd (Pair demo_libs io_ok 50 60 ?m demo_server))"
    using x by (simp add: prod_eq_iff)
  note po = pairing_outcome [OF demo_server_wf eq]
  have "px_GrantedCapabilities x = keep_known (if pq_RequestedCapabilities ?m = [] then DefaultCapabilities
      else pq_RequestedCapabilities ?m)" using po by blast
  then have "px_GrantedCapabilities x = [CapStatusRead]" using k by (simp add: demo_pair_request_def)
  moreover have "\<not> OpenNow 70 (s_pairs (snd (Pair demo_libs io_ok 50 60 ?m demo_server)))" using po by blast
  ultimately show ?thesis using eq by blast
qed

text \<open>C26: The code on the screen is enough. When a window is opened with sixteen random bytes and its
  secret is put in a code with the host's id, the pin of its certificate, the listener's port and the
  machine's address hints, the device that scans the code reads back exactly these, and the secret it
  read opens the window until it expires, whatever window was open before.\<close>
theorem scanned_code_admits:
  fixes td name :: string and ifaces :: "net_addr list option"
  assumes "sha256_sized cr" and "length b = secretLen" and "SPKIPin cr lib idn = Inr pin"
    and "0 < port" and "port \<le> 65535" and "Manager_Open (Some b) now m = (Some secret, m')"
  defines "code \<equiv> \<lparr>qr_HostID = HostID cr idn, qr_TrustDomainID = td, qr_HostName = name, qr_SPKIPin = pin,
      qr_Secret = secret, qr_Port = port, qr_Addrs = Addrs ifaces\<rparr>"
  shows "ParseURL (QR_URL code) = Inr code
    \<and> (\<forall>t. fst (Redeem (qr_Secret code) t m') \<longleftrightarrow> t < now + TTL)"
proof
  have "length (HostID cr idn) = 26"
    using fingerprint_length [OF assms(1)] by (simp add: HostID_def HostIDFor_def)
  moreover obtain spki where "pin = RawURLEncoding_EncodeToString (sha256 cr spki)"
    using assms(3) by (auto simp: SPKIPin_def PinSPKI_def split: list.splits option.splits)
  then have "pin \<noteq> []"
    using assms(1) RawURLEncoding_nonempty [of "sha256 cr spki"]
    unfolding sha256_sized_def by (metis length_0_conv zero_neq_numeral)
  moreover have s: "secret \<noteq> []" "m' = m\<lparr>pm_secret := secret, pm_expires := now + TTL\<rparr>"
    using assms(2,6) by (auto simp: Manager_Open_def Let_def secretLen_def RawURLEncoding_nonempty)
  moreover have "Addrs ifaces \<noteq> [[]]" using Addrs_fit_a_code [of ifaces] by auto
  ultimately have "qr_ok code"
    using assms(4,5) Addrs_fit_a_code [of ifaces] by (auto simp: qr_ok_def code_def)
  then show "ParseURL (QR_URL code) = Inr code" by (rule ParseURL_URL)
  show "\<forall>t. fst (Redeem (qr_Secret code) t m') \<longleftrightarrow> t < now + TTL"
    using s by (simp add: code_def Redeem_def Let_def ConstantTimeCompare_def list_all2_refl)
qed

theorem scanned_code_admits_witness:
  "fst (Redeem (RawURLEncoding_EncodeToString (replicate 16 (CHR ''a''))) 5
     (snd (Manager_Open (Some (replicate 16 (CHR ''a''))) 0 Manager_zero)))"
proof -
  let ?b = "replicate 16 (CHR ''a'')" and ?s = "RawURLEncoding_EncodeToString (replicate 16 (CHR ''a''))"
  have l: "length ?b = secretLen" by (simp add: secretLen_def)
  have o: "Manager_Open (Some ?b) 0 Manager_zero = (Some ?s, snd (Manager_Open (Some ?b) 0 Manager_zero))"
    by (simp add: Manager_Open_def Let_def)
  have pin: "SPKIPin demo_crypto (demo_tls\<lparr>tl_ParseSPKI := Some\<rparr>) demo_identity
      = Inr (PinSPKI demo_crypto (HostIDFor demo_crypto demo_seed))"
    by (simp add: SPKIPin_def demo_identity_def)
  show ?thesis
    using scanned_code_admits [OF demo_crypto_ok(1) l pin _ _ o, of 4433] by (simp add: TTL_def time_units)
qed

section \<open>Authentication\<close>



text \<open>C8: A device that follows the protocol gets in. While the window is open and the book can be
  written, a device that signs the host id and the displayed secret with its own key is paired;
  its challenge is then answered, its signature over the challenge accepted any time before the
  nonce expires, and the session token it receives opens every call it was granted the capability
  for until the token expires. The keys, clocks and random bytes are arbitrary.\<close>
theorem honest_device_gets_in:
  fixes name :: string and caps :: "string list"
  assumes crypto: "ed25519_correct (lb_crypto lb)" "sha256_sized (lb_crypto lb)" and "length seed = 32"
    and "OpenNow t1 (s_pairs s)"
  defines "sk \<equiv> NewKeyFromSeed (lb_crypto lb) seed" and "pub \<equiv> ed_pub_of_seed (lb_crypto lb) seed"
    and "host \<equiv> HostID (lb_crypto lb) (s_id s)"
  assumes signed: "SignPairProof (lb_crypto lb) sk host (pm_secret (s_pairs s)) pub = Some sig"
  defines "m \<equiv> honest_pair_request lb pub name caps s sig"
  assumes add: "fst (Registry_Add (lb_json lb) io (requested_device lb m t2) (s_reg s) (s_disk s)) = None"
    and intime: "t4 < t3 + nonceTTL"
  shows "\<exists>x s1 y s2 sig' z s3. Pair lb io t1 t2 m s = (Reply x, s1)
    \<and> Challenge lb (Some raw) t3 (px_DeviceId x) s1 = (Reply y, s2)
    \<and> SignAuth (lb_crypto lb) sk host (px_DeviceId x) (cx_Nonce y) = Some sig'
    \<and> Authenticate lb io' (Some tok) t4 t5 t6 (auth_request (px_DeviceId x) (cx_Nonce y) sig') s2 = (Reply z, s3)
    \<and> (\<forall>c \<in> set (px_GrantedCapabilities x). \<forall>u < t5 + tokenTTL.
         fst (authorize (bearerPrefix @ ax_SessionToken z) c u s3) = Reply (px_DeviceId x))"
proof -
  let ?dev = "requested_device lb m t2"
  obtain g d where add': "Registry_Add (lb_json lb) io ?dev (s_reg s) (s_disk s) = (None, g, d)"
    using add by (metis prod_cases3 fst_conv)
  obtain x s1 where p: "Pair lb io t1 t2 m s = (Reply x, s1)" "s_reg s1 = g" "s_id s1 = s_id s"
    and x: "px_DeviceId x = DeviceIDFor (lb_crypto lb) pub"
    and granted: "px_GrantedCapabilities x = keep_known (dv_Capabilities ?dev)"
    unfolding pub_def by (rule honest_pair [OF crypto(1) assms(3,4) signed [unfolded sk_def pub_def host_def]
        meta_eq_to_obj_eq [OF m_def [unfolded pub_def]] add'])
  define i where "i = px_DeviceId x"
  have dev: "dv_ID ?dev = i" "dv_PublicKey ?dev = pub" "dv_RevokedAt ?dev = None"
    using x by (simp_all add: requested_device_def m_def honest_pair_request_def i_def)
  have i: "i \<noteq> []" using fingerprint_length [OF crypto(2), of pub] x by (auto simp: i_def DeviceIDFor_def)
  let ?d = "?dev\<lparr>dv_Capabilities := keep_known (dv_Capabilities ?dev)\<rparr>"
  have live1: "live_device i s1 = Some ?d"
    using Add_done [OF add'] dev p(2) by (simp add: live_device_def Revoked_def)
  obtain y s2 where c: "Challenge lb (Some raw) t3 i s1 = (Reply y, s2)" "cx_Nonce y = raw"
    and n: "map_of (ns_issued (s_nonces s2)) (RawURLEncoding_EncodeToString raw)
      = Some \<lparr>nn_deviceID = dv_ID ?d, nn_expires = t3 + nonceTTL\<rparr>" "s_reg s2 = s_reg s1" "s_id s2 = s_id s1"
    by (rule honest_challenge [OF live1])
  have live2: "live_device i s2 = Some ?d" using live1 n(2) by (simp add: live_device_def)
  obtain sig' where sg: "SignAuth (lb_crypto lb) sk host i raw = Some sig'"
    using sign_then_verify [OF crypto(1) assms(3)] unfolding SignAuth_def sk_def by metis
  have host2: "HostID (lb_crypto lb) (s_id s2) = host" using n(3) p(3) by (simp add: host_def)
  have id: "dv_ID ?d = i" and key: "dv_PublicKey ?d = ed_pub_of_seed (lb_crypto lb) seed"
    using dev by (simp_all add: pub_def)
  obtain z s3 where a: "Authenticate lb io' (Some tok) t4 t5 t6 (auth_request i raw sig') s2 = (Reply z, s3)"
    and z: "ax_SessionToken z = RawURLEncoding_EncodeToString tok"
    by (rule honest_authenticate [OF crypto(1) assms(3) live2 id key n(1) [unfolded id] intime
          sg [unfolded sk_def, folded host2]])
  have d2: "live_device (aq_DeviceId (auth_request i raw sig')) s2 = Some ?d"
    using live2 by (simp add: auth_request_def)
  note st = Authenticate_state [OF a d2]
  have "fst (authorize (bearerPrefix @ ax_SessionToken z) cap u s3) = Reply i"
    if c: "cap \<in> set (px_GrantedCapabilities x)" and u: "u < t5 + tokenTTL" for cap u
    using live_device_Allowed [OF live2, of cap] c u granted i id
    by (simp add: authorize_bearer st z minted_resolves)
  then show ?thesis using p(1) c sg a by (auto simp: i_def)
qed

theorem honest_device_gets_in_witness:
  "\<exists>x. fst (Pair demo_libs io_ok 50 60 (demo_pair_request [CapStatusRead]) demo_server) = Reply x"
proof -
  let ?sk = "NewKeyFromSeed (lb_crypto demo_libs) demo_devseed" and ?pub = "ed_pub_of_seed (lb_crypto demo_libs) demo_devseed"
  let ?host = "HostID (lb_crypto demo_libs) (s_id demo_server)"
  have cr: "lb_crypto demo_libs = demo_crypto" "s_id demo_server = demo_identity" "pm_secret (s_pairs demo_server) = ''sec''"
    "s_reg demo_server = \<lparr>r_path = ''dev.json'', r_devices = []\<rparr>" "s_disk demo_server = Map.empty"
    by (simp_all add: demo_libs_def demo_server_def)
  have c: "ed25519_correct (lb_crypto demo_libs)" "sha256_sized (lb_crypto demo_libs)"
    by (simp_all add: cr demo_crypto_ok)
  have l: "length demo_devseed = 32" by (simp add: demo_devseed_def)
  have o: "OpenNow 50 (s_pairs demo_server)" by (simp add: OpenNow_def demo_server_def)
  have pub: "?pub = demo_devseed" by (simp add: cr) (simp add: demo_crypto_def)
  let ?sig = "demo_devseed @ pairBytes (HostID demo_crypto demo_identity) ''sec'' demo_devseed"
  have sg: "SignPairProof (lb_crypto demo_libs) ?sk ?host (pm_secret (s_pairs demo_server)) ?pub = Some ?sig"
    unfolding pub by (simp add: cr SignPairProof_def ed25519_Sign_def PrivateKeySize_def NewKeyFromSeed_def l)
      (simp add: demo_crypto_def l)
  have m: "honest_pair_request demo_libs ?pub ''Phone'' [CapStatusRead] demo_server ?sig = demo_pair_request [CapStatusRead]"
    unfolding pub by (simp add: honest_pair_request_def demo_pair_request_def cr)
  have k: "keep_known [CapStatusRead] \<noteq> []"
    by (simp add: keep_known_def KnownCapability_def)
  have a: "fst (Registry_Add (lb_json demo_libs) io_ok (requested_device demo_libs
      (honest_pair_request demo_libs ?pub ''Phone'' [CapStatusRead] demo_server ?sig) 60)
      (s_reg demo_server) (s_disk demo_server)) = None"
    unfolding m cr(4,5) by (subst demo_Add) (simp_all add: requested_device_def demo_pair_request_def k l)
  have t: "(1 :: gotime) < 0 + nonceTTL" by (simp add: nonceTTL_def time_units)
  obtain x s1 where "Pair demo_libs io_ok 50 60 (demo_pair_request [CapStatusRead]) demo_server = (Reply x, s1)"
    using honest_device_gets_in [OF c l o sg a t, of "''nn''" io_ok "''tk''" 5 6] unfolding m by blast
  then show ?thesis by simp
qed

end
